(* ===== verification/Prelude.thy ===== *)
theory Prelude
  imports Main "HOL-Library.Word"
begin

text \<open>
  Shared vocabulary of the qsync development: the machine types of the C++ code, little-endian
  integers as they are laid out by \<open>memcpy\<close>, the C idioms for sizes and copies, the kinds
  of undefined behaviour a model can report, and transition systems with their reachable states.
  The collections \<open>qsync_simps\<close> and \<open>qsync_intros\<close> gather the facts the component
  theories hand to the simplifier and the classical reasoner.
\<close>

named_theorems qsync_simps \<open>rewrite rules shared by the component theories\<close>
named_theorems qsync_intros \<open>introduction rules shared by the component theories\<close>

section \<open>Machine types\<close>

type_synonym u8 = "8 word"
type_synonym u16 = "16 word"
type_synonym u64 = "64 word"
type_synonym bytes = "u8 list"

text \<open>
  What a model reports when the C++ code would leave the defined part of the language, or end the
  process with an exception nothing catches. A function whose result is \<open>Inl e\<close> has undefined
  behaviour of the kind \<open>e\<close>, or throws through a callback.
\<close>

datatype ub =
    OutOfBoundsRead
  | OutOfBoundsWrite
  | NullDereference
  | UseAfterFree
  | UncaughtException

text \<open>
  Lengths and offsets of the code are \<open>uint32_t\<close> or \<open>size_t\<close>. They are kept as
  natural numbers, with the wrap-around of the subtraction written out: \<open>size_t\<close>
  arithmetic is modulo \<open>2 ^ 64\<close>, \<open>uint32_t\<close> arithmetic modulo \<open>2 ^ 32\<close>.
\<close>

definition size_sub :: "nat \<Rightarrow> nat \<Rightarrow> nat" where
  "size_sub a b = (if b \<le> a then a - b else a + 2 ^ 64 - b)"

definition u32_sub :: "nat \<Rightarrow> nat \<Rightarrow> nat" where
  "u32_sub a b = (if b \<le> a then a - b else a + 2 ^ 32 - b)"

definition u32_add :: "nat \<Rightarrow> nat \<Rightarrow> nat" where
  "u32_add a b = (a + b) mod 2 ^ 32"

lemma size_sub_le [simp, qsync_simps]: "b \<le> a \<Longrightarrow> size_sub a b = a - b"
  by (simp add: size_sub_def)

lemma u32_sub_le [simp, qsync_simps]: "b \<le> a \<Longrightarrow> u32_sub a b = a - b"
  by (simp add: u32_sub_def)

lemma u32_add_small [simp, qsync_simps]: "a + b < 2 ^ 32 \<Longrightarrow> u32_add a b = a + b"
  by (simp add: u32_add_def)

section \<open>Copies into a buffer\<close>

text \<open>
  \<open>memcpy (dst + off, src, n)\<close> with \<open>src\<close> already cut to \<open>n\<close> bytes. The
  checked form reports a write past the end of the destination.
\<close>

definition overwrite :: "bytes \<Rightarrow> nat \<Rightarrow> bytes \<Rightarrow> bytes" where
  "overwrite dst off src = take off dst @ src @ drop (off + length src) dst"

definition memcpy_at :: "bytes \<Rightarrow> nat \<Rightarrow> bytes \<Rightarrow> ub + bytes" where
  "memcpy_at dst off src =
     (if off + length src \<le> length dst then Inr (overwrite dst off src)
      else Inl OutOfBoundsWrite)"

text \<open>Reading \<open>n\<close> bytes from offset \<open>off\<close> of a buffer.\<close>

definition read_range :: "bytes \<Rightarrow> nat \<Rightarrow> nat \<Rightarrow> ub + bytes" where
  "read_range buf off n =
     (if off + n \<le> length buf then Inr (take n (drop off buf)) else Inl OutOfBoundsRead)"

lemma length_overwrite [simp]:
  "off + length src \<le> length dst \<Longrightarrow> length (overwrite dst off src) = length dst"
  by (simp add: overwrite_def)

lemma take_overwrite [simp]:
  "off + length src \<le> length dst \<Longrightarrow> n = off + length src \<Longrightarrow>
   take n (overwrite dst off src) = take off dst @ src"
  by (cases src) (auto simp: overwrite_def min_def)

lemma overwrite_full:
  "off + length src = length dst \<Longrightarrow> overwrite dst off src = take off dst @ src"
  by (simp add: overwrite_def)

lemma memcpy_at_ok [simp]:
  "off + length src \<le> length dst \<Longrightarrow> memcpy_at dst off src = Inr (overwrite dst off src)"
  by (simp add: memcpy_at_def)

lemma read_range_ok [simp]:
  "off + n \<le> length buf \<Longrightarrow> read_range buf off n = Inr (take n (drop off buf))"
  by (simp add: read_range_def)

section \<open>Little-endian integers\<close>

text \<open>
  The value of an unsigned integer whose object representation is the given byte list, on the
  little-endian targets the presets build for, and the representation of a value in \<open>k\<close>
  bytes.
\<close>

primrec le_nat :: "bytes \<Rightarrow> nat" where
  "le_nat [] = 0"
| "le_nat (b # bs) = unat b + 256 * le_nat bs"

primrec nat_le :: "nat \<Rightarrow> nat \<Rightarrow> bytes" where
  "nat_le 0 x = []"
| "nat_le (Suc k) x = of_nat (x mod 256) # nat_le k (x div 256)"

text \<open>For evaluation: unrolled representations of a numeral width.\<close>

lemma nat_le_numeral:
  "nat_le (numeral n) x = of_nat (x mod 256) # nat_le (pred_numeral n) (x div 256)"
  by (simp only: numeral_eq_Suc [of n] nat_le.simps)

lemma length_nat_le [simp]: "length (nat_le k x) = k"
  by (induction k arbitrary: x) auto

lemma unat_u8_less [simp]: "unat (b :: u8) < 256"
  using unsigned_less [of b, where ?'a = nat] by simp

lemma le_nat_bound: "le_nat bs < 256 ^ length bs"
proof (induction bs)
  case Nil
  then show ?case by simp
next
  case (Cons b bs)
  then have "le_nat bs + 1 \<le> 256 ^ length bs" by simp
  then have "256 * le_nat bs + 256 \<le> 256 * 256 ^ length bs" by linarith
  moreover have "unat b < 256" by simp
  ultimately have "unat b + 256 * le_nat bs < 256 * 256 ^ length bs" by linarith
  then show ?case by simp
qed

lemma unat_of_nat_u8: "unat (of_nat (x mod 256) :: u8) = x mod 256"
  by (simp add: unat_of_nat)

lemma le_nat_nat_le: "le_nat (nat_le k x) = x mod 256 ^ k"
proof (induction k arbitrary: x)
  case 0
  then show ?case by simp
next
  case (Suc k)
  have "le_nat (nat_le (Suc k) x) = x mod 256 + 256 * ((x div 256) mod 256 ^ k)"
    by (simp add: Suc unat_of_nat_u8 del: of_nat_mod)
  also have "\<dots> = x mod (256 * 256 ^ k)"
    by (simp add: mod_mult2_eq)
  finally show ?case by simp
qed

lemma nat_le_le_nat: "nat_le (length bs) (le_nat bs) = bs"
  by (induction bs) simp_all

lemma nat_le_le_nat' [simp]: "length bs = k \<Longrightarrow> nat_le k (le_nat bs) = bs"
  using nat_le_le_nat by blast

lemma le_nat_nat_le_small [simp]: "x < 256 ^ k \<Longrightarrow> le_nat (nat_le k x) = x"
  by (simp add: le_nat_nat_le)

lemma le_nat_append: "le_nat (xs @ ys) = le_nat xs + 256 ^ length xs * le_nat ys"
  by (induction xs) (simp_all add: algebra_simps)

section \<open>Fixed-width codecs\<close>

text \<open>
  The interface the framing layers rely on: a value and its representation in \<open>width\<close>
  bytes. Sizes (\<open>uint32_t\<close>) and file ids (\<open>uint64_t\<close>) both provide it.
\<close>

locale fixed_codec =
  fixes enc :: "'a \<Rightarrow> bytes"
    and dec :: "bytes \<Rightarrow> 'a"
    and width :: nat
    and fits :: "'a \<Rightarrow> bool"
  assumes enc_length: "length (enc x) = width"
    and dec_enc: "fits x \<Longrightarrow> dec (enc x) = x"
    and enc_dec: "length bs = width \<Longrightarrow> enc (dec bs) = bs"
    and fits_dec: "length bs = width \<Longrightarrow> fits (dec bs)"
begin

lemma enc_inj: "fits x \<Longrightarrow> fits y \<Longrightarrow> enc x = enc y \<Longrightarrow> x = y"
  using dec_enc by metis

lemma dec_inj: "length xs = width \<Longrightarrow> length ys = width \<Longrightarrow> dec xs = dec ys \<Longrightarrow> xs = ys"
  using enc_dec by metis

end

definition enc_u32 :: "nat \<Rightarrow> bytes" where
  "enc_u32 n = nat_le 4 n"

definition enc_u64 :: "u64 \<Rightarrow> bytes" where
  "enc_u64 x = nat_le 8 (unat x)"

definition dec_u64 :: "bytes \<Rightarrow> u64" where
  "dec_u64 bs = of_nat (le_nat bs)"

interpretation size32: fixed_codec enc_u32 le_nat 4 "\<lambda>n. n < 2 ^ 32"
proof
  show "le_nat bs < 2 ^ 32" if "length bs = 4" for bs
    using le_nat_bound [of bs] that by simp
qed (simp_all add: enc_u32_def)

lemma unat_dec_u64: "length bs = 8 \<Longrightarrow> unat (dec_u64 bs) = le_nat bs"
  using le_nat_bound [of bs] by (simp add: dec_u64_def unat_of_nat)

lemma unat_u64_less: "unat (x :: u64) < 256 ^ 8"
  using unsigned_less [of x, where ?'a = nat] by simp

interpretation id64: fixed_codec enc_u64 dec_u64 8 "\<lambda>_. True"
proof
  show "dec_u64 (enc_u64 x) = x" for x
    using unat_u64_less [of x] by (simp add: enc_u64_def dec_u64_def)
  show "enc_u64 (dec_u64 bs) = bs" if "length bs = 8" for bs
    using that by (simp add: enc_u64_def unat_dec_u64)
qed (simp_all add: enc_u64_def)

lemmas codec_lengths [simp] = size32.enc_length id64.enc_length

section \<open>Transition systems\<close>

text \<open>
  The states a transition system can be in: the start states and everything one step away from a
  state it can be in. A predicate that holds at the start and that every step keeps holds in all
  of them.
\<close>

inductive reachable :: "('s \<Rightarrow> bool) \<Rightarrow> ('s \<Rightarrow> 's \<Rightarrow> bool) \<Rightarrow> 's \<Rightarrow> bool"
  for start :: "'s \<Rightarrow> bool" and step :: "'s \<Rightarrow> 's \<Rightarrow> bool" where
  reachable_start: "start s \<Longrightarrow> reachable start step s"
| reachable_step: "reachable start step s \<Longrightarrow> step s t \<Longrightarrow> reachable start step t"

lemma reachable_invariant:
  assumes "reachable start step s"
    and "\<And>s. start s \<Longrightarrow> P s"
    and "\<And>s t. P s \<Longrightarrow> step s t \<Longrightarrow> P t"
  shows "P s"
  using assms by (induction rule: reachable.induct) blast+

section \<open>Sequences of calls that may fail\<close>

text \<open>
  Code that makes one call after the other and leaves at the first that fails, by \<open>goto Error\<close> or
  \<open>return false\<close>: a call gives \<open>False\<close> when it fails.
\<close>

type_synonym 's attempt = "'s \<Rightarrow> bool \<times> 's"

fun run_steps :: "'s attempt list \<Rightarrow> 's attempt" where
  "run_steps [] s = (True, s)"
| "run_steps (f # fs) s = (case f s of (True, s') \<Rightarrow> run_steps fs s' | (False, s') \<Rightarrow> (False, s'))"

lemma fst_run_steps [simp]:
  "fst (run_steps (f # fs) s) \<longleftrightarrow> fst (f s) \<and> fst (run_steps fs (snd (f s)))"
  by (auto split: prod.split bool.split)

lemma run_steps_append:
  "run_steps (fs @ gs) s = (case run_steps fs s of (True, s') \<Rightarrow> run_steps gs s' | (False, s') \<Rightarrow> (False, s'))"
  by (induction fs arbitrary: s) (auto split: prod.split bool.split)

lemma run_steps_invariant:
  "(\<And>f s. f \<in> set fs \<Longrightarrow> P s \<Longrightarrow> P (snd (f s))) \<Longrightarrow> P s \<Longrightarrow> P (snd (run_steps fs s))"
proof (induction fs arbitrary: s)
  case (Cons f fs)
  obtain ok s' where f: "f s = (ok, s')" by (cases "f s")
  with Cons.prems have "P s'" by (metis list.set_intros(1) snd_conv)
  with Cons f show ?case by (cases ok) auto
qed simp

end
