(* ===== verification/Framing.thy ===== *)
theory Framing
  imports Prelude
begin

text \<open>
  The abstract side of the two byte streams of qsync: what a stream of frames means, and the
  contract of a reader that gets the stream in pieces. A frame is a header of fixed width and a
  body whose length the header gives. On the control stream from client to server the header is
  the four-byte size of a message; towards the client a frame is an eight-byte file id with an
  empty body. \<open>parse_frames\<close> is the meaning of a stream that is received whole; the locale
  \<open>stream_reader\<close> states when a stateful reader computes it from any sequence of
  receives.
\<close>

section \<open>Streams of frames\<close>

type_synonym frame = "bytes \<times> bytes"

definition frame_bytes :: "frame \<Rightarrow> bytes" where
  "frame_bytes f = fst f @ snd f"

definition frames_bytes :: "frame list \<Rightarrow> bytes" where
  "frames_bytes fs = concat (map frame_bytes fs)"

definition frame_complete :: "nat \<Rightarrow> (bytes \<Rightarrow> nat) \<Rightarrow> bytes \<Rightarrow> bool" where
  "frame_complete w bl bs \<longleftrightarrow> w \<le> length bs \<and> bl (take w bs) \<le> length bs - w"

function parse_frames :: "nat \<Rightarrow> (bytes \<Rightarrow> nat) \<Rightarrow> bytes \<Rightarrow> frame list \<times> bytes" where
  "parse_frames w bl bs =
     (if 0 < w \<and> frame_complete w bl bs then
        (let h = take w bs; n = bl h; (fs, rest) = parse_frames w bl (drop (w + n) bs)
         in ((h, take n (drop w bs)) # fs, rest))
      else ([], bs))"
  by pat_completeness auto
termination
  by (relation "measure (\<lambda>(w, bl, bs). length bs)") (auto simp: frame_complete_def)

declare parse_frames.simps [simp del]

locale framing =
  fixes w :: nat and bl :: "bytes \<Rightarrow> nat"
  assumes width_pos: "0 < w"
begin

lemma parse_incomplete: "\<not> frame_complete w bl bs \<Longrightarrow> parse_frames w bl bs = ([], bs)"
  by (simp add: parse_frames.simps [of w bl bs])

lemma parse_complete:
  "frame_complete w bl bs \<Longrightarrow>
   parse_frames w bl bs =
     apfst (Cons (take w bs, take (bl (take w bs)) (drop w bs)))
       (parse_frames w bl (drop (w + bl (take w bs)) bs))"
  using width_pos
  by (simp add: parse_frames.simps [of w bl bs] Let_def case_prod_beta apfst_def map_prod_def)

lemma parse_Nil [simp]: "parse_frames w bl [] = ([], [])"
  using width_pos by (simp add: parse_incomplete frame_complete_def)

lemma parse_frame:
  assumes "length h = w" and "length b = bl h"
  shows "parse_frames w bl (h @ b @ rest) = apfst (Cons (h, b)) (parse_frames w bl rest)"
  using assms by (simp add: parse_complete frame_complete_def)

lemma frame_complete_append: "frame_complete w bl xs \<Longrightarrow> frame_complete w bl (xs @ ys)"
  by (auto simp: frame_complete_def)

lemma parse_rest_incomplete: "\<not> frame_complete w bl (snd (parse_frames w bl bs))"
proof (induction "length bs" arbitrary: bs rule: less_induct)
  case less
  show ?case
  proof (cases "frame_complete w bl bs")
    case True
    then have "length (drop (w + bl (take w bs)) bs) < length bs"
      using width_pos by (auto simp: frame_complete_def)
    from less [OF this] True show ?thesis by (simp add: parse_complete)
  next
    case False
    then show ?thesis by (simp add: parse_incomplete)
  qed
qed

text \<open>The bytes are kept: frames and rest together are the stream.\<close>

lemma parse_bytes: "frames_bytes (fst (parse_frames w bl bs)) @ snd (parse_frames w bl bs) = bs"
proof (induction "length bs" arbitrary: bs rule: less_induct)
  case less
  show ?case
  proof (cases "frame_complete w bl bs")
    case True
    let ?n = "bl (take w bs)"
    from True have "length (drop (w + ?n) bs) < length bs"
      using width_pos by (auto simp: frame_complete_def)
    note IH = less [OF this]
    have "take w bs @ take ?n (drop w bs) @ drop (w + ?n) bs = bs"
      by (metis append_assoc append_take_drop_id take_add)
    with True IH show ?thesis
      by (simp add: parse_complete frames_bytes_def frame_bytes_def)
  next
    case False
    then show ?thesis by (simp add: parse_incomplete frames_bytes_def)
  qed
qed

text \<open>
  Parsing is incremental: what is left over from a prefix, followed by the rest of the stream,
  parses to the remaining frames.
\<close>

lemma parse_append:
  "parse_frames w bl (xs @ ys) =
     apfst (append (fst (parse_frames w bl xs)))
       (parse_frames w bl (snd (parse_frames w bl xs) @ ys))"
proof (induction "length xs" arbitrary: xs rule: less_induct)
  case less
  show ?case
  proof (cases "frame_complete w bl xs")
    case True
    let ?n = "bl (take w xs)"
    from True have shorter: "length (drop (w + ?n) xs) < length xs"
      using width_pos by (auto simp: frame_complete_def)
    from True have "w \<le> length xs" and "?n \<le> length (drop w xs)"
      by (auto simp: frame_complete_def)
    with True show ?thesis
      using less [OF shorter] frame_complete_append [OF True, of ys]
      by (simp add: parse_complete apfst_def map_prod_def case_prod_beta)
  next
    case False
    then show ?thesis by (simp add: parse_incomplete apfst_def map_prod_def)
  qed
qed

definition wf_frame :: "frame \<Rightarrow> bool" where
  "wf_frame f \<longleftrightarrow> length (fst f) = w \<and> length (snd f) = bl (fst f)"

lemma parse_frames_bytes:
  "list_all wf_frame fs \<Longrightarrow> parse_frames w bl (frames_bytes fs @ rest) =
     apfst (append fs) (parse_frames w bl rest)"
proof (induction fs)
  case Nil
  then show ?case by (simp add: frames_bytes_def apfst_def map_prod_def)
next
  case (Cons f fs)
  then show ?case
    by (simp add: frames_bytes_def frame_bytes_def wf_frame_def parse_frame apfst_def map_prod_def
        case_prod_beta)
qed

end

section \<open>Readers that get the stream in pieces\<close>

text \<open>How a stream callback leaves the handling of one buffer of a receive.\<close>

datatype flow = NextBuffer | ReturnSuccess

text \<open>
  A reader takes its state and the bytes of one receive, and gives its next state and what it
  hands on; \<open>None\<close> is undefined behaviour. \<open>ok s b\<close> is the condition under which it
  handles the receive \<open>b\<close> properly in the state \<open>s\<close>.
\<close>

fun run_reader :: "('s \<Rightarrow> bytes \<Rightarrow> ('s \<times> 'o list) option) \<Rightarrow> 's \<Rightarrow> bytes list \<Rightarrow> ('s \<times> 'o list) option"
where
  "run_reader step s [] = Some (s, [])"
| "run_reader step s (b # bs) =
     (case step s b of
        None \<Rightarrow> None
      | Some (s', os) \<Rightarrow>
          (case run_reader step s' bs of
             None \<Rightarrow> None
           | Some (s'', os') \<Rightarrow> Some (s'', os @ os')))"

fun run_ok :: "('s \<Rightarrow> bytes \<Rightarrow> ('s \<times> 'o list) option) \<Rightarrow> ('s \<Rightarrow> bytes \<Rightarrow> bool) \<Rightarrow> 's \<Rightarrow> bytes list \<Rightarrow> bool"
where
  "run_ok step ok s [] = True"
| "run_ok step ok s (b # bs) =
     (ok s b \<and> (case step s b of None \<Rightarrow> True | Some (s', _) \<Rightarrow> run_ok step ok s' bs))"

locale stream_reader = framing w bl
  for w :: nat and bl :: "bytes \<Rightarrow> nat" +
  fixes step :: "'s \<Rightarrow> bytes \<Rightarrow> ('s \<times> 'o list) option"
    and pend :: "'s \<Rightarrow> bytes"
    and inv :: "'s \<Rightarrow> bool"
    and ok :: "'s \<Rightarrow> bytes \<Rightarrow> bool"
    and out :: "frame \<Rightarrow> 'o"
  assumes pend_incomplete: "inv s \<Longrightarrow> \<not> frame_complete w bl (pend s)"
    and step_refines: "inv s \<Longrightarrow> ok s b \<Longrightarrow>
      \<exists>s'. step s b = Some (s', map out (fst (parse_frames w bl (pend s @ b)))) \<and> inv s' \<and>
        pend s' = snd (parse_frames w bl (pend s @ b))"
begin

lemma run_refines:
  "inv s \<Longrightarrow> run_ok step ok s bs \<Longrightarrow>
   \<exists>s'. run_reader step s bs =
       Some (s', map out (fst (parse_frames w bl (pend s @ concat bs)))) \<and> inv s' \<and>
     pend s' = snd (parse_frames w bl (pend s @ concat bs))"
proof (induction bs arbitrary: s)
  case Nil
  then show ?case by (simp add: parse_incomplete pend_incomplete)
next
  case (Cons b bs)
  from Cons.prems have ok: "ok s b" by simp
  from step_refines [OF Cons.prems(1) ok] obtain s1 where
    s1: "step s b = Some (s1, map out (fst (parse_frames w bl (pend s @ b))))" "inv s1"
      "pend s1 = snd (parse_frames w bl (pend s @ b))" by blast
  with Cons.prems have "run_ok step ok s1 bs" by simp
  from Cons.IH [OF s1(2) this] s1 show ?case
    using parse_append [of "pend s @ b" "concat bs"]
    by (auto simp: apfst_def map_prod_def case_prod_beta)
qed

text \<open>A run over a stream of well-formed frames hands on exactly these, however it was cut.\<close>

lemma run_frames:
  assumes "inv s" and "pend s = []" and "run_ok step ok s bs"
    and "list_all wf_frame fs" and "concat bs = frames_bytes fs"
  shows "\<exists>s'. run_reader step s bs = Some (s', map out fs) \<and> inv s' \<and> pend s' = []"
  using run_refines [OF assms(1,3)] parse_frames_bytes [OF assms(4), of "[]"] assms(2,5)
  by (simp add: apfst_def map_prod_def)

end

interpretation sized: framing 4 le_nat
  by unfold_locales simp

interpretation ids: framing 8 "\<lambda>_. 0"
  by unfold_locales simp

text \<open>The frame the client sends for a message: its size in four bytes, then the message.\<close>

definition message_frame :: "bytes \<Rightarrow> frame" where
  "message_frame m = (enc_u32 (length m), m)"

lemma wf_message_frame: "length m < 2 ^ 32 \<Longrightarrow> sized.wf_frame (message_frame m)"
  by (simp add: sized.wf_frame_def message_frame_def size32.dec_enc)

lemma wf_message_frames:
  "\<forall>m \<in> set ms. length m < 2 ^ 32 \<Longrightarrow> list_all sized.wf_frame (map message_frame ms)"
  by (auto simp: list_all_iff wf_message_frame)

end
