(* ===== verification/ControlReceive.thy ===== *)
theory ControlReceive
  imports Framing
begin

text \<open>
  The server's side of the control stream: \<open>QsyncServer::QSyncServerControlStreamCallback\<close>
  of \<open>server.cpp\<close>, which cuts the received bytes into the serialized file infos the client
  sent, each preceded by its size. The state is the part of \<open>QsyncServer\<close> the callback
  keeps between receives; the messages it hands to \<open>AddFileToList\<close> are its output.
\<close>

section \<open>State\<close>

datatype partial_data = NoPartialData | PartialSize | PartialMessage

text \<open>
  The union of \<open>RemainderSize\<close>, \<open>RemainderSizeBytes\<close> and
  \<open>RemainderMessage\<close> keeps its layout: its first four bytes are \<open>RemainderSizeBytes\<close>,
  read as an integer they are \<open>RemainderSize\<close>, and \<open>QUIC_BUFFER\<close> has its
  \<open>Length\<close> in the same place and the pointer \<open>Buffer\<close> behind it.
  \<open>MessageBuffer\<close> is the block that pointer owns, \<open>None\<close> for \<open>nullptr\<close>.
\<close>

record control_state =
  SkipMessageBytes :: nat
  RemainderSizeBytes :: bytes
  MessageBuffer :: "bytes option"
  RemainderFilled :: nat
  PartialData :: partial_data

definition RemainderSize :: "control_state \<Rightarrow> nat" where
  "RemainderSize s = le_nat (RemainderSizeBytes s)"

definition init_control :: control_state where
  "init_control = \<lparr>SkipMessageBytes = 0, RemainderSizeBytes = [0, 0, 0, 0], MessageBuffer = None,
     RemainderFilled = 0, PartialData = NoPartialData\<rparr>"

text \<open>
  \<open>malloc\<close> gives a block with arbitrary contents or fails; here it is a function of the
  requested size. \<open>heap_ok\<close> says what the C library promises of a block.
\<close>

type_synonym heap = "nat \<Rightarrow> bytes option"

definition heap_ok :: "heap \<Rightarrow> bool" where
  "heap_ok h \<longleftrightarrow> (\<forall>n blk. h n = Some blk \<longrightarrow> length blk = n)"

definition never_fails :: "heap \<Rightarrow> bool" where
  "never_fails h \<longleftrightarrow> (\<forall>n. h n \<noteq> None)"

section \<open>The handler\<close>

text \<open>\<open>AddFileToList\<close> copies \<open>Length\<close> bytes from \<open>Buffer\<close> and enqueues them.\<close>

definition AddFileToList :: "bytes \<Rightarrow> nat \<Rightarrow> nat \<Rightarrow> ub + bytes" where
  "AddFileToList buf off len = read_range buf off len"

text \<open>
  The loop \<open>while (i < CurrentBuffer->Length)\<close>. \<open>tot\<close> is the event's
  \<open>TotalBufferLength\<close>, a 64-bit value, and \<open>i\<close> the offset in the current buffer.
\<close>

function scan_messages ::
  "heap \<Rightarrow> nat \<Rightarrow> bytes \<Rightarrow> nat \<Rightarrow> control_state \<Rightarrow> flow \<times> control_state \<times> bytes list"
where
  "scan_messages h tot b i s =
     (if i < length b then
        if length b - i < 4 then
          let s' = s\<lparr>RemainderFilled := length b - i,
                     RemainderSizeBytes := overwrite (RemainderSizeBytes s) 0 (drop i b),
                     PartialData := PartialSize\<rparr>
          in (if size_sub tot i < 4 then ReturnSuccess else NextBuffer, s', [])
        else
          let MessageSize = le_nat (take 4 (drop i b)); j = i + 4
          in if length b - j < MessageSize then
               (case h MessageSize of
                  None \<Rightarrow>
                    (if size_sub tot j < MessageSize then ReturnSuccess else NextBuffer,
                     s\<lparr>RemainderSizeBytes := enc_u32 0, MessageBuffer := None,
                       SkipMessageBytes := MessageSize - (length b - j)\<rparr>, [])
                | Some blk \<Rightarrow>
                    (if size_sub tot j < MessageSize then ReturnSuccess else NextBuffer,
                     s\<lparr>RemainderSizeBytes := enc_u32 MessageSize,
                       MessageBuffer := Some (overwrite blk 0 (drop j b)),
                       RemainderFilled := length b - j, PartialData := PartialMessage\<rparr>, []))
             else
               (case scan_messages h tot b (j + MessageSize) s of
                  (fl, s', ms) \<Rightarrow> (fl, s', take MessageSize (drop j b) # ms))
      else (NextBuffer, s, []))"
  by pat_completeness auto
termination
  by (relation "measure (\<lambda>(h, tot, b, i, s). length b - i)") auto

declare scan_messages.simps [simp del]

text \<open>The two branches that complete something left over from an earlier buffer.\<close>

definition continue_size ::
  "heap \<Rightarrow> nat \<Rightarrow> bytes \<Rightarrow> control_state \<Rightarrow> ub + flow \<times> control_state \<times> bytes list"
where
  "continue_size h tot b s =
     (let n = size_sub 4 (RemainderFilled s) in
      if length b < n then
        (case memcpy_at (RemainderSizeBytes s) (RemainderFilled s) b of
           Inl e \<Rightarrow> Inl e
         | Inr sz \<Rightarrow>
             Inr (ReturnSuccess,
               s\<lparr>RemainderSizeBytes := sz,
                 RemainderFilled := u32_add (RemainderFilled s) (length b),
                 PartialData := PartialSize\<rparr>, []))
      else
        (case memcpy_at (RemainderSizeBytes s) (RemainderFilled s) (take n b) of
           Inl e \<Rightarrow> Inl e
         | Inr sz \<Rightarrow>
             (case AddFileToList b n (le_nat sz) of
                Inl e \<Rightarrow> Inl e
              | Inr m \<Rightarrow>
                  (case scan_messages h tot b (u32_add n (le_nat sz))
                     (s\<lparr>RemainderSizeBytes := enc_u32 0, RemainderFilled := 0,
                        PartialData := NoPartialData\<rparr>) of
                     (fl, s', ms) \<Rightarrow> Inr (fl, s', m # ms)))))"

definition continue_message ::
  "heap \<Rightarrow> nat \<Rightarrow> bytes \<Rightarrow> control_state \<Rightarrow> ub + flow \<times> control_state \<times> bytes list"
where
  "continue_message h tot b s =
     (let n = u32_sub (RemainderSize s) (RemainderFilled s) in
      case MessageBuffer s of
        None \<Rightarrow> Inl NullDereference
      | Some blk \<Rightarrow>
          if length b < n then
            (case memcpy_at blk (RemainderFilled s) b of
               Inl e \<Rightarrow> Inl e
             | Inr blk' \<Rightarrow>
                 Inr (ReturnSuccess,
                   s\<lparr>MessageBuffer := Some blk',
                     RemainderFilled := u32_add (RemainderFilled s) (length b),
                     PartialData := PartialMessage\<rparr>, []))
          else
            (case memcpy_at blk (RemainderFilled s) (take n b) of
               Inl e \<Rightarrow> Inl e
             | Inr blk' \<Rightarrow>
                 (case AddFileToList blk' 0 (RemainderSize s) of
                    Inl e \<Rightarrow> Inl e
                  | Inr m \<Rightarrow>
                      (case scan_messages h tot b n
                         (s\<lparr>MessageBuffer := None, RemainderSizeBytes := enc_u32 0,
                            RemainderFilled := 0, PartialData := NoPartialData\<rparr>) of
                         (fl, s', ms) \<Rightarrow> Inr (fl, s', m # ms)))))"

text \<open>One iteration of the loop over the buffers of a receive event.\<close>

definition control_buffer ::
  "heap \<Rightarrow> nat \<Rightarrow> bytes \<Rightarrow> control_state \<Rightarrow> ub + flow \<times> control_state \<times> bytes list"
where
  "control_buffer h tot b s =
     (let i = SkipMessageBytes s; s0 = s\<lparr>SkipMessageBytes := 0\<rparr>
      in case PartialData s of
           PartialSize \<Rightarrow> continue_size h tot b s0
         | PartialMessage \<Rightarrow> continue_message h tot b s0
         | NoPartialData \<Rightarrow> Inr (scan_messages h tot b i s0))"

fun control_buffers ::
  "heap \<Rightarrow> nat \<Rightarrow> bytes list \<Rightarrow> control_state \<Rightarrow> ub + control_state \<times> bytes list"
where
  "control_buffers h tot [] s = Inr (s, [])"
| "control_buffers h tot (b # bs) s =
     (case control_buffer h tot b s of
        Inl e \<Rightarrow> Inl e
      | Inr (ReturnSuccess, s', ms) \<Rightarrow> Inr (s', ms)
      | Inr (NextBuffer, s', ms) \<Rightarrow>
          (case control_buffers h tot bs s' of
             Inl e \<Rightarrow> Inl e
           | Inr (s'', ms') \<Rightarrow> Inr (s'', ms @ ms')))"

datatype control_event =
    ControlReceive nat "bytes list"   \<comment> \<open>\<open>TotalBufferLength\<close> and the buffers\<close>
  | ControlSendComplete
  | ControlShutdownComplete
  | ControlOther

text \<open>
  The callback returns \<open>QUIC_STATUS_SUCCESS\<close> on every path. Its other events free the
  context of a send or do nothing, and leave the state alone.
\<close>

fun QSyncServerControlStreamCallback ::
  "heap \<Rightarrow> control_state \<Rightarrow> control_event \<Rightarrow> ub + control_state \<times> bytes list"
where
  "QSyncServerControlStreamCallback h s (ControlReceive tot bufs) = control_buffers h tot bufs s"
| "QSyncServerControlStreamCallback h s ControlSendComplete = Inr (s, [])"
| "QSyncServerControlStreamCallback h s ControlShutdownComplete = Inr (s, [])"
| "QSyncServerControlStreamCallback h s ControlOther = Inr (s, [])"

text \<open>The event MsQuic delivers for a list of buffers: the total is the sum of the lengths.\<close>

definition receive_event :: "bytes list \<Rightarrow> control_event" where
  "receive_event bufs = ControlReceive (sum_list (map length bufs)) bufs"

section \<open>Invariant and abstraction\<close>

text \<open>
  \<open>control_inv\<close> relates the fields in each mode: an unfinished size has fewer than four
  bytes, an unfinished message fewer bytes than its block, which has the announced length.
  \<open>pending\<close> is the part of the stream the state stands for.
\<close>

fun partial_ok :: "partial_data \<Rightarrow> control_state \<Rightarrow> bool" where
  "partial_ok NoPartialData s = True"
| "partial_ok PartialSize s = (0 < RemainderFilled s \<and> RemainderFilled s < 4)"
| "partial_ok PartialMessage s =
     (case MessageBuffer s of
        None \<Rightarrow> False
      | Some blk \<Rightarrow> length blk = RemainderSize s \<and> RemainderFilled s < length blk)"

definition control_inv :: "control_state \<Rightarrow> bool" where
  "control_inv s \<longleftrightarrow>
     SkipMessageBytes s = 0 \<and> length (RemainderSizeBytes s) = 4 \<and> partial_ok (PartialData s) s"

fun pending_of :: "partial_data \<Rightarrow> control_state \<Rightarrow> bytes" where
  "pending_of NoPartialData s = []"
| "pending_of PartialSize s = take (RemainderFilled s) (RemainderSizeBytes s)"
| "pending_of PartialMessage s =
     RemainderSizeBytes s @
       (case MessageBuffer s of None \<Rightarrow> [] | Some blk \<Rightarrow> take (RemainderFilled s) blk)"

definition pending :: "control_state \<Rightarrow> bytes" where
  "pending s = pending_of (PartialData s) s"

text \<open>
  The receives the handler is written for: when it completes a size that an earlier receive cut,
  the whole message must be in the same buffer, because it is read from that buffer unchecked.
\<close>

definition size_with_message :: "control_state \<Rightarrow> bytes \<Rightarrow> bool" where
  "size_with_message s b \<longleftrightarrow>
     (PartialData s = PartialSize \<longrightarrow>
        length (pending s @ b) < 4 \<or> frame_complete 4 le_nat (pending s @ b))"

lemma init_control_inv [simp]: "control_inv init_control"
  and init_control_pending [simp]: "pending init_control = []"
  by (simp_all add: control_inv_def init_control_def pending_def)

lemma RemainderSize_bound: "length (RemainderSizeBytes s) = 4 \<Longrightarrow> RemainderSize s < 2 ^ 32"
  using size32.fits_dec by (simp add: RemainderSize_def)

lemma pending_incomplete:
  assumes "control_inv s" shows "\<not> frame_complete 4 le_nat (pending s)"
  using assms
  by (cases "PartialData s")
    (auto simp: control_inv_def pending_def frame_complete_def RemainderSize_def split: option.splits)

text \<open>
  The loop is the parser: from a message boundary it hands on exactly the complete messages and
  keeps the rest of the buffer.
\<close>

lemma scan_messages_parses:
  assumes "heap_ok h" and "never_fails h" and "control_inv s" and "PartialData s = NoPartialData"
  shows "\<exists>fl s'. scan_messages h tot b i s =
             (fl, s', map snd (fst (parse_frames 4 le_nat (drop i b)))) \<and>
           control_inv s' \<and> pending s' = snd (parse_frames 4 le_nat (drop i b))"
  using assms
proof (induction h tot b i s rule: scan_messages.induct)
  case (1 h tot b i s)
  note inv = "1.prems"(3,4)
  let ?m = "le_nat (take 4 (drop i b))"
  consider (finished) "\<not> i < length b"
    | (size) "i < length b" "length b - i < 4"
    | (part) "i < length b" "\<not> length b - i < 4" "length b - (i + 4) < ?m"
    | (whole) "i < length b" "\<not> length b - i < 4" "\<not> length b - (i + 4) < ?m"
    by linarith
  then show ?case
  proof cases
    case finished
    then show ?thesis using inv by (simp add: scan_messages.simps [of h tot b i s] pending_def)
  next
    case size
    then have "\<not> frame_complete 4 le_nat (drop i b)" by (simp add: frame_complete_def)
    then show ?thesis using size inv
      by (simp add: scan_messages.simps [of h tot b i s] Let_def pending_def control_inv_def
          sized.parse_incomplete)
  next
    case part
    from "1.prems"(1,2) obtain blk where blk: "h ?m = Some blk" "length blk = ?m"
      unfolding heap_ok_def never_fails_def by (metis not_None_eq)
    from part have nc: "\<not> frame_complete 4 le_nat (drop i b)"
      by (simp add: frame_complete_def)
    have head: "enc_u32 ?m @ drop (i + 4) b = drop i b"
      using part by (metis append_take_drop_id drop_drop add.commute length_drop
          linorder_not_less size32.enc_dec length_take min.absorb2)
    have "?m < 2 ^ 32" using part by (intro size32.fits_dec) simp
    then show ?thesis using part inv blk nc head
      by (simp add: scan_messages.simps [of h tot b i s] Let_def pending_def control_inv_def
          sized.parse_incomplete RemainderSize_def size32.dec_enc)
  next
    case whole
    then have c: "frame_complete 4 le_nat (drop i b)" by (simp add: frame_complete_def)
    from whole "1.IH" [OF whole(1,2) refl refl whole(3)] "1.prems" obtain fl s' where
      IH: "scan_messages h tot b (i + 4 + ?m) s =
          (fl, s', map snd (fst (parse_frames 4 le_nat (drop (i + 4 + ?m) b))))"
        "control_inv s'" "pending s' = snd (parse_frames 4 le_nat (drop (i + 4 + ?m) b))" by blast
    have "drop (4 + ?m) (drop i b) = drop (i + 4 + ?m) b" "drop 4 (drop i b) = drop (i + 4) b"
      by (simp_all add: ac_simps)
    with whole IH sized.parse_complete [OF c] show ?thesis
      by (simp add: scan_messages.simps [of h tot b i s] Let_def apfst_def map_prod_def
          case_prod_beta del: drop_drop)
  qed
qed

text \<open>
  Each of the three ways to enter a buffer continues the parser from \<open>pending\<close>.
\<close>

lemma continue_size_parses:
  assumes "heap_ok h" and "never_fails h" and inv: "control_inv s" and mode: "PartialData s = PartialSize"
    and ok: "size_with_message s b" and short: "length b < 2 ^ 32"
  shows "\<exists>fl s'. continue_size h tot b s =
             Inr (fl, s', map snd (fst (parse_frames 4 le_nat (pending s @ b)))) \<and>
           control_inv s' \<and> pending s' = snd (parse_frames 4 le_nat (pending s @ b))"
proof -
  let ?k = "RemainderFilled s" and ?S = "RemainderSizeBytes s"
  from inv mode have k: "0 < ?k" "?k < 4" "length ?S = 4" "SkipMessageBytes s = 0"
    by (auto simp: control_inv_def)
  from mode k have pend: "pending s = take ?k ?S" by (simp add: pending_def)
  show ?thesis
  proof (cases "length b < 4 - ?k")
    case True
    then have "\<not> frame_complete 4 le_nat (pending s @ b)"
      using k True by (auto simp: frame_complete_def pend)
    then show ?thesis using True k
      by (simp add: continue_size_def Let_def pend control_inv_def pending_def mode
          sized.parse_incomplete)
  next
    case False
    let ?n = "4 - ?k"
    let ?sz = "take ?k ?S @ take ?n b" and ?rest = "drop ?n b"
    let ?m = "le_nat ?sz"
    from False k have bytes: "overwrite ?S ?k (take ?n b) = ?sz" "length ?sz = 4"
      by (simp_all add: overwrite_full)
    have split: "pending s @ b = ?sz @ ?rest" by (simp add: pend)
    from ok mode False k have c: "frame_complete 4 le_nat (pending s @ b)"
      by (auto simp: size_with_message_def pend)
    have head: "take 4 (pending s @ b) = ?sz" "drop (4 + ?m) (pending s @ b) = drop ?m ?rest"
      "drop 4 (pending s @ b) = ?rest"
      using bytes(2) k by (simp_all add: split add.commute)
    from c head have fits: "?n + ?m \<le> length b"
      using k by (auto simp: frame_complete_def pend)
    let ?s1 = "s\<lparr>RemainderSizeBytes := enc_u32 0, RemainderFilled := 0, PartialData := NoPartialData\<rparr>"
    have "control_inv ?s1" "PartialData ?s1 = NoPartialData" using k by (simp_all add: control_inv_def)
    from scan_messages_parses [OF assms(1,2) this, of tot b "?n + ?m"] obtain fl s' where
      scan: "scan_messages h tot b (?n + ?m) ?s1 =
          (fl, s', map snd (fst (parse_frames 4 le_nat (drop (?n + ?m) b))))"
        "control_inv s'" "pending s' = snd (parse_frames 4 le_nat (drop (?n + ?m) b))" by blast
    have same: "drop ?m ?rest = drop (?n + ?m) b" by (simp add: add.commute)
    have "parse_frames 4 le_nat (pending s @ b) =
        apfst (Cons (?sz, take ?m ?rest)) (parse_frames 4 le_nat (drop (?n + ?m) b))"
      using sized.parse_complete [OF c] by (simp only: head same)
    with False k bytes fits scan short show ?thesis
      by (simp add: continue_size_def Let_def AddFileToList_def apfst_def map_prod_def
          case_prod_beta)
  qed
qed

lemma continue_message_parses:
  assumes "heap_ok h" and "never_fails h" and inv: "control_inv s"
    and mode: "PartialData s = PartialMessage" and short: "length b < 2 ^ 32"
  shows "\<exists>fl s'. continue_message h tot b s =
             Inr (fl, s', map snd (fst (parse_frames 4 le_nat (pending s @ b)))) \<and>
           control_inv s' \<and> pending s' = snd (parse_frames 4 le_nat (pending s @ b))"
proof -
  let ?k = "RemainderFilled s" and ?S = "RemainderSizeBytes s" and ?m = "RemainderSize s"
  from inv mode obtain blk where blk: "MessageBuffer s = Some blk" "length blk = ?m" "?k < ?m"
    "length ?S = 4" "SkipMessageBytes s = 0"
    by (auto simp: control_inv_def split: option.splits)
  have bound: "?m < 2 ^ 32" using RemainderSize_bound blk(4) .
  from mode blk have pend: "pending s = ?S @ take ?k blk" by (simp add: pending_def)
  have size: "le_nat (take 4 (pending s @ b)) = ?m" "le_nat ?S = ?m"
    by (simp_all add: pend blk RemainderSize_def)
  show ?thesis
  proof (cases "length b < ?m - ?k")
    case True
    then have "\<not> frame_complete 4 le_nat (pending s @ b)"
      using blk unfolding frame_complete_def size(1) by (simp add: pend)
    then show ?thesis using True blk bound mode
      by (simp add: continue_message_def Let_def control_inv_def pending_def
          sized.parse_incomplete RemainderSize_def)
  next
    case False
    let ?n = "?m - ?k"
    from False blk have c: "frame_complete 4 le_nat (pending s @ b)"
      unfolding frame_complete_def size(1) by (simp add: pend)
    have whole: "overwrite blk ?k (take ?n b) = take ?k blk @ take ?n b"
      "length (take ?k blk @ take ?n b) = ?m"
      using False blk by (simp_all add: overwrite_full)
    have head: "take 4 (pending s @ b) = ?S"
      "take ?m (drop 4 (pending s @ b)) = take ?k blk @ take ?n b"
      "drop (4 + ?m) (pending s @ b) = drop ?n b"
      using blk False by (simp_all add: pend)
    let ?s1 = "s\<lparr>MessageBuffer := None, RemainderSizeBytes := enc_u32 0, RemainderFilled := 0,
                 PartialData := NoPartialData\<rparr>"
    have "control_inv ?s1" "PartialData ?s1 = NoPartialData" using blk by (simp_all add: control_inv_def)
    from scan_messages_parses [OF assms(1,2) this, of tot b ?n] obtain fl s' where
      scan: "scan_messages h tot b ?n ?s1 =
          (fl, s', map snd (fst (parse_frames 4 le_nat (drop ?n b))))"
        "control_inv s'" "pending s' = snd (parse_frames 4 le_nat (drop ?n b))" by blast
    have "parse_frames 4 le_nat (pending s @ b) =
        apfst (Cons (?S, take ?k blk @ take ?n b)) (parse_frames 4 le_nat (drop ?n b))"
      using sized.parse_complete [OF c] by (simp only: size head)
    with False blk whole scan show ?thesis
      by (simp add: continue_message_def Let_def AddFileToList_def apfst_def map_prod_def
          case_prod_beta)
  qed
qed

lemma control_buffer_parses:
  assumes "heap_ok h" and "never_fails h" and inv: "control_inv s"
    and "size_with_message s b" and "length b < 2 ^ 32"
  shows "\<exists>fl s'. control_buffer h tot b s =
             Inr (fl, s', map snd (fst (parse_frames 4 le_nat (pending s @ b)))) \<and>
           control_inv s' \<and> pending s' = snd (parse_frames 4 le_nat (pending s @ b))"
proof -
  from inv have skip: "SkipMessageBytes s = 0" "s\<lparr>SkipMessageBytes := 0\<rparr> = s"
    by (cases s; simp add: control_inv_def)+
  show ?thesis
  proof (cases "PartialData s")
    case NoPartialData
    then have "pending s = []" by (simp add: pending_def)
    with scan_messages_parses [OF assms(1,2) inv NoPartialData, of tot b 0] show ?thesis
      unfolding control_buffer_def skip Let_def NoPartialData by simp
  next
    case PartialSize
    with continue_size_parses [OF assms(1,2) inv PartialSize assms(4,5), of tot] show ?thesis
      unfolding control_buffer_def skip Let_def PartialSize by simp
  next
    case PartialMessage
    with continue_message_parses [OF assms(1,2) inv PartialMessage assms(5), of tot] show ?thesis
      unfolding control_buffer_def skip Let_def PartialMessage by simp
  qed
qed

section \<open>Every event keeps the state well formed\<close>

text \<open>
  Without any assumption on the allocator: the fields stay consistent, whatever arrives. Only
  \<open>SkipMessageBytes\<close> may then be set.
\<close>

definition control_wf :: "control_state \<Rightarrow> bool" where
  "control_wf s \<longleftrightarrow> length (RemainderSizeBytes s) = 4 \<and> partial_ok (PartialData s) s"

lemma control_inv_iff: "control_inv s \<longleftrightarrow> control_wf s \<and> SkipMessageBytes s = 0"
  by (auto simp: control_inv_def control_wf_def)

lemma partial_ok_skip [simp]: "partial_ok p (s\<lparr>SkipMessageBytes := k\<rparr>) = partial_ok p s"
  by (cases p) (auto simp: RemainderSize_def split: option.splits)

lemma control_wf_skip [simp]: "control_wf (s\<lparr>SkipMessageBytes := k\<rparr>) = control_wf s"
  by (simp add: control_wf_def)

lemma pending_skip [simp]: "pending (s\<lparr>SkipMessageBytes := k\<rparr>) = pending s"
  by (cases "PartialData s") (auto simp: pending_def split: option.splits)

lemma scan_messages_wf:
  assumes "heap_ok h" and "control_wf s" and "PartialData s = NoPartialData"
    and "scan_messages h tot b i s = (fl, s', ms)"
  shows "control_wf s'"
  using assms
proof (induction h tot b i s arbitrary: fl s' ms rule: scan_messages.induct)
  case (1 h tot b i s)
  let ?m = "le_nat (take 4 (drop i b))"
  consider (finished) "\<not> i < length b"
    | (size) "i < length b" "length b - i < 4"
    | (part) "i < length b" "\<not> length b - i < 4" "length b - (i + 4) < ?m"
    | (whole) "i < length b" "\<not> length b - i < 4" "\<not> length b - (i + 4) < ?m"
    by linarith
  then show ?case
  proof cases
    case part
    then have "?m < 2 ^ 32" by (intro size32.fits_dec) simp
    with part "1.prems" show ?thesis
      by (auto simp: scan_messages.simps [of h tot b i s] Let_def control_wf_def heap_ok_def
          RemainderSize_def size32.dec_enc split: option.splits if_splits)
  next
    case whole
    with "1.prems"(4) obtain ms' where "scan_messages h tot b (i + 4 + ?m) s = (fl, s', ms')"
      by (auto simp: scan_messages.simps [of h tot b i s] Let_def split: prod.splits)
    with "1.IH" [OF whole(1,2) refl refl whole(3)] "1.prems"(1-3) show ?thesis by blast
  qed (use "1.prems" in \<open>auto simp: scan_messages.simps [of h tot b i s] Let_def control_wf_def\<close>)
qed

lemma continue_size_wf:
  assumes "heap_ok h" and "control_wf s" and "PartialData s = PartialSize"
    and "continue_size h tot b s = Inr (fl, s', ms)" and "length b < 2 ^ 32"
  shows "control_wf s'"
  using assms
  by (auto simp: continue_size_def Let_def control_wf_def memcpy_at_def
      split: if_splits sum.splits prod.splits dest!: scan_messages_wf [rotated -1])

lemma continue_message_wf:
  assumes "heap_ok h" and "control_wf s" and "PartialData s = PartialMessage"
    and "continue_message h tot b s = Inr (fl, s', ms)"
  shows "control_wf s'"
  using assms RemainderSize_bound [of s]
  by (auto simp: continue_message_def Let_def control_wf_def memcpy_at_def RemainderSize_def
      split: if_splits sum.splits prod.splits option.splits dest!: scan_messages_wf [rotated -1])

lemma control_buffer_wf:
  assumes "heap_ok h" and "control_wf s" and "control_buffer h tot b s = Inr (fl, s', ms)"
    and "length b < 2 ^ 32"
  shows "control_wf s'"
proof -
  let ?s0 = "s\<lparr>SkipMessageBytes := 0\<rparr>"
  from assms(2) have wf: "control_wf ?s0" by simp
  show ?thesis
  proof (cases "PartialData s")
    case NoPartialData
    with assms scan_messages_wf [OF assms(1) wf] show ?thesis by (simp add: control_buffer_def)
  next
    case PartialSize
    with assms continue_size_wf [OF assms(1) wf] show ?thesis by (simp add: control_buffer_def)
  next
    case PartialMessage
    with assms continue_message_wf [OF assms(1) wf] show ?thesis by (simp add: control_buffer_def)
  qed
qed

lemma control_buffers_wf:
  "heap_ok h \<Longrightarrow> control_wf s \<Longrightarrow> control_buffers h tot bufs s = Inr (s', ms) \<Longrightarrow>
   \<forall>b \<in> set bufs. length b < 2 ^ 32 \<Longrightarrow> control_wf s'"
proof (induction h tot bufs s arbitrary: s' ms rule: control_buffers.induct)
  case (1 h tot s)
  then show ?case by simp
next
  case (2 h tot b bs s)
  then obtain fl s1 ms1 where b: "control_buffer h tot b s = Inr (fl, s1, ms1)"
    by (auto split: sum.splits flow.splits)
  from control_buffer_wf [OF "2.prems"(1,2) b] "2.prems"(4) have s1: "control_wf s1" by simp
  show ?case
  proof (cases fl)
    case NextBuffer
    with b "2.prems"(3) obtain ms2 where "control_buffers h tot bs s1 = Inr (s', ms2)"
      by (auto split: sum.splits)
    with "2.IH" [OF b refl NextBuffer refl "2.prems"(1) s1] "2.prems"(4) show ?thesis by simp
  next
    case ReturnSuccess
    with b "2.prems"(3) s1 show ?thesis by simp
  qed
qed

section \<open>When the handler leaves a buffer early\<close>

text \<open>
  The loop returns from the callback, instead of going on to the next buffer, exactly when what it
  has left over is an unfinished size or message that the rest of the event, by its total length,
  cannot complete.
\<close>

definition rest_too_short :: "bytes \<Rightarrow> nat \<Rightarrow> bool" where
  "rest_too_short r k \<longleftrightarrow> r \<noteq> [] \<and>
     (if length r < 4 then length r + k < 4 else length r + k < 4 + le_nat (take 4 r))"

lemma scan_messages_flow:
  assumes "scan_messages h tot b i s = (fl, s', ms)" and "tot = length b + k"
  shows "fl = (if rest_too_short (snd (parse_frames 4 le_nat (drop i b))) k then ReturnSuccess
               else NextBuffer)"
  using assms
proof (induction h tot b i s arbitrary: fl s' ms rule: scan_messages.induct)
  case (1 h tot b i s)
  let ?m = "le_nat (take 4 (drop i b))"
  consider (finished) "\<not> i < length b"
    | (size) "i < length b" "length b - i < 4"
    | (part) "i < length b" "\<not> length b - i < 4" "length b - (i + 4) < ?m"
    | (whole) "i < length b" "\<not> length b - i < 4" "\<not> length b - (i + 4) < ?m"
    by linarith
  then show ?case
  proof cases
    case finished
    with "1.prems"(1) show ?thesis
      by (simp add: scan_messages.simps [of h tot b i s] rest_too_short_def)
  next
    case size
    then have "\<not> frame_complete 4 le_nat (drop i b)" by (simp add: frame_complete_def)
    moreover from size "1.prems"(1) have "fl = (if size_sub tot i < 4 then ReturnSuccess else NextBuffer)"
      by (simp add: scan_messages.simps [of h tot b i s])
    ultimately show ?thesis using size "1.prems"(2)
      by (auto simp: sized.parse_incomplete rest_too_short_def)
  next
    case part
    then have "\<not> frame_complete 4 le_nat (drop i b)" by (simp add: frame_complete_def)
    moreover from part "1.prems"(1) have
      "fl = (if size_sub tot (i + 4) < ?m then ReturnSuccess else NextBuffer)"
      by (auto simp: scan_messages.simps [of h tot b i s] Let_def split: option.splits)
    ultimately show ?thesis using part "1.prems"(2)
      by (auto simp: sized.parse_incomplete rest_too_short_def)
  next
    case whole
    then have c: "frame_complete 4 le_nat (drop i b)" by (simp add: frame_complete_def)
    from whole "1.prems"(1) obtain ms' where
      "scan_messages h tot b (i + 4 + ?m) s = (fl, s', ms')"
      by (auto simp: scan_messages.simps [of h tot b i s] Let_def split: prod.splits)
    with "1.IH" [OF whole(1,2) refl refl whole(3)] "1.prems"(2) sized.parse_complete [OF c]
    show ?thesis by (simp add: ac_simps)
  qed
qed

text \<open>The handler fails in one way only, and exactly when a size is completed without its message.\<close>

lemma continue_size_ub:
  assumes "control_wf s" and "PartialData s = PartialSize"
  shows "continue_size h tot b s = Inl e \<longleftrightarrow>
     e = OutOfBoundsRead \<and> 4 \<le> length (pending s @ b) \<and> \<not> frame_complete 4 le_nat (pending s @ b)"
proof -
  let ?k = "RemainderFilled s" and ?S = "RemainderSizeBytes s"
  from assms have k: "0 < ?k" "?k < 4" "length ?S = 4" by (auto simp: control_wf_def)
  with assms(2) have pend: "pending s = take ?k ?S" by (simp add: pending_def)
  show ?thesis
  proof (cases "length b < 4 - ?k")
    case True
    with k show ?thesis by (auto simp: continue_size_def Let_def pend)
  next
    case False
    with k have "overwrite ?S ?k (take (4 - ?k) b) = take ?k ?S @ take (4 - ?k) b"
      by (simp add: overwrite_full)
    with k False show ?thesis
      by (auto simp: continue_size_def Let_def pend frame_complete_def AddFileToList_def
          read_range_def split: prod.splits)
  qed
qed

lemma continue_message_no_ub:
  assumes "control_wf s" and "PartialData s = PartialMessage"
  shows "continue_message h tot b s \<noteq> Inl e"
proof -
  from assms obtain blk where "MessageBuffer s = Some blk" "length blk = RemainderSize s"
    "RemainderFilled s < length blk" by (auto simp: control_wf_def split: option.splits)
  then show ?thesis
    by (auto simp: continue_message_def Let_def AddFileToList_def split: prod.splits)
qed

lemma control_buffer_ub:
  assumes "control_wf s"
  shows "control_buffer h tot b s = Inl e \<longleftrightarrow>
     e = OutOfBoundsRead \<and> PartialData s = PartialSize \<and> 4 \<le> length (pending s @ b) \<and>
     \<not> frame_complete 4 le_nat (pending s @ b)"
proof -
  let ?s0 = "s\<lparr>SkipMessageBytes := 0\<rparr>"
  from assms have "control_wf ?s0" by simp
  then show ?thesis
    using continue_size_ub [of ?s0 h tot b e] continue_message_no_ub [of ?s0 h tot b e]
    by (cases "PartialData s") (simp_all add: control_buffer_def)
qed

section \<open>Events with two buffers\<close>

text \<open>
  MsQuic hands over at most two buffers per event when its receive buffer wraps around. The callback
  on such an event, from a message boundary.
\<close>

lemma two_buffers_step:
  assumes "heap_ok h" and "never_fails h" and "control_inv s" and "PartialData s = NoPartialData"
  shows "\<exists>s1. control_inv s1 \<and> pending s1 = snd (parse_frames 4 le_nat b0) \<and>
     control_buffer h (length b0 + k) b0 s =
       Inr (if rest_too_short (snd (parse_frames 4 le_nat b0)) k then ReturnSuccess else NextBuffer,
            s1, map snd (fst (parse_frames 4 le_nat b0)))"
proof -
  from assms have skip: "SkipMessageBytes s = 0" "s\<lparr>SkipMessageBytes := 0\<rparr> = s"
    by (cases s; simp add: control_inv_def)+
  have eq: "control_buffer h (length b0 + k) b0 s = Inr (scan_messages h (length b0 + k) b0 0 s)"
    unfolding control_buffer_def skip Let_def assms(4) by simp
  from scan_messages_parses [OF assms, of "length b0 + k" b0 0] obtain fl s1 where
    scan: "scan_messages h (length b0 + k) b0 0 s =
        (fl, s1, map snd (fst (parse_frames 4 le_nat b0)))"
      "control_inv s1" "pending s1 = snd (parse_frames 4 le_nat b0)" by auto
  show ?thesis unfolding eq using scan scan_messages_flow [OF scan(1) refl] by auto
qed

lemma pending_partial_size:
  "control_inv s \<Longrightarrow> PartialData s = PartialSize \<Longrightarrow> pending s \<noteq> []"
  by (auto simp: control_inv_def pending_def)

lemma complete_not_short:
  "r = [] \<or> frame_complete 4 le_nat (r @ b) \<Longrightarrow> \<not> rest_too_short r (length b)"
  by (auto simp: rest_too_short_def frame_complete_def)

section \<open>The handler as a reader of the stream\<close>

text \<open>
  A receive event with a single buffer, and the instance of the reader contract. The blocks of a
  heap that never fails are given by their contents, so the instance covers every such heap.
\<close>

definition receive_one :: "heap \<Rightarrow> control_state \<Rightarrow> bytes \<Rightarrow> (control_state \<times> bytes list) option"
where
  "receive_one h s b =
     (case QSyncServerControlStreamCallback h s (receive_event [b]) of
        Inl _ \<Rightarrow> None
      | Inr r \<Rightarrow> Some r)"

definition receive_ok :: "control_state \<Rightarrow> bytes \<Rightarrow> bool" where
  "receive_ok s b \<longleftrightarrow> size_with_message s b \<and> length b < 2 ^ 32"

definition filled_heap :: "(nat \<Rightarrow> bytes) \<Rightarrow> heap" where
  "filled_heap f n = Some (take n (f n @ replicate n 0))"

lemma filled_heap_ok [simp]: "heap_ok (filled_heap f)" "never_fails (filled_heap f)"
  by (auto simp: heap_ok_def never_fails_def filled_heap_def min_def)

lemma filled_heap_surj:
  assumes "heap_ok h" and "never_fails h" shows "filled_heap (\<lambda>n. the (h n)) = h"
proof
  fix n
  from assms obtain blk where "h n = Some blk" "length blk = n"
    unfolding heap_ok_def never_fails_def by (metis not_None_eq)
  then show "filled_heap (\<lambda>n. the (h n)) n = h n" by (simp add: filled_heap_def)
qed

lemma receive_one_eq:
  assumes "control_buffer h (length b) b s = Inr (fl, s', ms)"
  shows "receive_one h s b = Some (s', ms)"
  using assms by (cases fl) (simp_all add: receive_one_def receive_event_def)

interpretation control: stream_reader 4 le_nat "receive_one (filled_heap f)" pending control_inv
  receive_ok snd
  for f
proof
  show "\<not> frame_complete 4 le_nat (pending s)" if "control_inv s" for s
    using that by (rule pending_incomplete)
  show "\<exists>s'. receive_one (filled_heap f) s b =
            Some (s', map snd (fst (parse_frames 4 le_nat (pending s @ b)))) \<and>
          control_inv s' \<and> pending s' = snd (parse_frames 4 le_nat (pending s @ b))"
    if "control_inv s" "receive_ok s b" for s b
    using control_buffer_parses [of "filled_heap f" s b "length b"] that
    by (auto simp: receive_ok_def intro: receive_one_eq)
qed

section \<open>Properties\<close>

lemma frames_delivered:
  assumes "heap_ok h" and "never_fails h"
    and "\<forall>m \<in> set ms. length m < 2 ^ 32"
    and "concat bs = frames_bytes (map message_frame ms)"
    and "run_ok (receive_one h) receive_ok init_control bs"
  shows "\<exists>s. run_reader (receive_one h) init_control bs = Some (s, ms) \<and> pending s = []"
proof -
  have "map snd (map message_frame ms) = ms" by (simp add: message_frame_def comp_def)
  with control.run_frames [of init_control "\<lambda>n. the (h n)" bs "map message_frame ms"] assms
  show ?thesis by (auto simp: filled_heap_surj wf_message_frames)
qed

text \<open>
  C12. However the client's stream of messages is cut into receives, the server hands exactly these
  messages, in order, to the worker pool and ends at a message boundary; provided that no receive
  starts inside a size whose message it does not contain in full.
\<close>

theorem control_stream_delivers_messages:
  assumes "heap_ok h" and "never_fails h"
    and "\<forall>m \<in> set ms. length m < 2 ^ 32"
    and "concat bs = frames_bytes (map message_frame ms)"
    and "run_ok (receive_one h) receive_ok init_control bs"
  shows "\<exists>s. run_reader (receive_one h) init_control bs = Some (s, ms) \<and> pending s = []"
  using assms by (rule frames_delivered)

lemmas control_eval = receive_event_def receive_one_def control_buffer_def scan_messages.simps
  continue_size_def continue_message_def AddFileToList_def RemainderSize_def filled_heap_def
  init_control_def receive_ok_def size_with_message_def pending_def frame_complete_def
  enc_u32_def overwrite_def memcpy_at_def read_range_def frames_bytes_def frame_bytes_def
  message_frame_def nat_le_numeral size_sub_def u32_sub_def u32_add_def

text \<open>
  Three receives: the first ends inside the message \<open>[7, 8]\<close>, the second inside the size of
  the message \<open>[9]\<close>.
\<close>

theorem control_stream_delivers_messages_witness:
  "\<exists>s. run_reader (receive_one (filled_heap (\<lambda>_. []))) init_control
       [[2, 0, 0, 0, 7], [8, 1, 0], [0, 0, 9]] = Some (s, [[7, 8], [9]]) \<and> pending s = []"
  by (rule control_stream_delivers_messages)
    (simp_all add: control_eval)

text \<open>
  An event with two buffers, from a message boundary: when the second buffer completes the
  message the first one cut (or nothing was cut), the server hands on the messages of both
  buffers and keeps the rest.
\<close>

theorem two_buffers_delivered:
  assumes heap: "heap_ok h" "never_fails h" and s: "control_inv s" "PartialData s = NoPartialData"
    and short: "length b1 < 2 ^ 32"
    and fits: "snd (parse_frames 4 le_nat b0) = [] \<or>
      frame_complete 4 le_nat (snd (parse_frames 4 le_nat b0) @ b1)"
  shows "\<exists>s'. QSyncServerControlStreamCallback h s (receive_event [b0, b1]) =
       Inr (s', map snd (fst (parse_frames 4 le_nat (b0 @ b1)))) \<and>
     pending s' = snd (parse_frames 4 le_nat (b0 @ b1))"
proof -
  let ?r = "snd (parse_frames 4 le_nat b0)"
  from two_buffers_step [OF heap s, of b0 "length b1"] complete_not_short [OF fits] obtain s1 where
    s1: "control_inv s1" "pending s1 = ?r"
      "control_buffer h (length b0 + length b1) b0 s =
        Inr (NextBuffer, s1, map snd (fst (parse_frames 4 le_nat b0)))" by auto
  have "size_with_message s1 b1"
    using fits s1(2) pending_partial_size [OF s1(1)] by (auto simp: size_with_message_def)
  from control_buffer_parses [OF heap s1(1) this short, of "length b0 + length b1"] obtain fl s2 where
    "control_buffer h (length b0 + length b1) b1 s1 =
        Inr (fl, s2, map snd (fst (parse_frames 4 le_nat (?r @ b1))))"
    "pending s2 = snd (parse_frames 4 le_nat (?r @ b1))" by (auto simp: s1(2))
  with s1(3) show ?thesis
    by (cases fl) (simp_all add: receive_event_def sized.parse_append [of b0 b1])
qed

theorem two_buffers_delivered_witness:
  "\<exists>s'. QSyncServerControlStreamCallback (filled_heap (\<lambda>_. [])) init_control
       (receive_event [[2, 0, 0, 0, 7], [8, 1, 0]]) = Inr (s', [[7, 8]]) \<and> pending s' = [1, 0]"
  using two_buffers_delivered [of "filled_heap (\<lambda>_. [])" init_control "[8, 1, 0]" "[2, 0, 0, 0, 7]"]
  by (simp add: control_eval parse_frames.simps control_inv_def)

text \<open>
  The other events with two buffers lose data: when the first buffer ends inside a message
  (or inside its size) that the second does not complete either, the callback returns after the
  first buffer, and nothing of the second buffer is kept.
\<close>

theorem two_buffers_second_lost:
  assumes "heap_ok h" and "never_fails h" and "control_inv s" and "PartialData s = NoPartialData"
    and "rest_too_short (snd (parse_frames 4 le_nat b0)) (length b1)"
  shows "\<exists>s'. QSyncServerControlStreamCallback h s (receive_event [b0, b1]) =
       Inr (s', map snd (fst (parse_frames 4 le_nat b0))) \<and>
     pending s' = snd (parse_frames 4 le_nat b0)"
  using two_buffers_step [OF assms(1-4), of b0 "length b1"] assms(5)
  by (auto simp: receive_event_def)

theorem two_buffers_second_lost_witness:
  "\<exists>s'. QSyncServerControlStreamCallback (filled_heap (\<lambda>_. [])) init_control
       (receive_event [[5, 0, 0, 0, 1], [2, 3]]) = Inr (s', []) \<and> pending s' = [5, 0, 0, 0, 1]"
  using two_buffers_second_lost [of "filled_heap (\<lambda>_. [])" init_control "[5, 0, 0, 0, 1]" "[2, 3]"]
  by (simp add: control_eval parse_frames.simps control_inv_def rest_too_short_def)

text \<open>
  C27. The callback reads past the end of a buffer exactly when the buffer completes a size whose
  message it does not hold in full; no other receive of one buffer is undefined, whatever the
  allocator does.
\<close>

theorem receive_undefined_iff:
  assumes "control_wf s"
  shows "QSyncServerControlStreamCallback h s (receive_event [b]) = Inl e \<longleftrightarrow>
     e = OutOfBoundsRead \<and> PartialData s = PartialSize \<and> 4 \<le> length (pending s @ b) \<and>
     \<not> frame_complete 4 le_nat (pending s @ b)"
  using control_buffer_ub [OF assms, of h "length b" b e]
  by (auto simp: receive_event_def split: sum.splits flow.splits)

text \<open>The size of a three-byte message is cut after two bytes; the next receive ends in the message.\<close>

theorem receive_undefined_iff_witness:
  "QSyncServerControlStreamCallback (\<lambda>_. None)
     (init_control\<lparr>RemainderSizeBytes := [3, 0, 0, 0], RemainderFilled := 2,
                   PartialData := PartialSize\<rparr>)
     (receive_event [[0, 0, 7]]) = Inl OutOfBoundsRead"
  by (subst receive_undefined_iff) (simp_all add: control_eval control_wf_def)

text \<open>
  C26. Every event keeps the fields consistent, with any allocator: an unfinished size has one to
  three bytes, an unfinished message owns a block of the announced length with room left.
\<close>

theorem control_callback_wf:
  assumes "heap_ok h" and "control_wf s"
    and "QSyncServerControlStreamCallback h s (receive_event bufs) = Inr (s', ms)"
    and "\<forall>b \<in> set bufs. length b < 2 ^ 32"
  shows "control_wf s'"
  using assms by (auto simp: receive_event_def intro: control_buffers_wf)

theorem control_callback_wf_witness:
  "\<exists>s'. QSyncServerControlStreamCallback (\<lambda>_. None) init_control
       (receive_event [[5, 0, 0, 0, 1], [0, 2, 3]]) = Inr (s', []) \<and> control_wf s' \<and>
     SkipMessageBytes s' = 4"
proof -
  have run: "QSyncServerControlStreamCallback (\<lambda>_. None) init_control
      (receive_event [[5, 0, 0, 0, 1], [0, 2, 3]]) =
      Inr (init_control\<lparr>SkipMessageBytes := 4\<rparr>, [])"
    by (simp add: control_eval)
  have "control_wf (init_control\<lparr>SkipMessageBytes := 4\<rparr>)"
    by (rule control_callback_wf [OF _ _ run])
      (simp_all add: heap_ok_def control_wf_def init_control_def)
  with run show ?thesis by simp
qed

text \<open>
  After a message whose block could not be allocated, the next receive resumes behind the
  \<open>SkipMessageBytes\<close> bytes still to come, and the count is cleared: a receive with fewer bytes
  ends the skipping, and what is left of the message is then read as a size.
\<close>

theorem skipped_message_resumes:
  assumes "heap_ok h" and "never_fails h" and "control_wf s" and "PartialData s = NoPartialData"
  shows "\<exists>s'. QSyncServerControlStreamCallback h s (receive_event [b]) =
       Inr (s', map snd (fst (parse_frames 4 le_nat (drop (SkipMessageBytes s) b)))) \<and>
     control_inv s' \<and> pending s' = snd (parse_frames 4 le_nat (drop (SkipMessageBytes s) b))"
proof -
  let ?s0 = "s\<lparr>SkipMessageBytes := 0\<rparr>"
  from assms have s0: "control_inv ?s0" "PartialData ?s0 = NoPartialData"
    by (simp_all add: control_inv_iff)
  from scan_messages_parses [OF assms(1,2) s0, of "length b" b "SkipMessageBytes s"] obtain fl s' where
    "scan_messages h (length b) b (SkipMessageBytes s) ?s0 =
        (fl, s', map snd (fst (parse_frames 4 le_nat (drop (SkipMessageBytes s) b))))"
    "control_inv s'" "pending s' = snd (parse_frames 4 le_nat (drop (SkipMessageBytes s) b))"
    by blast
  with assms(4) show ?thesis
    by (cases fl) (simp_all add: receive_event_def control_buffer_def)
qed

theorem skipped_message_resumes_witness:
  "\<exists>s'. QSyncServerControlStreamCallback (filled_heap (\<lambda>_. []))
       (init_control\<lparr>SkipMessageBytes := 4\<rparr>)
       (receive_event [[2, 3, 4, 5, 1, 0, 0, 0, 9]]) = Inr (s', [[9]]) \<and>
     control_inv s' \<and> pending s' = []"
  using skipped_message_resumes [of "filled_heap (\<lambda>_. [])" "init_control\<lparr>SkipMessageBytes := 4\<rparr>"
    "[2, 3, 4, 5, 1, 0, 0, 0, 9]"]
  by (simp add: parse_frames.simps control_wf_def init_control_def frame_complete_def)

end
