(* ===== verification/Threadpool.thy ===== *)
theory Threadpool
  imports Prelude
begin

text \<open>
  \<open>threadpool.h\<close>: a queue of work items, a number of worker threads and a flag that ends them.
  A worker is in one of four places of \<open>ThreadpoolWorker\<close>; every step of the system is one
  thread moving, so the interleavings are the sequences of events. The critical sections are
  atomic, because the code holds \<open>Mutex\<close> in them: testing the wait condition and taking an item
  is one step, adding an item is one step, clearing the flag is one step. A worker that waits can
  move whenever its condition holds, which is what the notifications and the re-check of
  \<open>Cv.wait\<close> guarantee.
\<close>

section \<open>State\<close>

datatype 'w worker =
    Polling          \<comment> \<open>about to test \<open>while (WorkerContinue)\<close>\<close>
  | Waiting          \<comment> \<open>in \<open>Cv.wait\<close>\<close>
  | Running 'w       \<comment> \<open>executing \<open>Workitem ()\<close>\<close>
  | Exited

record 'w pool =
  Workitems :: "'w list"
  Threads :: "'w worker list"
  WorkerContinue :: bool

definition new_pool :: "nat \<Rightarrow> 'w pool" where
  "new_pool ThreadCount =
     \<lparr>Workitems = [], Threads = replicate ThreadCount Polling, WorkerContinue = True\<rparr>"

section \<open>Operations\<close>

definition Enqueue :: "'w \<Rightarrow> 'w pool \<Rightarrow> 'w pool" where
  "Enqueue w p = p\<lparr>Workitems := Workitems p @ [w]\<rparr>"

text \<open>The first half of the destructor; the second joins the threads.\<close>

definition stop_pool :: "'w pool \<Rightarrow> 'w pool" where
  "stop_pool p = p\<lparr>WorkerContinue := False\<rparr>"

definition joined :: "'w pool \<Rightarrow> bool" where
  "joined p \<longleftrightarrow> (\<forall>t \<in> set (Threads p). t = Exited)"

text \<open>The test of the loop condition, outside the lock.\<close>

definition poll :: "nat \<Rightarrow> 'w pool \<Rightarrow> 'w pool option" where
  "poll i p =
     (if i < length (Threads p) \<and> Threads p ! i = Polling
      then Some (p\<lparr>Threads := (Threads p)[i := if WorkerContinue p then Waiting else Exited]\<rparr>)
      else None)"

text \<open>
  Leaving \<open>Cv.wait\<close>: only when there is an item or the flag is cleared. A cleared flag wins
  over waiting items.
\<close>

definition wake :: "nat \<Rightarrow> 'w pool \<Rightarrow> ('w option \<times> 'w pool) option" where
  "wake i p =
     (if i < length (Threads p) \<and> Threads p ! i = Waiting then
        (if \<not> WorkerContinue p then Some (None, p\<lparr>Threads := (Threads p)[i := Exited]\<rparr>)
         else case Workitems p of
                [] \<Rightarrow> None
              | w # ws \<Rightarrow>
                  Some (Some w, p\<lparr>Workitems := ws, Threads := (Threads p)[i := Running w]\<rparr>))
      else None)"

definition finish :: "nat \<Rightarrow> 'w pool \<Rightarrow> ('w \<times> 'w pool) option" where
  "finish i p =
     (if i < length (Threads p) then
        (case Threads p ! i of
           Running w \<Rightarrow> Some (w, p\<lparr>Threads := (Threads p)[i := Polling]\<rparr>)
         | _ \<Rightarrow> None)
      else None)"

section \<open>Interleavings\<close>

datatype 'w pool_event = EvEnqueue 'w | EvPoll nat | EvWake nat | EvFinish nat | EvStop

text \<open>One event; it gives the items it starts and the items it ends.\<close>

fun pool_step :: "'w pool \<Rightarrow> 'w pool_event \<Rightarrow> ('w pool \<times> 'w list \<times> 'w list) option" where
  "pool_step p (EvEnqueue w) = Some (Enqueue w p, [], [])"
| "pool_step p (EvPoll i) = map_option (\<lambda>q. (q, [], [])) (poll i p)"
| "pool_step p (EvWake i) =
     map_option (\<lambda>(started, q). (q, case started of None \<Rightarrow> [] | Some w \<Rightarrow> [w], [])) (wake i p)"
| "pool_step p (EvFinish i) = map_option (\<lambda>(w, q). (q, [], [w])) (finish i p)"
| "pool_step p EvStop = Some (stop_pool p, [], [])"

fun pool_run :: "'w pool \<Rightarrow> 'w pool_event list \<Rightarrow> ('w pool \<times> 'w list \<times> 'w list) option" where
  "pool_run p [] = Some (p, [], [])"
| "pool_run p (e # es) =
     (case pool_step p e of
        None \<Rightarrow> None
      | Some (q, ss, fs) \<Rightarrow>
          (case pool_run q es of
             None \<Rightarrow> None
           | Some (r, ss', fs') \<Rightarrow> Some (r, ss @ ss', fs @ fs')))"

fun enqueued :: "'w pool_event list \<Rightarrow> 'w list" where
  "enqueued [] = []"
| "enqueued (EvEnqueue w # es) = w # enqueued es"
| "enqueued (_ # es) = enqueued es"

section \<open>The queue contract\<close>

text \<open>
  What the users of a pool rely on: an item goes to the end of the queue, and what a worker takes
  is its front. Any interleaving of the two is then first in, first out.
\<close>

datatype 'w queue_op = Put 'w | Take nat

locale fifo_queue =
  fixes items :: "'q \<Rightarrow> 'w list"
    and put :: "'w \<Rightarrow> 'q \<Rightarrow> 'q"
    and get :: "nat \<Rightarrow> 'q \<Rightarrow> ('w option \<times> 'q) option"
  assumes items_put: "items (put w q) = items q @ [w]"
    and items_get: "get i q = Some (Some w, q') \<Longrightarrow> items q = w # items q'"
    and items_get_none: "get i q = Some (None, q') \<Longrightarrow> items q' = items q"
begin

lemma get_front: "get i q = Some (Some w, q') \<Longrightarrow> w = hd (items q) \<and> items q' = tl (items q)"
  using items_get by fastforce

lemma put_keeps_front: "items q \<noteq> [] \<Longrightarrow> hd (items (put w q)) = hd (items q)"
  by (simp add: items_put)

lemma get_balance:
  "get i q = Some (started, q') \<Longrightarrow>
   items q = (case started of None \<Rightarrow> [] | Some w \<Rightarrow> [w]) @ items q'"
  by (cases started) (auto dest: items_get items_get_none)

end

interpretation pool_queue: fifo_queue Workitems Enqueue wake
  by unfold_locales (auto simp: Enqueue_def wake_def split: if_splits list.splits)

section \<open>Facts about single steps\<close>

lemma finish_Workitems: "finish i p = Some (w, q) \<Longrightarrow> Workitems q = Workitems p"
  by (auto simp: finish_def split: if_splits worker.splits)

lemma poll_Workitems: "poll i p = Some q \<Longrightarrow> Workitems q = Workitems p"
  by (auto simp: poll_def split: if_splits)

text \<open>Every step balances the queue: what was there and comes in is what starts and stays.\<close>

lemma pool_step_balance:
  "pool_step p e = Some (q, ss, fs) \<Longrightarrow> Workitems p @ enqueued [e] = ss @ Workitems q"
  by (cases e)
    (auto simp: pool_queue.items_put stop_pool_def
      dest: poll_Workitems finish_Workitems pool_queue.get_balance)

lemma enqueued_Cons: "enqueued (e # es) = enqueued [e] @ enqueued es"
  by (cases e) simp_all

lemma pool_step_continue:
  "pool_step p e = Some (q, ss, fs) \<Longrightarrow> WorkerContinue q \<Longrightarrow> WorkerContinue p"
  by (cases e)
    (auto simp: Enqueue_def stop_pool_def poll_def wake_def finish_def
      split: if_splits list.splits worker.splits)

lemma pool_step_stopped:
  "pool_step p e = Some (q, ss, fs) \<Longrightarrow> \<not> WorkerContinue p \<Longrightarrow> ss = [] \<and> \<not> WorkerContinue q"
  by (cases e)
    (auto simp: Enqueue_def stop_pool_def poll_def wake_def finish_def
      split: if_splits list.splits worker.splits)

text \<open>The items in the hands of the workers.\<close>

definition running :: "'w pool \<Rightarrow> 'w list" where
  "running p = concat (map (\<lambda>t. case t of Running w \<Rightarrow> [w] | _ \<Rightarrow> []) (Threads p))"

lemma pool_step_single:
  assumes "pool_step p e = Some (q, ss, fs)" and "length (Threads p) = 1"
  shows "running p @ ss = fs @ running q \<and> length (Threads q) = 1"
proof -
  from assms(2) obtain t where "Threads p = [t]" by (auto simp: length_Suc_conv)
  with assms(1) show ?thesis
    by (cases e)
      (auto simp: running_def Enqueue_def stop_pool_def poll_def wake_def finish_def
        split: if_splits list.splits worker.splits)
qed

section \<open>Shutdown\<close>

text \<open>
  How many steps a worker still has to take once the flag is cleared, and the events in which a
  worker moves.
\<close>

fun steps_left :: "'w worker \<Rightarrow> nat" where
  "steps_left Polling = 1"
| "steps_left Waiting = 1"
| "steps_left (Running w) = 2"
| "steps_left Exited = 0"

definition pool_steps_left :: "'w pool \<Rightarrow> nat" where
  "pool_steps_left p = sum_list (map steps_left (Threads p))"

fun worker_event :: "'w pool_event \<Rightarrow> bool" where
  "worker_event (EvEnqueue w) = False"
| "worker_event EvStop = False"
| "worker_event _ = True"

lemma sum_list_update_less:
  "i < length xs \<Longrightarrow> f y < f (xs ! i) \<Longrightarrow>
   sum_list (map f (xs[i := y])) < (sum_list (map f xs) :: nat)"
proof (induction xs arbitrary: i)
  case Nil
  then show ?case by simp
next
  case (Cons x xs)
  then show ?case by (cases i) simp_all
qed

lemma stopped_step_decreases:
  assumes "pool_step p e = Some (q, ss, fs)" and "\<not> WorkerContinue p" and "worker_event e"
  shows "pool_steps_left q < pool_steps_left p"
  using assms
  by (cases e)
    (auto simp: pool_steps_left_def poll_def wake_def finish_def sum_list_update_less
      split: if_splits list.splits worker.splits)

lemma stopped_progress:
  assumes "\<not> WorkerContinue p" and "\<not> joined p"
  shows "\<exists>e. worker_event e \<and> pool_step p e \<noteq> None"
proof -
  from assms(2) obtain i where i: "i < length (Threads p)" "Threads p ! i \<noteq> Exited"
    by (auto simp: joined_def in_set_conv_nth)
  show ?thesis
  proof (cases "Threads p ! i")
    case Polling
    with i show ?thesis by (intro exI [of _ "EvPoll i"]) (simp add: poll_def)
  next
    case Waiting
    with i assms(1) show ?thesis by (intro exI [of _ "EvWake i"]) (simp add: wake_def)
  next
    case (Running w)
    with i show ?thesis by (intro exI [of _ "EvFinish i"]) (simp add: finish_def)
  qed (use i in simp)
qed

lemma pool_run_append:
  "pool_run p (es @ es') =
     (case pool_run p es of
        None \<Rightarrow> None
      | Some (q, ss, fs) \<Rightarrow>
          (case pool_run q es' of
             None \<Rightarrow> None
           | Some (r, ss', fs') \<Rightarrow> Some (r, ss @ ss', fs @ fs')))"
  by (induction es arbitrary: p) (auto split: option.splits)

lemma pool_run_balance:
  "pool_run p es = Some (q, ss, fs) \<Longrightarrow> Workitems p @ enqueued es = ss @ Workitems q"
proof (induction es arbitrary: p ss fs)
  case Nil
  then show ?case by simp
next
  case (Cons e es)
  then obtain p1 s1 f1 s2 f2 where
    "pool_step p e = Some (p1, s1, f1)" "pool_run p1 es = Some (q, s2, f2)" "ss = s1 @ s2"
    by (auto split: option.splits)
  with Cons.IH pool_step_balance show ?case
    by (metis append_assoc enqueued_Cons)
qed

lemma pool_run_single:
  "pool_run p es = Some (q, ss, fs) \<Longrightarrow> length (Threads p) = 1 \<Longrightarrow>
   running p @ ss = fs @ running q \<and> length (Threads q) = 1"
proof (induction es arbitrary: p ss fs)
  case Nil
  then show ?case by simp
next
  case (Cons e es)
  then obtain p1 s1 f1 s2 f2 where step: "pool_step p e = Some (p1, s1, f1)"
    and run: "pool_run p1 es = Some (q, s2, f2)" and "ss = s1 @ s2" "fs = f1 @ f2"
    by (auto split: option.splits)
  with pool_step_single [OF step Cons.prems(2)] Cons.IH [OF run] show ?case
    by (metis append_assoc)
qed

lemma pool_run_stopped:
  "pool_run p es = Some (q, ss, fs) \<Longrightarrow> \<not> WorkerContinue p \<Longrightarrow> ss = [] \<and> \<not> WorkerContinue q"
proof (induction es arbitrary: p ss fs)
  case Nil
  then show ?case by simp
next
  case (Cons e es)
  then show ?case by (fastforce split: option.splits dest: pool_step_stopped)
qed

lemma stopped_run_bound:
  "pool_run p es = Some (q, ss, fs) \<Longrightarrow> \<not> WorkerContinue p \<Longrightarrow> list_all worker_event es \<Longrightarrow>
   length es + pool_steps_left q \<le> pool_steps_left p"
proof (induction es arbitrary: p ss fs)
  case Nil
  then show ?case by simp
next
  case (Cons e es)
  then obtain p1 s1 f1 s2 f2 where step: "pool_step p e = Some (p1, s1, f1)"
    and run: "pool_run p1 es = Some (q, s2, f2)"
    by (auto split: option.splits)
  from stopped_step_decreases [OF step Cons.prems(2)] Cons.prems(3)
  have "pool_steps_left p1 < pool_steps_left p" by simp
  moreover from Cons.IH [OF run] pool_step_stopped [OF step Cons.prems(2)] Cons.prems(3)
  have "length es + pool_steps_left q \<le> pool_steps_left p1" by simp
  ultimately show ?case by simp
qed

section \<open>Properties\<close>

text \<open>
  C28. First in, first out, in every interleaving and for any number of threads: the items the
  workers start, followed by the items still queued, are the items that were enqueued, each once
  and in order.
\<close>

theorem pool_starts_in_order:
  assumes "pool_run (new_pool n) es = Some (q, started, finished)"
  shows "enqueued es = started @ Workitems q"
  using pool_run_balance [OF assms] by (simp add: new_pool_def)

theorem pool_starts_in_order_witness:
  "enqueued [EvEnqueue 5, EvPoll 0, EvEnqueue 6, EvPoll 1, EvWake 1, EvWake 0, EvEnqueue (7::nat),
     EvFinish 0] = [5, 6] @ [7]"
  using pool_starts_in_order [of 2 "[EvEnqueue 5, EvPoll 0, EvEnqueue 6, EvPoll 1, EvWake 1,
      EvWake 0, EvEnqueue (7::nat), EvFinish 0]"]
  by (simp add: new_pool_def numeral_2_eq_2 poll_def wake_def finish_def Enqueue_def)

text \<open>
  C29. A pool with one thread, as the client uses for its file reads and the server for its
  messages, runs one item at a time: the finished items, the one being run and the queued ones are
  the enqueued ones in order.
\<close>

theorem single_thread_sequential:
  fixes es :: "'w pool_event list"
  assumes "pool_run (new_pool 1) es = Some (q, started, finished)"
  shows "enqueued es = finished @ running q @ Workitems q \<and> length (running q) \<le> 1"
proof -
  have start: "running (new_pool 1 :: 'w pool) = []" "length (Threads (new_pool 1 :: 'w pool)) = 1"
    by (simp_all add: running_def new_pool_def)
  from pool_run_single [OF assms start(2)] start(1) have
    run: "started = finished @ running q" "length (Threads q) = 1" by simp_all
  from run(2) obtain t where "Threads q = [t]" by (auto simp: length_Suc_conv)
  then have "length (running q) \<le> 1" by (auto simp: running_def split: worker.splits)
  with run pool_run_balance [OF assms] show ?thesis by (simp add: new_pool_def)
qed

theorem single_thread_sequential_witness:
  "enqueued [EvEnqueue 5, EvPoll 0, EvWake 0, EvEnqueue 6, EvFinish 0, EvPoll 0, EvWake 0,
     EvEnqueue (7::nat)] = [5] @ [6] @ [7]"
  using single_thread_sequential [of "[EvEnqueue 5, EvPoll 0, EvWake 0, EvEnqueue 6, EvFinish 0,
      EvPoll 0, EvWake 0, EvEnqueue (7::nat)]"]
  by (simp add: new_pool_def poll_def wake_def finish_def Enqueue_def running_def)

text \<open>
  Once the destructor has cleared the flag no item is started any more, whatever is still
  queued or added: the items started in a run are those started before the stop.
\<close>

theorem no_start_after_stop:
  assumes "pool_run p (es @ EvStop # es') = Some (q, started, finished)"
  shows "\<exists>r finished'. pool_run p es = Some (r, started, finished')"
proof -
  from assms obtain r s1 f1 s2 f2 where run: "pool_run p es = Some (r, s1, f1)"
    "pool_run (stop_pool r) es' = Some (q, s2, f2)" "started = s1 @ s2"
    by (auto simp: pool_run_append split: option.splits)
  have "\<not> WorkerContinue (stop_pool r)" by (simp add: stop_pool_def)
  with pool_run_stopped [OF run(2)] have "s2 = []" by simp
  with run show ?thesis by simp
qed

theorem no_start_after_stop_witness:
  "\<exists>r finished'. pool_run (new_pool 1) [EvEnqueue (5::nat), EvPoll 0] = Some (r, [], finished')"
  by (rule no_start_after_stop [where es' = "[EvWake 0]"])
    (simp add: new_pool_def poll_def wake_def Enqueue_def stop_pool_def)



end
