(* ===== verification/IdReader.thy ===== *)
theory IdReader
  imports Framing
begin

text \<open>
  The reassembly of file ids on the client's side of both kinds of streams: the loops of
  \<open>QSyncClientDataStreamCallback\<close> and \<open>QSyncClientControlStreamCallback\<close>
  (\<open>client.cpp\<close>) cut a received buffer into eight-byte ids, keep an unfinished id in
  \<open>PartialFileIdBytes\<close> and count its bytes in \<open>FileIdBytes\<close>. The two loops differ only
  in what they do with an id, which is a parameter here.
\<close>

section \<open>State\<close>

text \<open>
  \<open>PartialFileIdBytes\<close> is the union with the integer id, so an id is read from its eight bytes.
\<close>

record id_reader =
  PartialFileIdBytes :: bytes
  FileIdBytes :: nat

definition init_reader :: id_reader where
  "init_reader = \<lparr>PartialFileIdBytes = replicate 8 0, FileIdBytes = 0\<rparr>"

section \<open>Reading one id\<close>

text \<open>
  One pass through the loop's body up to the use of the id, at the offset \<open>BytesRead\<close>: the id
  if one was completed (\<open>None\<close> for \<open>continue\<close>), the new offset and state. The branch that
  completes a partial id clears \<open>FileIdBytes\<close> before it computes how far to advance.
\<close>

definition read_file_id :: "bytes \<Rightarrow> nat \<Rightarrow> id_reader \<Rightarrow> ub + (u64 option \<times> nat \<times> id_reader)" where
  "read_file_id b BytesRead s =
     (let avail = length b - BytesRead; k = FileIdBytes s in
      if k \<noteq> 0 then
        if avail < size_sub 8 k then
          (case memcpy_at (PartialFileIdBytes s) k (drop BytesRead b) of
             Inl e \<Rightarrow> Inl e
           | Inr p \<Rightarrow> Inr (None, BytesRead + avail,
               s\<lparr>PartialFileIdBytes := p, FileIdBytes := u32_add k avail\<rparr>))
        else
          (case memcpy_at (PartialFileIdBytes s) k (take (size_sub 8 k) (drop BytesRead b)) of
             Inl e \<Rightarrow> Inl e
           | Inr p \<Rightarrow>
               let s' = s\<lparr>PartialFileIdBytes := p, FileIdBytes := 0\<rparr>
               in Inr (Some (dec_u64 p), BytesRead + size_sub 8 (FileIdBytes s'), s'))
      else if avail < 8 then
        Inr (None, BytesRead + avail,
          s\<lparr>PartialFileIdBytes := overwrite (PartialFileIdBytes s) 0 (drop BytesRead b),
            FileIdBytes := avail\<rparr>)
      else
        let p = take 8 (drop BytesRead b)
        in Inr (Some (dec_u64 p), BytesRead + 8, s\<lparr>PartialFileIdBytes := p\<rparr>))"

text \<open>
  The \<open>do ... while (BytesRead < Buffer->Length)\<close> loop. The handler gets an id and the state of
  the client; it may end the callback.
\<close>

lemma read_file_id_progress:
  "read_file_id b r s = Inr (oid, r', s') \<Longrightarrow> r' < length b \<Longrightarrow> r < r'"
  by (auto simp: read_file_id_def Let_def split: if_splits sum.splits)

function id_loop ::
  "(u64 \<Rightarrow> 'c \<Rightarrow> 'c \<times> flow) \<Rightarrow> bytes \<Rightarrow> nat \<Rightarrow> id_reader \<Rightarrow> 'c \<Rightarrow> ub + flow \<times> id_reader \<times> 'c"
where
  "id_loop handle b BytesRead s c =
     (case read_file_id b BytesRead s of
        Inl e \<Rightarrow> Inl e
      | Inr (None, r, s') \<Rightarrow>
          if r < length b then id_loop handle b r s' c else Inr (NextBuffer, s', c)
      | Inr (Some FileId, r, s') \<Rightarrow>
          (case handle FileId c of
             (c', ReturnSuccess) \<Rightarrow> Inr (ReturnSuccess, s', c')
           | (c', NextBuffer) \<Rightarrow>
               if r < length b then id_loop handle b r s' c' else Inr (NextBuffer, s', c')))"
  by pat_completeness auto
termination
  by (relation "measure (\<lambda>(handle, b, r, s, c). length b - r)")
    (use read_file_id_progress in \<open>simp_all, (meson diff_less_mono2 less_trans)+\<close>)

declare id_loop.simps [simp del]


text \<open>The loop over the buffers of a receive.\<close>

fun id_buffers ::
  "(u64 \<Rightarrow> 'c \<Rightarrow> 'c \<times> flow) \<Rightarrow> bytes list \<Rightarrow> id_reader \<Rightarrow> 'c \<Rightarrow> ub + id_reader \<times> 'c"
where
  "id_buffers handle [] s c = Inr (s, c)"
| "id_buffers handle (b # bs) s c =
     (case id_loop handle b 0 s c of
        Inl e \<Rightarrow> Inl e
      | Inr (ReturnSuccess, s', c') \<Rightarrow> Inr (s', c')
      | Inr (NextBuffer, s', c') \<Rightarrow> id_buffers handle bs s' c')"

section \<open>What a buffer means\<close>

text \<open>
  The ids in a stream and the bytes of the last, unfinished one; the effect of a handler on a list of
  ids, up to the one at which it ends the callback.
\<close>

definition ids_of :: "bytes \<Rightarrow> u64 list" where
  "ids_of bs = map (dec_u64 \<circ> fst) (fst (parse_frames 8 (\<lambda>_. 0) bs))"

definition id_rest :: "bytes \<Rightarrow> bytes" where
  "id_rest bs = snd (parse_frames 8 (\<lambda>_. 0) bs)"

fun handle_ids :: "(u64 \<Rightarrow> 'c \<Rightarrow> 'c \<times> flow) \<Rightarrow> u64 list \<Rightarrow> 'c \<Rightarrow> 'c \<times> flow" where
  "handle_ids handle [] c = (c, NextBuffer)"
| "handle_ids handle (i # is) c =
     (case handle i c of
        (c', ReturnSuccess) \<Rightarrow> (c', ReturnSuccess)
      | (c', NextBuffer) \<Rightarrow> handle_ids handle is c')"

definition reader_wf :: "id_reader \<Rightarrow> bool" where
  "reader_wf s \<longleftrightarrow> length (PartialFileIdBytes s) = 8 \<and> FileIdBytes s < 8"

definition id_pending :: "id_reader \<Rightarrow> bytes" where
  "id_pending s = take (FileIdBytes s) (PartialFileIdBytes s)"

text \<open>
  What the loop really does with a buffer: after it has completed a partial id it goes on at offset
  eight, whatever part of the first eight bytes the id took.
\<close>

definition buffer_ids :: "id_reader \<Rightarrow> bytes \<Rightarrow> u64 list" where
  "buffer_ids s b =
     (let k = FileIdBytes s in
      if k = 0 then ids_of b
      else if length b < 8 - k then []
      else dec_u64 (id_pending s @ take (8 - k) b) # ids_of (drop 8 b))"

definition buffer_rest :: "id_reader \<Rightarrow> bytes \<Rightarrow> bytes" where
  "buffer_rest s b =
     (let k = FileIdBytes s in
      if k = 0 then id_rest b
      else if length b < 8 - k then id_pending s @ b
      else id_rest (drop 8 b))"

lemma init_reader [simp]: "reader_wf init_reader" "id_pending init_reader = []" "FileIdBytes init_reader = 0"
  by (simp_all add: init_reader_def reader_wf_def id_pending_def)

lemma ids_of_short: "length bs < 8 \<Longrightarrow> ids_of bs = [] \<and> id_rest bs = bs"
  by (simp add: ids_of_def id_rest_def ids.parse_incomplete frame_complete_def)

lemma ids_of_long:
  "8 \<le> length bs \<Longrightarrow> ids_of bs = dec_u64 (take 8 bs) # ids_of (drop 8 bs) \<and> id_rest bs = id_rest (drop 8 bs)"
  using ids.parse_complete [of bs]
  by (simp add: ids_of_def id_rest_def frame_complete_def apfst_def map_prod_def case_prod_beta)

lemma length_id_rest: "length (id_rest bs) < 8"
  using ids.parse_rest_incomplete [of bs] by (simp add: id_rest_def frame_complete_def)

lemma ids_of_append: "ids_of (xs @ ys) = ids_of xs @ ids_of (id_rest xs @ ys)"
  and id_rest_append: "id_rest (xs @ ys) = id_rest (id_rest xs @ ys)"
  using ids.parse_append [of xs ys]
  by (simp_all add: ids_of_def id_rest_def apfst_def map_prod_def case_prod_beta)

text \<open>From an id boundary the loop handles the ids in the rest of the buffer.\<close>

lemma id_loop_boundary:
  "reader_wf s \<Longrightarrow> FileIdBytes s = 0 \<Longrightarrow> handle_ids h (ids_of (drop r b)) c = (c', fl) \<Longrightarrow>
   \<exists>s'. id_loop h b r s c = Inr (fl, s', c') \<and> reader_wf s' \<and>
     (fl = NextBuffer \<longrightarrow> id_pending s' = id_rest (drop r b))"
proof (induction "length b - r" arbitrary: r s c rule: less_induct)
  case less
  show ?case
  proof (cases "length b - r < 8")
    case True
    have "read_file_id b r s = Inr (None, r + (length b - r),
        s\<lparr>PartialFileIdBytes := overwrite (PartialFileIdBytes s) 0 (drop r b), FileIdBytes := length b - r\<rparr>)"
      using less.prems(2) True by (simp add: read_file_id_def Let_def)
    moreover have "\<not> r + (length b - r) < length b" by simp
    moreover have "c' = c" "fl = NextBuffer" "id_rest (drop r b) = drop r b"
      using less.prems(3) ids_of_short [of "drop r b"] True by simp_all
    ultimately show ?thesis using less.prems(1) True
      by (simp add: id_loop.simps [of h b r s c] reader_wf_def id_pending_def)
  next
    case False
    let ?p = "take 8 (drop r b)"
    let ?s = "s\<lparr>PartialFileIdBytes := ?p\<rparr>"
    have read: "read_file_id b r s = Inr (Some (dec_u64 ?p), r + 8, ?s)"
      using less.prems(2) False by (simp add: read_file_id_def Let_def)
    have wf: "reader_wf ?s" "FileIdBytes ?s = 0"
      using less.prems(1,2) False by (simp_all add: reader_wf_def)
    have next8: "drop 8 (drop r b) = drop (r + 8) b" by (simp add: add.commute)
    have ids: "ids_of (drop r b) = dec_u64 ?p # ids_of (drop (r + 8) b)"
      "id_rest (drop r b) = id_rest (drop (r + 8) b)"
      using ids_of_long [of "drop r b"] False unfolding next8 by auto
    obtain c1 fl1 where h: "h (dec_u64 ?p) c = (c1, fl1)" by (cases "h (dec_u64 ?p) c")
    show ?thesis
    proof (cases fl1)
      case ReturnSuccess
      then show ?thesis using less.prems(3) h wf
        by (simp add: id_loop.simps [of h b r s c] read ids(1))
    next
      case NextBuffer
      with less.prems(3) h have rest: "handle_ids h (ids_of (drop (r + 8) b)) c1 = (c', fl)"
        by (simp add: ids(1))
      show ?thesis
      proof (cases "r + 8 < length b")
        case True
        then have "length b - (r + 8) < length b - r" by linarith
        from less.hyps [OF this wf rest] True h NextBuffer ids(2) show ?thesis
          by (simp add: id_loop.simps [of h b r s c] read)
      next
        case no_more: False
        then have "drop (r + 8) b = []" by simp
        with rest have "c' = c1" "fl = NextBuffer" "id_rest (drop (r + 8) b) = []"
          by (simp_all add: ids_of_short)
        with no_more h NextBuffer wf ids(2) show ?thesis
          by (simp add: id_loop.simps [of h b r s c] read id_pending_def)
      qed
    qed
  qed
qed

lemma id_loop_buffer:
  assumes wf: "reader_wf s" and short: "length b < 2 ^ 32"
    and result: "handle_ids h (buffer_ids s b) c = (c', fl)"
  shows "\<exists>s'. id_loop h b 0 s c = Inr (fl, s', c') \<and> reader_wf s' \<and>
     (fl = NextBuffer \<longrightarrow> id_pending s' = buffer_rest s b)"
proof -
  let ?k = "FileIdBytes s"
  consider (boundary) "?k = 0" | (tiny) "?k \<noteq> 0" "length b < 8 - ?k" | (complete) "?k \<noteq> 0" "8 - ?k \<le> length b"
    by linarith
  then show ?thesis
  proof cases
    case boundary
    with result id_loop_boundary [OF wf boundary, of h 0 b c c' fl] show ?thesis
      by (simp add: buffer_ids_def buffer_rest_def)
  next
    case tiny
    let ?s = "s\<lparr>PartialFileIdBytes := overwrite (PartialFileIdBytes s) ?k b, FileIdBytes := ?k + length b\<rparr>"
    have fits: "?k + length b \<le> length (PartialFileIdBytes s)" using wf tiny by (simp add: reader_wf_def)
    have "read_file_id b 0 s = Inr (None, length b, ?s)"
      using wf tiny fits short by (simp add: read_file_id_def Let_def reader_wf_def)
    moreover have "c' = c" "fl = NextBuffer" using result tiny by (simp_all add: buffer_ids_def Let_def)
    moreover have "reader_wf ?s" "id_pending ?s = id_pending s @ b"
      using wf tiny fits by (simp_all add: reader_wf_def id_pending_def)
    ultimately show ?thesis using tiny
      by (simp add: id_loop.simps [of h b 0 s c] buffer_rest_def Let_def)
  next
    case complete
    let ?p = "id_pending s @ take (8 - ?k) b"
    let ?s = "s\<lparr>PartialFileIdBytes := ?p, FileIdBytes := 0\<rparr>"
    from wf have k: "?k < 8" "length (PartialFileIdBytes s) = 8" by (simp_all add: reader_wf_def)
    have "overwrite (PartialFileIdBytes s) ?k (take (8 - ?k) b) = ?p"
      using k complete by (simp add: overwrite_full id_pending_def)
    then have read: "read_file_id b 0 s = Inr (Some (dec_u64 ?p), 8, ?s)"
      using complete k by (simp add: read_file_id_def Let_def)
    have wf': "reader_wf ?s" "FileIdBytes ?s = 0" using complete k by (simp_all add: reader_wf_def id_pending_def)
    have ids: "buffer_ids s b = dec_u64 ?p # ids_of (drop 8 b)" "buffer_rest s b = id_rest (drop 8 b)"
      using complete by (simp_all add: buffer_ids_def buffer_rest_def Let_def)
    obtain c1 fl1 where h: "h (dec_u64 ?p) c = (c1, fl1)" by (cases "h (dec_u64 ?p) c")
    show ?thesis
    proof (cases fl1)
      case ReturnSuccess
      then show ?thesis using result h wf'
        by (simp add: id_loop.simps [of h b 0 s c] read ids(1))
    next
      case NextBuffer
      with result h have rest: "handle_ids h (ids_of (drop 8 b)) c1 = (c', fl)" by (simp add: ids(1))
      show ?thesis
      proof (cases "8 < length b")
        case True
        with id_loop_boundary [OF wf' rest] h NextBuffer ids(2) show ?thesis
          by (simp add: id_loop.simps [of h b 0 s c] read)
      next
        case False
        then have "drop 8 b = []" by simp
        with rest have "c' = c1" "fl = NextBuffer" "id_rest (drop 8 b) = []"
          by (simp_all add: ids_of_short)
        with False h NextBuffer wf' ids(2) show ?thesis
          by (simp add: id_loop.simps [of h b 0 s c] read id_pending_def)
      qed
    qed
  qed
qed


section \<open>Streams cut into buffers\<close>

text \<open>
  The cuts of a stream the loop copes with, given the length of the partial id: a buffer that
  completes an id must end with it.
\<close>

fun cuts_ok :: "nat \<Rightarrow> bytes list \<Rightarrow> bool" where
  "cuts_ok k [] = True"
| "cuts_ok k (b # bs) =
     (length b < 2 ^ 32 \<and> (k = 0 \<or> length b \<le> 8 - k) \<and> cuts_ok ((k + length b) mod 8) bs)"

lemma cuts_ok_ids: "cuts_ok 0 (map enc_u64 ids)"
  by (induction ids) simp_all

lemma buffer_ids_ok:
  assumes "reader_wf s" and "FileIdBytes s = 0 \<or> length b \<le> 8 - FileIdBytes s"
  shows "buffer_ids s b = ids_of (id_pending s @ b)" and "buffer_rest s b = id_rest (id_pending s @ b)"
proof -
  let ?k = "FileIdBytes s"
  have len: "length (id_pending s) = ?k" using assms(1) by (simp add: id_pending_def reader_wf_def)
  have "buffer_ids s b = ids_of (id_pending s @ b) \<and> buffer_rest s b = id_rest (id_pending s @ b)"
  proof (cases "?k = 0")
    case True
    with len show ?thesis by (simp add: buffer_ids_def buffer_rest_def)
  next
    case False
    show ?thesis
    proof (cases "length b < 8 - ?k")
      case True
      with len False ids_of_short [of "id_pending s @ b"] show ?thesis
        by (simp add: buffer_ids_def buffer_rest_def Let_def)
    next
      case long: False
      with assms False have eq: "length b = 8 - ?k" by linarith
      with len assms(1) have "length (id_pending s @ b) = 8" by (simp add: reader_wf_def)
      with ids_of_long [of "id_pending s @ b"] False eq show ?thesis
        by (simp add: buffer_ids_def buffer_rest_def Let_def ids_of_short)
    qed
  qed
  then show "buffer_ids s b = ids_of (id_pending s @ b)" and "buffer_rest s b = id_rest (id_pending s @ b)"
    by simp_all
qed

lemma length_id_rest_mod: "length (id_rest bs) = length bs mod 8"
proof (induction "length bs" arbitrary: bs rule: less_induct)
  case less
  show ?case
  proof (cases "length bs < 8")
    case True
    then show ?thesis using ids_of_short [of bs] by simp
  next
    case False
    with less [of "drop 8 bs"] ids_of_long [of bs] show ?thesis by (simp add: le_mod_geq)
  qed
qed

lemma handle_ids_append:
  "handle_ids h (xs @ ys) c =
     (case handle_ids h xs c of
        (c', ReturnSuccess) \<Rightarrow> (c', ReturnSuccess)
      | (c', NextBuffer) \<Rightarrow> handle_ids h ys c')"
  by (induction xs arbitrary: c) (auto split: prod.splits flow.splits)

lemma handle_ids_next:
  assumes "\<And>i c. snd (h i c) = NextBuffer"
  shows "snd (handle_ids h is c) = NextBuffer"
proof (induction "is" arbitrary: c)
  case (Cons i "is")
  obtain c' where "h i c = (c', NextBuffer)" using assms by (metis prod.collapse)
  with Cons show ?case by simp
qed simp

text \<open>A handler that never ends the callback gets the ids of the stream, in order.\<close>

lemma id_buffers_refines:
  assumes all: "\<And>i c. snd (h i c) = NextBuffer"
  shows "reader_wf s \<Longrightarrow> cuts_ok (FileIdBytes s) bufs \<Longrightarrow>
    \<exists>s'. id_buffers h bufs s c =
        Inr (s', fst (handle_ids h (ids_of (id_pending s @ concat bufs)) c)) \<and> reader_wf s' \<and>
      id_pending s' = id_rest (id_pending s @ concat bufs)"
proof (induction bufs arbitrary: s c)
  case Nil
  then have "length (id_pending s) < 8" by (simp add: reader_wf_def id_pending_def)
  with Nil show ?case by (simp add: ids_of_short)
next
  case (Cons b bs)
  let ?all = "id_pending s @ b"
  obtain c1 where c1: "handle_ids h (ids_of ?all) c = (c1, NextBuffer)"
    using handle_ids_next [of h "ids_of ?all" c] all by (metis prod.collapse)
  from Cons.prems have ok: "FileIdBytes s = 0 \<or> length b \<le> 8 - FileIdBytes s" "length b < 2 ^ 32" by auto
  from id_loop_buffer [OF Cons.prems(1) ok(2), of h c c1 NextBuffer] c1
  obtain s1 where s1: "id_loop h b 0 s c = Inr (NextBuffer, s1, c1)" "reader_wf s1" "id_pending s1 = id_rest ?all"
    by (auto simp: buffer_ids_ok [OF Cons.prems(1) ok(1)])
  have len: "length (id_pending s) = FileIdBytes s" "length (id_pending s1) = FileIdBytes s1"
    using Cons.prems(1) s1(2) by (simp_all add: id_pending_def reader_wf_def)
  then have "FileIdBytes s1 = (FileIdBytes s + length b) mod 8"
    using length_id_rest_mod [of ?all] by (simp add: s1(3))
  then have "cuts_ok (FileIdBytes s1) bs" using Cons.prems(2) by simp
  from Cons.IH [OF s1(2) this, of c1] s1 show ?case
    using ids_of_append [of ?all "concat bs"] id_rest_append [of ?all "concat bs"] c1
    by (auto simp: handle_ids_append)
qed

lemma ids_of_encoded: "ids_of (concat (map enc_u64 is) @ rest) = is @ ids_of rest"
  and id_rest_encoded: "id_rest (concat (map enc_u64 is) @ rest) = id_rest rest"
  by (induction "is") (simp_all add: ids_of_long id64.dec_enc)

section \<open>The reader as a stream reader\<close>

text \<open>The ids of one buffer, collected.\<close>

definition collect_id :: "u64 \<Rightarrow> u64 list \<Rightarrow> u64 list \<times> flow" where
  "collect_id FileId ids = (ids @ [FileId], NextBuffer)"

definition id_step :: "id_reader \<Rightarrow> bytes \<Rightarrow> (id_reader \<times> u64 list) option" where
  "id_step s b =
     (case id_loop collect_id b 0 s [] of Inl e \<Rightarrow> None | Inr (_, s', ids) \<Rightarrow> Some (s', ids))"

lemma handle_collect [simp]: "handle_ids collect_id is c = (c @ is, NextBuffer)"
  by (induction "is" arbitrary: c) (simp_all add: collect_id_def)

interpretation id_stream: stream_reader 8 "\<lambda>_. 0" id_step id_pending reader_wf
  "\<lambda>s b. length b < 2 ^ 32 \<and> (FileIdBytes s = 0 \<or> length b \<le> 8 - FileIdBytes s)" "dec_u64 \<circ> fst"
proof unfold_locales
  show "\<not> frame_complete 8 (\<lambda>_. 0) (id_pending s)" if "reader_wf s" for s
    using that by (simp add: frame_complete_def id_pending_def reader_wf_def)
next
  fix s and b :: bytes
  assume wf: "reader_wf s" and ok: "length b < 2 ^ 32 \<and> (FileIdBytes s = 0 \<or> length b \<le> 8 - FileIdBytes s)"
  from wf id_loop_buffer [of s b collect_id "[]" "buffer_ids s b" NextBuffer] ok
  show "\<exists>s'. id_step s b =
        Some (s', map (dec_u64 \<circ> fst) (fst (parse_frames 8 (\<lambda>_. 0) (id_pending s @ b)))) \<and>
      reader_wf s' \<and> id_pending s' = snd (parse_frames 8 (\<lambda>_. 0) (id_pending s @ b))"
    using buffer_ids_ok [OF wf] by (auto simp: id_step_def ids_of_def id_rest_def)
qed

section \<open>Properties of the reader\<close>

text \<open>
  C20. However a stream of ids is cut, the reader hands on exactly these ids in order and ends at an
  id boundary, as long as no buffer that completes an id goes on behind it.
\<close>

theorem id_reader_delivers:
  assumes "run_ok id_step (\<lambda>s b. length b < 2 ^ 32 \<and> (FileIdBytes s = 0 \<or> length b \<le> 8 - FileIdBytes s))
      init_reader bufs"
    and "concat bufs = concat (map enc_u64 ids)"
  shows "\<exists>s. run_reader id_step init_reader bufs = Some (s, ids) \<and> id_pending s = []"
proof -
  have "frames_bytes (map (\<lambda>i. (enc_u64 i, [])) ids) = concat (map enc_u64 ids)"
    by (induction ids) (simp_all add: frames_bytes_def frame_bytes_def)
  moreover have "list_all ids.wf_frame (map (\<lambda>i. (enc_u64 i, [])) ids)"
    by (simp add: list_all_iff ids.wf_frame_def)
  moreover have "map (dec_u64 \<circ> fst) (map (\<lambda>i. (enc_u64 i, [])) ids) = ids"
    by (induction ids) (simp_all add: id64.dec_enc)
  ultimately show ?thesis
    using id_stream.run_frames [OF init_reader(1,2) assms(1), of "map (\<lambda>i. (enc_u64 i, [])) ids"] assms(2)
    by auto
qed

theorem id_reader_delivers_witness:
  "\<exists>s. run_reader id_step init_reader [[1, 0, 0], [0, 0, 0, 0, 0], [2, 0, 0, 0, 0, 0, 0, 0]] = Some (s, [1, 2]) \<and>
     id_pending s = []"
  by (rule id_reader_delivers)
    (simp_all add: id_step_def id_loop.simps read_file_id_def Let_def init_reader_def memcpy_at_def
      overwrite_def enc_u64_def nat_le_numeral collect_id_def)

text \<open>
  C36. A buffer that completes an id and goes on behind it loses bytes: the reader has cleared
  \<open>FileIdBytes\<close> before it computes the number of bytes the id took, so it goes on at offset eight
  whatever the id took. Of two ids in one stream, cut inside the first, the second is never seen,
  and its tail is taken for the beginning of a third.
\<close>

theorem split_id_loses_next:
  assumes "0 < k" and "k < 8"
  shows "\<exists>s s'. id_step init_reader (take k (enc_u64 i)) = Some (s, []) \<and>
    id_step s (drop k (enc_u64 i) @ enc_u64 j) = Some (s', [i]) \<and>
    id_pending s' = drop k (enc_u64 j)"
proof -
  have first: "buffer_ids init_reader (take k (enc_u64 i)) = []"
    "buffer_rest init_reader (take k (enc_u64 i)) = take k (enc_u64 i)"
    using assms ids_of_short [of "take k (enc_u64 i)"] by (simp_all add: buffer_ids_def buffer_rest_def)
  with id_loop_buffer [OF init_reader(1), of "take k (enc_u64 i)" collect_id "[]" "[]" NextBuffer] assms
  obtain s where s: "id_loop collect_id (take k (enc_u64 i)) 0 init_reader [] = Inr (NextBuffer, s, [])"
    "reader_wf s" "id_pending s = take k (enc_u64 i)" by auto
  have "length (id_pending s) = FileIdBytes s" using s(2) by (simp add: id_pending_def reader_wf_def)
  with s(3) assms have k: "FileIdBytes s = k" by simp
  let ?b = "drop k (enc_u64 i) @ enc_u64 j"
  have tail: "drop 8 ?b = drop k (enc_u64 j)" using assms by simp
  have short: "length (drop k (enc_u64 j)) < 8" using assms by simp
  have len: "\<not> length ?b < 8 - k" by simp
  have second: "buffer_ids s ?b = [i]" "buffer_rest s ?b = drop k (enc_u64 j)"
    using assms k s(3) ids_of_short [OF short] len unfolding buffer_ids_def buffer_rest_def tail
    by (simp_all add: Let_def id64.dec_enc)
  have "length ?b < 2 ^ 32" by simp
  from id_loop_buffer [OF s(2) this, of collect_id "[]" "[i]" NextBuffer] second
  obtain s' where "id_loop collect_id ?b 0 s [] = Inr (NextBuffer, s', [i])" "id_pending s' = drop k (enc_u64 j)"
    by (auto simp: collect_id_def)
  with s(1,3) show ?thesis by (simp add: id_step_def)
qed

theorem split_id_loses_next_witness:
  "\<exists>s s'. id_step init_reader (take 3 (enc_u64 7)) = Some (s, []) \<and>
    id_step s (drop 3 (enc_u64 7) @ enc_u64 9) = Some (s', [7]) \<and>
    id_pending s' = drop 3 (enc_u64 9)"
  by (rule split_id_loses_next) simp_all

text \<open>
  A receive writes outside of the eight bytes exactly when \<open>FileIdBytes\<close> is larger than eight,
  which the code itself never makes it but never initialises either on the control stream.
\<close>

theorem receive_overflows_iff:
  assumes "length (PartialFileIdBytes s) = 8" and "FileIdBytes s < 2 ^ 32" and "length b < 2 ^ 32"
  shows "id_step s b = None \<longleftrightarrow> 8 < FileIdBytes s"
proof -
  consider (ok) "FileIdBytes s < 8" | (full) "FileIdBytes s = 8" | (over) "8 < FileIdBytes s" by linarith
  then show ?thesis
  proof cases
    case ok
    with assms have "reader_wf s" by (simp add: reader_wf_def)
    from id_loop_buffer [OF this assms(3), of collect_id "[]" "buffer_ids s b" NextBuffer] ok show ?thesis
      by (auto simp: id_step_def)
  next
    case full
    let ?s = "s\<lparr>FileIdBytes := 0\<rparr>"
    have wf: "reader_wf ?s" "FileIdBytes ?s = 0" using assms(1) by (simp_all add: reader_wf_def)
    have "read_file_id b 0 s = Inr (Some (dec_u64 (PartialFileIdBytes s)), 8, ?s)"
      using full assms(1) by (simp add: read_file_id_def Let_def overwrite_def)
    then show ?thesis
      using full id_loop_boundary [OF wf, of collect_id 8 b "[dec_u64 (PartialFileIdBytes s)]"]
      by (auto simp: id_step_def id_loop.simps [of collect_id b 0 s] collect_id_def)
  next
    case over
    with assms have "read_file_id b 0 s = Inl OutOfBoundsWrite"
      by (simp add: read_file_id_def Let_def size_sub_def memcpy_at_def)
    with over show ?thesis by (simp add: id_step_def id_loop.simps [of collect_id b 0 s])
  qed
qed

theorem receive_overflows_iff_witness:
  "id_step \<lparr>PartialFileIdBytes = replicate 8 0, FileIdBytes = 3735928559\<rparr> [1, 2] = None"
  using receive_overflows_iff [of "\<lparr>PartialFileIdBytes = replicate 8 0, FileIdBytes = 3735928559\<rparr>" "[1, 2]"]
  by simp

end
