(* ===== verification/Paths.thy ===== *)
theory Paths
  imports Prelude
begin

text \<open>
  The lexical part of \<open>std::filesystem::path\<close> that qsync uses, on POSIX paths: parsing and
  printing in the generic format, \<open>operator/\<close>, \<open>operator+=\<close>, \<open>has_stem\<close>,
  \<open>parent_path\<close> and \<open>lexically_relative\<close>. A path is kept as its decomposition: whether it
  has a root directory and the file names after it, with a last empty name for a trailing separator,
  as path iteration gives them.
\<close>

record path =
  rooted :: bool
  names :: "string list"

definition slash :: char where
  "slash = CHR ''/''"

section \<open>Parsing and printing\<close>

declare length_dropWhile_le [termination_simp]

text \<open>Cutting a string at the separators; several in a row count as one.\<close>

fun split_names :: "string \<Rightarrow> string \<Rightarrow> string list" where
  "split_names cur [] = [rev cur]"
| "split_names cur (c # cs) =
     (if c = slash then rev cur # split_names [] (dropWhile (\<lambda>d. d = slash) cs)
      else split_names (c # cur) cs)"

definition path_of :: "string \<Rightarrow> path" where
  "path_of s =
     (let rel = dropWhile (\<lambda>c. c = slash) s
      in \<lparr>rooted = (s \<noteq> [] \<and> hd s = slash), names = (if rel = [] then [] else split_names [] rel)\<rparr>)"

fun join_names :: "string list \<Rightarrow> string" where
  "join_names [] = []"
| "join_names [n] = n"
| "join_names (n # ns) = n @ slash # join_names ns"

definition generic_string :: "path \<Rightarrow> string" where
  "generic_string p = (if rooted p then [slash] else []) @ join_names (names p)"

text \<open>A C string ends at the first zero byte: \<open>getPath().cStr()\<close>.\<close>

definition c_str :: "string \<Rightarrow> string" where
  "c_str s = takeWhile (\<lambda>c. c \<noteq> CHR 0x00) s"

section \<open>Operations\<close>

definition has_filename :: "path \<Rightarrow> bool" where
  "has_filename p \<longleftrightarrow> names p \<noteq> [] \<and> last (names p) \<noteq> []"

text \<open>The stem of a file name is empty only if the file name is.\<close>

definition has_stem :: "path \<Rightarrow> bool" where
  "has_stem p = has_filename p"

definition parent_path :: "path \<Rightarrow> path" where
  "parent_path p = (if names p = [] then p else p\<lparr>names := butlast (names p)\<rparr>)"

text \<open>
  \<open>operator/\<close>: a rooted right operand replaces the left one; otherwise it is appended after a
  separator, which also turns an empty right operand into a trailing separator.
\<close>

definition path_append :: "path \<Rightarrow> path \<Rightarrow> path" where
  "path_append p q =
     (if rooted q then q
      else p\<lparr>names :=
        (if has_filename p then names p else butlast (names p)) @
        (if names q = [] \<and> names p \<noteq> [] then [[]] else names q)\<rparr>)"

text \<open>\<open>operator+=\<close> with a text that has no separator.\<close>

definition path_concat :: "path \<Rightarrow> string \<Rightarrow> path" where
  "path_concat p s =
     p\<lparr>names := (if names p = [] then [s] else butlast (names p) @ [last (names p) @ s])\<rparr>"

text \<open>\<open>lexically_relative\<close>, by the mismatch of the two element sequences.\<close>

definition dot :: string where "dot = ''.''"
definition dotdot :: string where "dotdot = ''..''"

fun strip_common :: "string list \<Rightarrow> string list \<Rightarrow> string list \<times> string list" where
  "strip_common (x # xs) (y # ys) = (if x = y then strip_common xs ys else (x # xs, y # ys))"
| "strip_common xs ys = (xs, ys)"

definition up_count :: "string list \<Rightarrow> int" where
  "up_count ys =
     int (length (filter (\<lambda>n. n \<noteq> [] \<and> n \<noteq> dot \<and> n \<noteq> dotdot) ys)) -
     int (length (filter (\<lambda>n. n = dotdot) ys))"

definition lexically_relative :: "path \<Rightarrow> path \<Rightarrow> path" where
  "lexically_relative p base =
     (if rooted p \<noteq> rooted base then \<lparr>rooted = False, names = []\<rparr>
      else
        let (a, b) = strip_common (names p) (names base); n = up_count b
        in if a = [] \<and> b = [] then \<lparr>rooted = False, names = [dot]\<rparr>
           else if n < 0 then \<lparr>rooted = False, names = []\<rparr>
           else if n = 0 \<and> (a = [] \<or> hd a = []) then \<lparr>rooted = False, names = [dot]\<rparr>
           else \<lparr>rooted = False, names = replicate (nat n) dotdot @ a\<rparr>)"

section \<open>Facts\<close>

text \<open>A proper file name: not empty, no separator, no zero byte, and not one of the dot names.\<close>

definition proper_name :: "string \<Rightarrow> bool" where
  "proper_name n \<longleftrightarrow>
     n \<noteq> [] \<and> n \<noteq> dot \<and> n \<noteq> dotdot \<and> slash \<notin> set n \<and> CHR 0x00 \<notin> set n"

abbreviation proper :: "string list \<Rightarrow> bool" where
  "proper ns \<equiv> list_all proper_name ns"

definition abs_path :: "string list \<Rightarrow> path" where
  "abs_path ns = \<lparr>rooted = True, names = ns\<rparr>"

definition rel_path :: "string list \<Rightarrow> path" where
  "rel_path ns = \<lparr>rooted = False, names = ns\<rparr>"

lemma path_sel [simp]:
  "rooted (abs_path ns)" "names (abs_path ns) = ns"
  "\<not> rooted (rel_path ns)" "names (rel_path ns) = ns"
  by (simp_all add: abs_path_def rel_path_def)

lemma abs_path_inj [simp]: "abs_path xs = abs_path ys \<longleftrightarrow> xs = ys"
  by (simp add: abs_path_def)

lemma path_append_rel [simp]:
  assumes "proper ns" and "proper ms" and "ms \<noteq> []"
  shows "path_append (abs_path ns) (rel_path ms) = abs_path (ns @ ms)"
proof (cases "ns = []")
  case True
  with assms show ?thesis by (simp add: path_append_def abs_path_def rel_path_def)
next
  case False
  with assms(1) have "last ns \<noteq> []" by (auto simp: list_all_iff proper_name_def)
  with False assms show ?thesis
    by (simp add: path_append_def has_filename_def abs_path_def rel_path_def)
qed

lemma path_append_rooted [simp]: "rooted q \<Longrightarrow> path_append p q = q"
  by (simp add: path_append_def)

lemma strip_common_prefix [simp]: "strip_common (ns @ ms) ns = (ms, [])"
  by (induction ns) (cases ms; simp)+

lemma lexically_relative_below:
  assumes "ms \<noteq> []" and "hd ms \<noteq> []"
  shows "lexically_relative (abs_path (ns @ ms)) (abs_path ns) = rel_path ms"
  using assms by (simp add: lexically_relative_def up_count_def rel_path_def)

lemma split_names_no_slash:
  "slash \<notin> set n \<Longrightarrow> split_names cur n = [rev cur @ n]"
  by (induction n arbitrary: cur) auto

lemma split_names_slash:
  "slash \<notin> set n \<Longrightarrow>
   split_names cur (n @ slash # cs) =
     (rev cur @ n) # split_names [] (dropWhile (\<lambda>d. d = slash) cs)"
  by (induction n arbitrary: cur) auto

lemma dropWhile_slash_join:
  "proper (n # ns) \<Longrightarrow> dropWhile (\<lambda>d. d = slash) (join_names (n # ns)) = join_names (n # ns)"
  by (cases ns; cases n) (auto simp: proper_name_def)

lemma split_join: "proper ns \<Longrightarrow> ns \<noteq> [] \<Longrightarrow> split_names [] (join_names ns) = ns"
proof (induction ns rule: join_names.induct)
  case (3 n m ns)
  from "3.prems" have "proper_name n" and ms: "proper (m # ns)" by simp_all
  then have "slash \<notin> set n" by (simp add: proper_name_def)
  with ms 3 dropWhile_slash_join [of m ns] show ?case by (simp add: split_names_slash)
qed (auto simp: split_names_no_slash proper_name_def)

lemma join_names_head:
  "proper (n # ns) \<Longrightarrow> join_names (n # ns) \<noteq> [] \<and> hd (join_names (n # ns)) \<noteq> slash"
  by (cases ns; cases n) (auto simp: proper_name_def)

text \<open>Printing and parsing a relative path of proper names gives it back.\<close>

lemma path_of_generic_string:
  assumes "proper ns" and "ns \<noteq> []"
  shows "path_of (generic_string (rel_path ns)) = rel_path ns"
proof -
  obtain m ms where ns: "ns = m # ms" using assms(2) by (cases ns) auto
  have "join_names ns \<noteq> []" "hd (join_names ns) \<noteq> slash"
    "dropWhile (\<lambda>c. c = slash) (join_names ns) = join_names ns"
    using join_names_head dropWhile_slash_join assms(1) by (auto simp: ns)
  with assms show ?thesis
    by (simp add: path_of_def generic_string_def split_join rel_path_def)
qed

lemma c_str_join: "proper ns \<Longrightarrow> c_str (join_names ns) = join_names ns"
proof -
  have "CHR 0x00 \<notin> set (join_names ns)" if "proper ns"
    using that by (induction ns rule: join_names.induct) (auto simp: proper_name_def slash_def)
  then show "proper ns \<Longrightarrow> c_str (join_names ns) = join_names ns"
    by (simp add: c_str_def) (metis (mono_tags, lifting) takeWhile_eq_all_conv)
qed

lemma c_str_generic_string:
  "proper ns \<Longrightarrow> c_str (generic_string (rel_path ns)) = generic_string (rel_path ns)"
  by (simp add: generic_string_def c_str_join)

lemma path_of_abs_string:
  assumes "proper ns" and "ns \<noteq> []"
  shows "path_of (c_str (generic_string (abs_path ns))) = abs_path ns"
proof -
  have "c_str (slash # s) = slash # c_str s" for s by (simp add: c_str_def slash_def)
  moreover have "path_of (slash # s) = abs_path (names (path_of s))" for s
    by (simp add: path_of_def abs_path_def Let_def)
  ultimately show ?thesis
    using path_of_generic_string [OF assms] c_str_join [OF assms(1)] by (simp add: generic_string_def)
qed

end
