(* ===== verification/FileSystem.thy ===== *)
theory FileSystem
  imports Paths "HOL-Library.AList"
begin

text \<open>
  The part of \<open>std::filesystem\<close> and \<open>std::fstream\<close> that qsync uses, on a POSIX file system. A
  file system holds its nodes by location, the list of names from the root directory; a path is
  resolved name by name, following symbolic links up to the limit at which the system reports
  \<open>ELOOP\<close>. An operation with an \<open>error_code\<close> argument gives an option: \<open>None\<close> is a set
  error code. Besides the errors that follow from the nodes (missing entries, wrong kinds, link
  loops), \<open>fault\<close> says which calls fail for other reasons (permissions, I/O), so that every
  error path of the code can be taken.
\<close>

section \<open>State\<close>

type_synonym loc = "string list"

datatype node =
    Regular bytes int       \<comment> \<open>contents and time of the last write\<close>
  | Directory int
  | Symlink path int
  | OtherNode int           \<comment> \<open>pipes, sockets, devices\<close>

datatype file_type = FtNotFound | FtRegular | FtDirectory | FtSymlink | FtOther

datatype fs_call =
    CallExists | CallStatus | CallReadSymlink | CallGetTime | CallSetTime | CallFileSize
  | CallCanonical | CallCurrentPath | CallCreateDirectory | CallCreateSymlink | CallRename
  | CallRemove | CallOpenDir | CallOpenRead | CallOpenWrite

record fsys =
  nodes :: "(loc \<times> node) list"
  cwd :: loc
  now :: int                                    \<comment> \<open>the time a modification is stamped with\<close>
  fault :: "fs_call \<Rightarrow> path \<Rightarrow> bool"
  write_fault :: "path \<Rightarrow> nat \<Rightarrow> bool"          \<comment> \<open>writing fails once the file has this length\<close>
  other_size :: "nat option"                    \<comment> \<open>what \<open>file_size\<close> gives for a directory\<close>

definition node_at :: "fsys \<Rightarrow> loc \<Rightarrow> node option" where
  "node_at fs l = map_of (nodes fs) l"

definition put_node :: "loc \<Rightarrow> node \<Rightarrow> fsys \<Rightarrow> fsys" where
  "put_node l n fs = fs\<lparr>nodes := AList.update l n (nodes fs)\<rparr>"

definition del_node :: "loc \<Rightarrow> fsys \<Rightarrow> fsys" where
  "del_node l fs = fs\<lparr>nodes := AList.delete l (nodes fs)\<rparr>"

text \<open>The contract of the node table.\<close>

locale node_store =
  fixes look :: "'s \<Rightarrow> 'l \<Rightarrow> 'n option"
    and put :: "'l \<Rightarrow> 'n \<Rightarrow> 's \<Rightarrow> 's"
    and del :: "'l \<Rightarrow> 's \<Rightarrow> 's"
  assumes look_put: "look (put l n s) l' = (if l' = l then Some n else look s l')"
    and look_del: "look (del l s) l' = (if l' = l then None else look s l')"
begin

lemma look_put_same [simp]: "look (put l n s) l = Some n"
  by (simp add: look_put)

lemma look_put_other: "l' \<noteq> l \<Longrightarrow> look (put l n s) l' = look s l'"
  by (simp add: look_put)

lemma look_move:
  "look (put b n (del a s)) l = (if l = b then Some n else if l = a then None else look s l)"
  by (simp add: look_put look_del)

end

interpretation fs_nodes: node_store node_at put_node del_node
  by unfold_locales (simp_all add: node_at_def put_node_def del_node_def update_conv' delete_conv')

lemma put_node_sel [simp]:
  "cwd (put_node l n fs) = cwd fs" "now (put_node l n fs) = now fs"
  "fault (put_node l n fs) = fault fs" "write_fault (put_node l n fs) = write_fault fs"
  "other_size (put_node l n fs) = other_size fs"
  by (simp_all add: put_node_def)

lemma del_node_sel [simp]:
  "cwd (del_node l fs) = cwd fs" "now (del_node l fs) = now fs"
  "fault (del_node l fs) = fault fs" "write_fault (del_node l fs) = write_fault fs"
  "other_size (del_node l fs) = other_size fs"
  by (simp_all add: del_node_def)

section \<open>Path resolution\<close>

text \<open>
  \<open>Found b l\<close>: the path names the node at \<open>l\<close>, with \<open>b\<close> links left to follow. \<open>Missing l\<close>:
  only the last name is missing, so a file could be created at \<open>l\<close>. \<open>NoEntry\<close> stands for
  \<open>ENOENT\<close> and \<open>ENOTDIR\<close> on the way.
\<close>

datatype walk_result = Found nat loc | Missing loc | NoEntry | LinkLoop

definition link_base :: "path \<Rightarrow> loc \<Rightarrow> loc" where
  "link_base tgt at = (if rooted tgt then [] else at)"

function walk :: "(loc \<Rightarrow> node option) \<Rightarrow> nat \<Rightarrow> loc \<Rightarrow> string list \<Rightarrow> bool \<Rightarrow> walk_result" where
  "walk look b at [] follow = Found b at"
| "walk look b at (c # cs) follow =
     (case look at of
        Some (Directory _) \<Rightarrow>
          if c = [] \<or> c = dot then walk look b at cs follow
          else if c = dotdot then walk look b (butlast at) cs follow
          else
            (case look (at @ [c]) of
               None \<Rightarrow> if cs = [] then Missing (at @ [c]) else NoEntry
             | Some (Symlink tgt _) \<Rightarrow>
                 if cs = [] \<and> \<not> follow then Found b (at @ [c])
                 else if b = 0 then LinkLoop
                 else walk look (b - 1) (link_base tgt at) (names tgt @ cs) follow
             | Some _ \<Rightarrow> walk look b (at @ [c]) cs follow)
      | _ \<Rightarrow> NoEntry)"
  by pat_completeness auto
termination
  by (relation "measures [\<lambda>(look, b, at, ns, follow). b, \<lambda>(look, b, at, ns, follow). length ns]") auto

definition max_links :: nat where "max_links = 40"

definition resolve :: "fsys \<Rightarrow> bool \<Rightarrow> path \<Rightarrow> walk_result" where
  "resolve fs follow p =
     (if \<not> rooted p \<and> names p = [] then NoEntry
      else walk (node_at fs) max_links (if rooted p then [] else cwd fs) (names p) follow)"

fun type_of :: "node \<Rightarrow> file_type" where
  "type_of (Regular _ _) = FtRegular"
| "type_of (Directory _) = FtDirectory"
| "type_of (Symlink _ _) = FtSymlink"
| "type_of (OtherNode _) = FtOther"

fun time_of :: "node \<Rightarrow> int" where
  "time_of (Regular _ t) = t"
| "time_of (Directory t) = t"
| "time_of (Symlink _ t) = t"
| "time_of (OtherNode t) = t"

fun set_time :: "int \<Rightarrow> node \<Rightarrow> node" where
  "set_time t (Regular c _) = Regular c t"
| "set_time t (Directory _) = Directory t"
| "set_time t (Symlink p _) = Symlink p t"
| "set_time t (OtherNode _) = OtherNode t"

text \<open>The node a path names, all links followed.\<close>

definition stat :: "fsys \<Rightarrow> path \<Rightarrow> (loc \<times> node) option" where
  "stat fs p =
     (case resolve fs True p of
        Found _ l \<Rightarrow> map_option (Pair l) (node_at fs l)
      | _ \<Rightarrow> None)"

section \<open>Queries\<close>

definition fs_status :: "fsys \<Rightarrow> path \<Rightarrow> file_type option" where
  "fs_status fs p =
     (if fault fs CallStatus p then None
      else case resolve fs True p of
             LinkLoop \<Rightarrow> None
           | _ \<Rightarrow> Some (case stat fs p of None \<Rightarrow> FtNotFound | Some (_, n) \<Rightarrow> type_of n))"

definition fs_exists :: "fsys \<Rightarrow> path \<Rightarrow> bool option" where
  "fs_exists fs p =
     (if fault fs CallExists p \<or> resolve fs True p = LinkLoop then None
      else Some (stat fs p \<noteq> None))"

definition fs_read_symlink :: "fsys \<Rightarrow> path \<Rightarrow> path option" where
  "fs_read_symlink fs p =
     (if fault fs CallReadSymlink p then None
      else case resolve fs False p of
             Found _ l \<Rightarrow> (case node_at fs l of Some (Symlink tgt _) \<Rightarrow> Some tgt | _ \<Rightarrow> None)
           | _ \<Rightarrow> None)"

definition fs_last_write_time :: "fsys \<Rightarrow> path \<Rightarrow> int option" where
  "fs_last_write_time fs p =
     (if fault fs CallGetTime p then None else map_option (time_of \<circ> snd) (stat fs p))"

definition fs_file_size :: "fsys \<Rightarrow> path \<Rightarrow> nat option" where
  "fs_file_size fs p =
     (if fault fs CallFileSize p then None
      else case stat fs p of
             None \<Rightarrow> None
           | Some (_, Regular c _) \<Rightarrow> Some (length c)
           | Some (_, _) \<Rightarrow> other_size fs)"

definition fs_canonical :: "fsys \<Rightarrow> path \<Rightarrow> path option" where
  "fs_canonical fs p =
     (if fault fs CallCanonical p then None else map_option (abs_path \<circ> fst) (stat fs p))"

definition fs_current_path :: "fsys \<Rightarrow> path option" where
  "fs_current_path fs =
     (if fault fs CallCurrentPath (abs_path (cwd fs)) then None else Some (abs_path (cwd fs)))"

text \<open>The names in a directory, in the order of the table.\<close>

definition children :: "fsys \<Rightarrow> loc \<Rightarrow> string list" where
  "children fs l =
     map last (filter (\<lambda>l'. l' \<noteq> [] \<and> butlast l' = l) (remdups (map fst (nodes fs))))"

text \<open>
  The entries a \<open>directory_iterator\<close> visits, which skips the dot names; an iterator whose
  construction fails is the end iterator.
\<close>

definition fs_directory_entries :: "fsys \<Rightarrow> path \<Rightarrow> path list" where
  "fs_directory_entries fs p =
     (if fault fs CallOpenDir p then []
      else case stat fs p of
             Some (l, Directory _) \<Rightarrow>
               map (\<lambda>n. path_append p (rel_path [n]))
                 (filter (\<lambda>n. n \<noteq> [] \<and> n \<noteq> dot \<and> n \<noteq> dotdot) (children fs l))
           | _ \<Rightarrow> [])"

definition fs_read_file :: "fsys \<Rightarrow> path \<Rightarrow> bytes option" where
  "fs_read_file fs p =
     (if fault fs CallOpenRead p then None
      else case stat fs p of Some (_, Regular c _) \<Rightarrow> Some c | _ \<Rightarrow> None)"

section \<open>Modifications\<close>

definition fs_set_last_write_time :: "path \<Rightarrow> int \<Rightarrow> fsys \<Rightarrow> fsys option" where
  "fs_set_last_write_time p t fs =
     (if fault fs CallSetTime p then None
      else case stat fs p of
             None \<Rightarrow> None
           | Some (l, n) \<Rightarrow> Some (put_node l (set_time t n) fs))"

definition fs_create_directory :: "path \<Rightarrow> fsys \<Rightarrow> fsys option" where
  "fs_create_directory p fs =
     (if fault fs CallCreateDirectory p then None
      else case resolve fs False p of
             Missing l \<Rightarrow> Some (put_node l (Directory (now fs)) fs)
           | Found _ l \<Rightarrow> (if fs_status fs p = Some FtDirectory then Some fs else None)
           | _ \<Rightarrow> None)"

definition fs_create_symlink :: "path \<Rightarrow> path \<Rightarrow> fsys \<Rightarrow> fsys option" where
  "fs_create_symlink tgt p fs =
     (if fault fs CallCreateSymlink p then None
      else case resolve fs False p of
             Missing l \<Rightarrow> Some (put_node l (Symlink tgt (now fs)) fs)
           | _ \<Rightarrow> None)"

text \<open>
  \<open>rename\<close> of something that is not a directory, which is all the code does: it replaces what
  is there unless that is a directory.
\<close>

definition fs_rename :: "path \<Rightarrow> path \<Rightarrow> fsys \<Rightarrow> fsys option" where
  "fs_rename old new fs =
     (if fault fs CallRename old then None
      else case resolve fs False old of
             Found _ lo \<Rightarrow>
               (case node_at fs lo of
                  None \<Rightarrow> None
                | Some (Directory _) \<Rightarrow> None
                | Some n \<Rightarrow>
                    (case resolve fs False new of
                       Missing ln \<Rightarrow> Some (put_node ln n (del_node lo fs))
                     | Found _ ln \<Rightarrow>
                         (case node_at fs ln of
                            Some (Directory _) \<Rightarrow> None
                          | _ \<Rightarrow> Some (put_node ln n (del_node lo fs)))
                     | _ \<Rightarrow> None))
           | _ \<Rightarrow> None)"

text \<open>
  \<open>remove\<close> without an \<open>error_code\<close>: \<open>None\<close> is the thrown \<open>filesystem_error\<close>; a path
  that names nothing is no error.
\<close>

definition fs_remove :: "path \<Rightarrow> fsys \<Rightarrow> fsys option" where
  "fs_remove p fs =
     (if fault fs CallRemove p then None
      else case resolve fs False p of
             Found _ l \<Rightarrow>
               (case node_at fs l of
                  Some (Directory _) \<Rightarrow> (if children fs l = [] then Some (del_node l fs) else None)
                | _ \<Rightarrow> Some (del_node l fs))
           | LinkLoop \<Rightarrow> None
           | _ \<Rightarrow> Some fs)"

text \<open>
  Opening a file stream with \<open>out | trunc\<close> gives the location the stream writes to, and
  \<open>stream_write\<close> appends to it; \<open>None\<close> sets the stream's \<open>failbit\<close>.
\<close>

definition fs_open_trunc :: "path \<Rightarrow> fsys \<Rightarrow> (loc \<times> fsys) option" where
  "fs_open_trunc p fs =
     (if fault fs CallOpenWrite p then None
      else case resolve fs True p of
             Missing l \<Rightarrow> Some (l, put_node l (Regular [] (now fs)) fs)
           | Found _ l \<Rightarrow>
               (case node_at fs l of
                  Some (Regular _ _) \<Rightarrow> Some (l, put_node l (Regular [] (now fs)) fs)
                | _ \<Rightarrow> None)
           | _ \<Rightarrow> None)"

definition stream_write :: "path \<Rightarrow> loc \<Rightarrow> bytes \<Rightarrow> fsys \<Rightarrow> fsys option" where
  "stream_write p l bs fs =
     (case node_at fs l of
        Some (Regular c _) \<Rightarrow>
          (if write_fault fs p (length c + length bs) then None
           else Some (put_node l (Regular (c @ bs) (now fs)) fs))
      | _ \<Rightarrow> None)"

section \<open>Facts about resolution\<close>

text \<open>Resolution of a longer path continues from where its first part leads.\<close>

lemma walk_append:
  "ys \<noteq> [] \<Longrightarrow>
   walk look b at (xs @ ys) follow =
     (case walk look b at xs True of
        Found b' l \<Rightarrow> walk look b' l ys follow
      | LinkLoop \<Rightarrow> LinkLoop
      | _ \<Rightarrow> NoEntry)"
proof (induction look b at xs "True" rule: walk.induct)
  case (1 look b at)
  then show ?case by simp
next
  case (2 look b at c cs)
  show ?case
  proof (cases "\<exists>t. look at = Some (Directory t)")
    case True
    then obtain t where "look at = Some (Directory t)" by blast
    with 2 show ?thesis by (auto split: option.splits node.splits)
  next
    case False
    then show ?thesis by (auto split: option.splits node.splits)
  qed
qed

lemma walk_budget: "walk look b at ns follow = Found b' l \<Longrightarrow> b' \<le> b"
proof (induction look b at ns follow rule: walk.induct)
  case (1 look b at follow)
  then show ?case by simp
next
  case (2 look b at c cs follow)
  then show ?case by (fastforce split: option.splits node.splits if_splits)
qed

text \<open>
  A rank for paths: the links that may still be followed count most, then the distance of the
  reached location from the deepest one. It goes down from a directory to its entries.
\<close>

definition max_depth :: "fsys \<Rightarrow> nat" where
  "max_depth fs = fold max (map (length \<circ> fst) (nodes fs)) 0"

lemma fold_max_ge: "x \<in> set xs \<or> x \<le> m \<Longrightarrow> (x :: nat) \<le> fold max xs m"
  by (induction xs arbitrary: m) (auto simp: le_max_iff_disj)

lemma node_depth: "node_at fs l = Some n \<Longrightarrow> length l \<le> max_depth fs"
proof -
  assume "node_at fs l = Some n"
  then have "(l, n) \<in> set (nodes fs)" by (simp add: node_at_def map_of_SomeD)
  then have "length l \<in> set (map (length \<circ> fst) (nodes fs))" by force
  then show ?thesis by (simp add: max_depth_def fold_max_ge)
qed

definition path_rank :: "fsys \<Rightarrow> path \<Rightarrow> nat" where
  "path_rank fs p =
     (case resolve fs True p of
        Found b l \<Rightarrow> b * Suc (max_depth fs) + (max_depth fs - length l)
      | _ \<Rightarrow> 0)"

lemma resolve_append:
  assumes "resolve fs True p = Found b l" and "node_at fs l = Some (Directory t)"
  shows "resolve fs follow (path_append p (rel_path [n])) = walk (node_at fs) b l [n] follow"
proof -
  let ?start = "if rooted p then [] else cwd fs" and ?w = "walk (node_at fs)"
  from assms(1) have p: "?w max_links ?start (names p) True = Found b l" "rooted p \<or> names p \<noteq> []"
    by (auto simp: resolve_def split: if_splits)
  let ?dir = "if has_filename p then names p else butlast (names p)"
  have dir: "?w max_links ?start ?dir True = Found b l"
  proof (cases "has_filename p \<or> names p = []")
    case True
    with p show ?thesis by auto
  next
    case False
    then have split: "names p = butlast (names p) @ [[]]"
      by (metis append_butlast_last_id has_filename_def)
    from p(1) have "?w max_links ?start (butlast (names p) @ [[]]) True = Found b l"
      using split by simp
    then obtain b' l' where first: "?w max_links ?start (butlast (names p)) True = Found b' l'"
      and last: "?w b' l' [[]] True = Found b l"
      by (auto simp: walk_append split: walk_result.splits)
    from last have "b' = b \<and> l' = l" by (auto split: option.splits node.splits)
    with first False show ?thesis by simp
  qed
  have "path_append p (rel_path [n]) = p\<lparr>names := ?dir @ [n]\<rparr>"
    by (simp add: path_append_def)
  then show ?thesis using dir
    by (simp add: resolve_def walk_append del: walk.simps)
qed

lemma entry_rank:
  assumes "stat fs d = Some (l, Directory t)" and "n \<noteq> []" "n \<noteq> dot" "n \<noteq> dotdot"
    and "fs_status fs (path_append d (rel_path [n])) = Some FtDirectory"
  shows "path_rank fs (path_append d (rel_path [n])) < path_rank fs d"
proof -
  let ?D = "max_depth fs" and ?e = "path_append d (rel_path [n])"
  from assms(1) obtain b where d: "resolve fs True d = Found b l"
    and dir: "node_at fs l = Some (Directory t)"
    by (auto simp: stat_def split: walk_result.splits)
  have e: "resolve fs True ?e = walk (node_at fs) b l [n] True" by (rule resolve_append [OF d dir])
  from assms(5) obtain b' l' where found: "resolve fs True ?e = Found b' l'"
    by (auto simp: fs_status_def stat_def split: if_splits walk_result.splits)
  obtain k where k: "node_at fs (l @ [n]) = Some k"
    using found dir assms(2-4) unfolding e by (auto split: option.splits)
  then have depth: "Suc (length l) \<le> ?D" using node_depth by fastforce
  have "b' * Suc ?D + (?D - length l') < b * Suc ?D + (?D - length l)"
  proof (cases "\<exists>tgt t'. k = Symlink tgt t'")
    case True
    then obtain tgt t' where "k = Symlink tgt t'" by blast
    with found dir assms(2-4) k have b: "0 < b" and
      "walk (node_at fs) (b - 1) (link_base tgt l) (names tgt) True = Found b' l'"
      unfolding e by (auto split: if_splits)
    then have "b' \<le> b - 1" using walk_budget by blast
    then have "b' * Suc ?D + ?D < Suc (b - 1) * Suc ?D"
      by (metis Suc_leI add.commute add_less_mono1 lessI le_imp_less_Suc less_le_trans mult_Suc
          mult_le_mono1)
    with b show ?thesis by simp
  next
    case False
    with found dir assms(2-4) k have "b' = b \<and> l' = l @ [n]"
      unfolding e by (cases k) auto
    with depth show ?thesis by simp
  qed
  with found d show ?thesis by (simp add: path_rank_def)
qed

section \<open>Well-formed file systems\<close>

text \<open>
  The root and the working directory are directories, and so is the parent of every node; names are
  proper.
\<close>

definition is_dir :: "fsys \<Rightarrow> loc \<Rightarrow> bool" where
  "is_dir fs l \<longleftrightarrow> (\<exists>t. node_at fs l = Some (Directory t))"

definition fs_wf :: "fsys \<Rightarrow> bool" where
  "fs_wf fs \<longleftrightarrow> is_dir fs [] \<and> is_dir fs (cwd fs) \<and>
     (\<forall>(l, n) \<in> set (nodes fs). proper l \<and> (l \<noteq> [] \<longrightarrow> is_dir fs (butlast l)))"

lemma fs_wf_node:
  assumes "fs_wf fs" and "node_at fs l = Some n"
  shows "proper l" and "l \<noteq> [] \<Longrightarrow> is_dir fs (butlast l)"
proof -
  from assms(2) have "(l, n) \<in> set (nodes fs)" by (simp add: node_at_def map_of_SomeD)
  with assms(1) show "proper l" and "l \<noteq> [] \<Longrightarrow> is_dir fs (butlast l)"
    by (auto simp: fs_wf_def)
qed

lemma is_dir_butlast: "fs_wf fs \<Longrightarrow> is_dir fs l \<Longrightarrow> is_dir fs (butlast l)"
  by (cases "l = []") (auto simp: is_dir_def dest: fs_wf_node)

lemma is_dir_take: "fs_wf fs \<Longrightarrow> is_dir fs l \<Longrightarrow> is_dir fs (take k l)"
proof (induction "length l - k" arbitrary: k)
  case 0
  then show ?case by simp
next
  case (Suc n)
  then have "is_dir fs (take (Suc k) l)" by simp
  with Suc.prems(1) have "is_dir fs (butlast (take (Suc k) l))" by (rule is_dir_butlast)
  with Suc.hyps(2) show ?case by (simp add: butlast_take)
qed

text \<open>With all links followed, a path never names a link.\<close>

definition not_link :: "fsys \<Rightarrow> loc \<Rightarrow> bool" where
  "not_link fs l \<longleftrightarrow> (\<forall>tgt t. node_at fs l \<noteq> Some (Symlink tgt t))"

text \<open>The steps of the resolution, one equation for each kind of name.\<close>

lemma walk_not_dir: "\<not> (\<exists>t. look at = Some (Directory t)) \<Longrightarrow> walk look b at (c # cs) f = NoEntry"
  by (auto split: option.splits node.splits)

lemma walk_dot:
  "look at = Some (Directory t) \<Longrightarrow> c = [] \<or> c = dot \<Longrightarrow> walk look b at (c # cs) f = walk look b at cs f"
  by auto

lemma walk_up:
  "look at = Some (Directory t) \<Longrightarrow> walk look b at (dotdot # cs) f = walk look b (butlast at) cs f"
  by (auto simp: dotdot_def dot_def)

lemma walk_missing:
  "look at = Some (Directory t) \<Longrightarrow> c \<noteq> [] \<Longrightarrow> c \<noteq> dot \<Longrightarrow> c \<noteq> dotdot \<Longrightarrow> look (at @ [c]) = None \<Longrightarrow>
   walk look b at (c # cs) f = (if cs = [] then Missing (at @ [c]) else NoEntry)"
  by simp

lemma walk_link:
  "look at = Some (Directory t) \<Longrightarrow> c \<noteq> [] \<Longrightarrow> c \<noteq> dot \<Longrightarrow> c \<noteq> dotdot \<Longrightarrow>
   look (at @ [c]) = Some (Symlink tgt t') \<Longrightarrow>
   walk look b at (c # cs) f =
     (if cs = [] \<and> \<not> f then Found b (at @ [c])
      else if b = 0 then LinkLoop else walk look (b - 1) (link_base tgt at) (names tgt @ cs) f)"
  by simp

lemma walk_down:
  "look at = Some (Directory t) \<Longrightarrow> c \<noteq> [] \<Longrightarrow> c \<noteq> dot \<Longrightarrow> c \<noteq> dotdot \<Longrightarrow>
   look (at @ [c]) = Some n \<Longrightarrow> \<forall>tgt t. n \<noteq> Symlink tgt t \<Longrightarrow>
   walk look b at (c # cs) f = walk look b (at @ [c]) cs f"
  by (cases n) simp_all

declare walk.simps(2) [simp del]

lemma walk_invariant:
  fixes look :: "loc \<Rightarrow> node option"
  assumes root: "Q []"
    and up: "\<And>at t. Q at \<Longrightarrow> look at = Some (Directory t) \<Longrightarrow> Q (butlast at)"
    and down: "\<And>at c n. Q at \<Longrightarrow> look (at @ [c]) = Some n \<Longrightarrow> \<forall>tgt t. n \<noteq> Symlink tgt t \<Longrightarrow>
      Q (at @ [c])"
  shows "walk look b at ns True = Found b' l \<Longrightarrow> Q at \<Longrightarrow> Q l"
proof (induction b arbitrary: at ns rule: less_induct)
  case (less b)
  from less.prems show ?case
  proof (induction ns arbitrary: at)
    case Nil
    then show ?case by simp
  next
    case (Cons c cs)
    from Cons.prems(1) obtain t where t: "look at = Some (Directory t)"
      using walk_not_dir by (metis walk_result.distinct(3))
    consider "c = [] \<or> c = dot" | "c = dotdot"
      | (name) "c \<noteq> dotdot" "c \<noteq> []" "c \<noteq> dot" by blast
    then show ?case
    proof cases
      case 1
      with Cons show ?thesis by (simp only: walk_dot [of look at t, OF t])
    next
      case 2
      with Cons up t show ?thesis by (simp only: walk_up [of look at t, OF t])
    next
      case name
      show ?thesis
      proof (cases "look (at @ [c])")
        case None
        with Cons.prems(1) name show ?thesis by (simp add: walk_missing [of look at t, OF t] split: if_splits)
      next
        case (Some n)
        show ?thesis
        proof (cases "\<forall>tgt t. n \<noteq> Symlink tgt t")
          case True
          with Some Cons.prems name have "walk look b (at @ [c]) cs True = Found b' l"
            using walk_down [of look at t c n b cs True, OF t] by simp
          with Cons.IH down Cons.prems(2) Some True show ?thesis by blast
        next
          case False
          then obtain tgt t' where "n = Symlink tgt t'" by blast
          with Some Cons.prems(1) name have "b \<noteq> 0"
            "walk look (b - 1) (link_base tgt at) (names tgt @ cs) True = Found b' l"
            by (simp_all add: walk_link [of look at t, OF t] split: if_splits)
          moreover have "Q (link_base tgt at)" using root Cons.prems(2) by (simp add: link_base_def)
          ultimately show ?thesis using less.IH [of "b - 1"] by simp
        qed
      qed
    qed
  qed
qed

lemma walk_not_link:
  assumes "fs_wf fs" and "not_link fs at" and "walk (node_at fs) b at ns True = Found b' l"
  shows "not_link fs l"
  using assms(3,2)
proof (rule walk_invariant [rotated 3])
  show "not_link fs []" using assms(1) by (auto simp: not_link_def fs_wf_def is_dir_def)
  show "not_link fs (butlast at)" if "node_at fs at = Some (Directory t)" for at t
    using is_dir_butlast [OF assms(1), of at] that by (auto simp: not_link_def is_dir_def)
  show "not_link fs (at @ [c])"
    if "node_at fs (at @ [c]) = Some n" "\<forall>tgt t. n \<noteq> Symlink tgt t" for at c n
    using that by (simp add: not_link_def)
qed

lemma stat_not_link: "fs_wf fs \<Longrightarrow> stat fs p = Some (l, n) \<Longrightarrow> n \<noteq> Symlink tgt t"
  using walk_not_link [of fs "if rooted p then [] else cwd fs" max_links "names p"]
  by (auto simp: stat_def resolve_def not_link_def fs_wf_def is_dir_def
      split: walk_result.splits if_splits)

lemma status_not_link: "fs_wf fs \<Longrightarrow> fs_status fs p \<noteq> Some FtSymlink"
proof
  assume "fs_wf fs" and "fs_status fs p = Some FtSymlink"
  then obtain l n where "stat fs p = Some (l, n)" "type_of n = FtSymlink"
    by (auto simp: fs_status_def split: if_splits walk_result.splits option.splits)
  then obtain tgt t where "stat fs p = Some (l, Symlink tgt t)" by (cases n) auto
  with stat_not_link [OF \<open>fs_wf fs\<close>] show False by blast
qed

section \<open>Paths without links\<close>

text \<open>
  A location below directories is reached by the path that spells it: through its directories, and
  then to the node or to its place.
\<close>

lemma walk_through:
  "proper ns \<Longrightarrow> (\<And>k. k \<le> length ns \<Longrightarrow> is_dir fs (at @ take k ns)) \<Longrightarrow>
   walk (node_at fs) b at (ns @ cs) f = walk (node_at fs) b (at @ ns) cs f"
proof (induction ns arbitrary: at)
  case Nil
  then show ?case by simp
next
  case (Cons n ns)
  from Cons.prems(2) [of 0] obtain t where t: "node_at fs at = Some (Directory t)"
    by (auto simp: is_dir_def)
  from Cons.prems(2) [of 1] obtain t' where t': "node_at fs (at @ [n]) = Some (Directory t')"
    by (auto simp: is_dir_def)
  have "is_dir fs ((at @ [n]) @ take k ns)" if "k \<le> length ns" for k
    using Cons.prems(2) [of "Suc k"] that by simp
  from Cons.IH [OF _ this] Cons.prems(1) walk_down [OF t _ _ _ t', of b "ns @ cs" f] show ?case
    by (simp add: proper_name_def)
qed

lemma resolve_plain:
  assumes "fs_wf fs" and "l \<noteq> []" and "proper l" and "is_dir fs (butlast l)"
  shows "resolve fs f (abs_path l) =
     (case node_at fs l of
        None \<Rightarrow> Missing l
      | Some (Symlink tgt _) \<Rightarrow>
          (if f then walk (node_at fs) (max_links - 1) (link_base tgt (butlast l)) (names tgt) f
           else Found max_links l)
      | Some _ \<Rightarrow> Found max_links l)"
proof -
  obtain ns n where l: "l = ns @ [n]" using assms(2) by (metis append_butlast_last_id)
  with assms(3,4) have n: "n \<noteq> []" "n \<noteq> dot" "n \<noteq> dotdot" "proper ns" and dir: "is_dir fs ns"
    by (auto simp: proper_name_def)
  from dir obtain t where t: "node_at fs ns = Some (Directory t)" by (auto simp: is_dir_def)
  have "is_dir fs ([] @ take k ns)" if "k \<le> length ns" for k
    using is_dir_take [OF assms(1) dir] by simp
  from walk_through [OF n(4) this, of max_links "[n]" f]
  have "resolve fs f (abs_path l) = walk (node_at fs) max_links ns [n] f"
    by (simp add: resolve_def l)
  also have "\<dots> = (case node_at fs l of
        None \<Rightarrow> Missing l
      | Some (Symlink tgt _) \<Rightarrow>
          (if f then walk (node_at fs) (max_links - 1) (link_base tgt (butlast l)) (names tgt) f
           else Found max_links l)
      | Some _ \<Rightarrow> Found max_links l)"
    using t n by (simp add: walk.simps l max_links_def split: option.splits node.splits)
  finally show ?thesis .
qed

lemma resolve_root: "resolve fs f (abs_path []) = Found max_links []"
  by (simp add: resolve_def)

lemma resolve_node:
  assumes "fs_wf fs" and "node_at fs l = Some n" and "not_link fs l"
  shows "resolve fs f (abs_path l) = Found max_links l"
proof (cases "l = []")
  case True
  then show ?thesis by (simp add: resolve_root)
next
  case False
  with assms resolve_plain [OF assms(1) False, of f] fs_wf_node [OF assms(1,2)] show ?thesis
    by (cases n) (auto simp: not_link_def)
qed

lemma stat_node:
  "fs_wf fs \<Longrightarrow> node_at fs l = Some n \<Longrightarrow> not_link fs l \<Longrightarrow> stat fs (abs_path l) = Some (l, n)"
  by (simp add: stat_def resolve_node)

lemma is_dir_not_link: "is_dir fs l \<Longrightarrow> not_link fs l"
  by (auto simp: is_dir_def not_link_def)

lemma stat_dir: "fs_wf fs \<Longrightarrow> is_dir fs l \<Longrightarrow> \<exists>t. stat fs (abs_path l) = Some (l, Directory t)"
  using stat_node is_dir_not_link by (fastforce simp: is_dir_def)

lemma set_children: "n \<in> set (children fs l) \<longleftrightarrow> node_at fs (l @ [n]) \<noteq> None"
proof -
  have "n \<in> set (children fs l) \<longleftrightarrow> (\<exists>l' \<in> set (map fst (nodes fs)). l' \<noteq> [] \<and> butlast l' = l \<and> last l' = n)"
    by (auto simp: children_def)
  also have "\<dots> \<longleftrightarrow> l @ [n] \<in> set (map fst (nodes fs))"
    by (metis append_butlast_last_id butlast_snoc last_snoc snoc_eq_iff_butlast)
  also have "\<dots> \<longleftrightarrow> node_at fs (l @ [n]) \<noteq> None"
    unfolding node_at_def by (metis image_set map_of_eq_None_iff)
  finally show ?thesis .
qed

lemma distinct_children: "distinct (children fs l)"
proof -
  have "inj_on last {l'. l' \<noteq> [] \<and> butlast l' = l}"
    by (rule inj_onI) (metis (mono_tags, lifting) append_butlast_last_id mem_Collect_eq)
  then show ?thesis
    by (auto simp: children_def distinct_map intro: inj_on_subset)
qed

text \<open>A file system without links whose calls do not fail, and on which directories have a size.\<close>

definition plain_fs :: "fsys \<Rightarrow> bool" where
  "plain_fs fs \<longleftrightarrow> fs_wf fs \<and> fault fs = (\<lambda>_ _. False) \<and> other_size fs \<noteq> None \<and>
     (\<forall>(l, n) \<in> set (nodes fs). type_of n \<noteq> FtSymlink)"

lemma plain_not_link: "plain_fs fs \<Longrightarrow> not_link fs l"
  by (force simp: plain_fs_def not_link_def node_at_def dest!: map_of_SomeD)

lemma plain_stat:
  "plain_fs fs \<Longrightarrow> node_at fs l = Some n \<Longrightarrow> stat fs (abs_path l) = Some (l, n)"
  by (simp add: stat_node plain_not_link plain_fs_def)

lemma plain_entries:
  assumes "plain_fs fs" and "is_dir fs l"
  shows "fs_directory_entries fs (abs_path l) = map (\<lambda>n. abs_path (l @ [n])) (children fs l)"
proof -
  from assms obtain t where t: "node_at fs l = Some (Directory t)" by (auto simp: is_dir_def)
  with assms have "stat fs (abs_path l) = Some (l, Directory t)" by (simp add: plain_stat)
  moreover have child: "n \<noteq> []" "n \<noteq> dot" "n \<noteq> dotdot" "proper l"
    "path_append (abs_path l) (rel_path [n]) = abs_path (l @ [n])"
    if n: "n \<in> set (children fs l)" for n
  proof -
    from n obtain k where "node_at fs (l @ [n]) = Some k" by (auto simp: set_children)
    with assms(1) fs_wf_node(1) [of fs "l @ [n]" k] have p: "proper (l @ [n])"
      by (simp add: plain_fs_def)
    then show "n \<noteq> []" "n \<noteq> dot" "n \<noteq> dotdot" "proper l" by (auto simp: proper_name_def)
    from p show "path_append (abs_path l) (rel_path [n]) = abs_path (l @ [n])" by simp
  qed
  ultimately show ?thesis using assms(1)
    by (simp add: fs_directory_entries_def plain_fs_def filter_True cong: map_cong)
qed

end
