(* ===== verification/FileInfoMsg.thy ===== *)
theory FileInfoMsg
  imports Paths
begin

text \<open>
  The messages of the control stream (\<open>fileinfo.capnp\<close>), the buffer they are serialized into
  (\<open>vector_stream.h\<close>) and the conversion of file times to the seconds a message carries
  (\<open>files.cpp\<close>). Cap'n Proto itself is a parameter: \<open>packed_writes\<close> gives the pieces
  \<open>writePackedMessage\<close> hands to the output stream, \<open>unpack\<close> what \<open>PackedMessageReader\<close>
  reads back, \<open>None\<close> for a message it throws on.
\<close>

section \<open>File infos\<close>

datatype FileType = FILE | DIR | FILESYMLINK | DIRSYMLINK

record FileInfo =
  getSize :: u64
  getModifiedTime :: u64
  getPath :: string
  getType :: FileType
  getLinkPath :: string
  getId :: u64

text \<open>The state of a freshly initialised message: every field has its default.\<close>

definition initRoot :: FileInfo where
  "initRoot = \<lparr>getSize = 0, getModifiedTime = 0, getPath = [], getType = FILE, getLinkPath = [],
     getId = 0\<rparr>"

section \<open>Serialization\<close>

record capnp =
  packed_writes :: "FileInfo \<Rightarrow> bytes list"
  unpack :: "bytes \<Rightarrow> FileInfo option"

text \<open>\<open>VectorStream::write\<close> and \<open>getWriteBuffer\<close>, which always offers no space.\<close>

definition vs_write :: "bytes option \<Rightarrow> bytes \<Rightarrow> bytes" where
  "vs_write buffer vec = (case buffer of None \<Rightarrow> vec | Some bs \<Rightarrow> vec @ bs)"

definition vs_getWriteBuffer :: "bytes \<Rightarrow> bytes" where
  "vs_getWriteBuffer vec = []"

definition serialize :: "capnp \<Rightarrow> FileInfo \<Rightarrow> bytes" where
  "serialize c fi = fold (\<lambda>bs. vs_write (Some bs)) (packed_writes c fi) []"

text \<open>Cap'n Proto's documented behaviour: reading back what was written gives the message.\<close>

definition capnp_ok :: "capnp \<Rightarrow> bool" where
  "capnp_ok c \<longleftrightarrow> (\<forall>fi. unpack c (concat (packed_writes c fi)) = Some fi)"

lemma fold_vs_write: "fold (\<lambda>bs. vs_write (Some bs)) ws vec = vec @ concat ws"
  by (induction ws arbitrary: vec) (simp_all add: vs_write_def)

lemma serialize_concat: "serialize c fi = concat (packed_writes c fi)"
  by (simp add: serialize_def fold_vs_write)

lemma unpack_serialize: "capnp_ok c \<Longrightarrow> unpack c (serialize c fi) = Some fi"
  by (simp add: capnp_ok_def serialize_concat)

section \<open>Times\<close>

text \<open>
  The implementation's \<open>file_clock\<close>: its epoch in seconds of \<open>sys_time\<close>, its ticks per second,
  and the leap seconds of the time zone database as the counts of the inserted seconds in
  \<open>utc_time\<close>, in ascending order. \<open>utc_clock::to_sys\<close> does not count inserted seconds and
  \<open>from_sys\<close> counts those inserted up to the given time.
\<close>

record clock =
  clk_epoch :: int
  clk_rate :: int
  clk_leaps :: "int list"

definition utc_to_sys :: "clock \<Rightarrow> int \<Rightarrow> int" where
  "utc_to_sys c u = u - int (length (filter (\<lambda>l. l \<le> u) (clk_leaps c)))"

definition leaps_until :: "clock \<Rightarrow> int \<Rightarrow> nat" where
  "leaps_until c ticks =
     length (filter (\<lambda>(i, l). (l - int i) * clk_rate c \<le> ticks) (enumerate 0 (clk_leaps c)))"

text \<open>\<open>chrono::file_clock::from_utc\<close> of a time in seconds, in ticks of the file clock.\<close>

definition from_utc :: "clock \<Rightarrow> int \<Rightarrow> int" where
  "from_utc c u = (utc_to_sys c u - clk_epoch c) * clk_rate c"

text \<open>
  \<open>time_point_cast<seconds> (file_clock::to_utc (t))\<close>: the cast drops the fraction, towards zero.
\<close>

definition to_utc_seconds :: "clock \<Rightarrow> int \<Rightarrow> int" where
  "to_utc_seconds c t =
     (let sys = t + clk_epoch c * clk_rate c;
          utc = sys + int (leaps_until c sys) * clk_rate c
      in sgn utc * (\<bar>utc\<bar> div clk_rate c))"

text \<open>\<open>chrono::seconds (File.getModifiedTime ())\<close>: the count becomes a signed 64-bit value.\<close>

definition message_time :: "FileInfo \<Rightarrow> int" where
  "message_time fi = sint (getModifiedTime fi)"

definition clock_ok :: "clock \<Rightarrow> bool" where
  "clock_ok c \<longleftrightarrow> 0 < clk_rate c \<and> sorted_wrt (<) (clk_leaps c)"

text \<open>In an ascending table the leap seconds counted by \<open>leaps_until\<close> are an initial part.\<close>

lemma count_leaps:
  fixes r :: int
  assumes "0 < r" and "sorted_wrt (<) ls"
  shows "filter (\<lambda>l. l \<le> s + int k + int (length (filter (\<lambda>(i, l). (l - int i) * r \<le> s * r) (enumerate k ls)))) ls
       = map snd (filter (\<lambda>(i, l). (l - int i) * r \<le> s * r) (enumerate k ls))"
  using assms(2)
proof (induction ls arbitrary: k)
  case Nil
  then show ?case by simp
next
  case (Cons x xs)
  let ?P = "\<lambda>(i, l). (l - int i) * r \<le> s * r"
  have iff: "(l - int i) * r \<le> s * r \<longleftrightarrow> l \<le> s + int i" for l i
    by (simp only: mult_le_cancel_right_pos [OF assms(1)]) linarith
  from Cons.prems have sorted: "sorted_wrt (<) xs" and above: "\<forall>y \<in> set xs. x < y" by simp_all
  show ?case
  proof (cases "x \<le> s + int k")
    case True
    have "s + int k + int (Suc n) = s + int (Suc k) + int n" for n by simp
    with True Cons.IH [OF sorted, of "Suc k"] show ?thesis by (simp add: iff add_ac)
  next
    case False
    have none: "\<not> y \<le> s + int i" if "(i, y) \<in> set (enumerate (Suc k) xs)" for i y
    proof -
      define j where "j = i - Suc k"
      from that have j: "j < length xs" "y = xs ! j" "i = Suc k + j"
        by (auto simp: in_set_enumerate_eq j_def)
      from sorted have "x + int (Suc j) \<le> xs ! j" if "j < length xs" for j
        using that
      proof (induction j)
        case 0
        then have "xs ! 0 \<in> set xs" by simp
        with above have "x < xs ! 0" by blast
        then show ?case by simp
      next
        case (Suc j)
        then have "xs ! j < xs ! Suc j" by (simp add: sorted_wrt_nth_less)
        with Suc show ?case by simp
      qed
      with j False show ?thesis by force
    qed
    then have "filter ?P (enumerate (Suc k) xs) = []"
      by (auto simp: filter_empty_conv iff)
    moreover have "\<forall>y \<in> set xs. \<not> y \<le> s + int k" using False above by force
    ultimately show ?thesis using False by (simp add: iff filter_empty_conv)
  qed
qed

lemma from_to_utc_seconds:
  assumes "clock_ok c" and "0 \<le> t + clk_epoch c * clk_rate c"
  shows "from_utc c (to_utc_seconds c t) = t - (t + clk_epoch c * clk_rate c) mod clk_rate c"
proof -
  let ?r = "clk_rate c"
  define sys where "sys = t + clk_epoch c * ?r"
  define S where "S = sys div ?r"
  define n where "n = int (leaps_until c sys)"
  from assms have r: "0 < ?r" by (simp add: clock_ok_def)
  have split: "sys = S * ?r + sys mod ?r" by (simp add: S_def)
  have cut: "x * ?r \<le> sys \<longleftrightarrow> x * ?r \<le> S * ?r" for x
  proof -
    have "0 \<le> sys mod ?r" using r by simp
    with split have "S * ?r \<le> sys" by linarith
    moreover have "x * ?r \<le> sys \<Longrightarrow> x \<le> S"
      using zdiv_mono1 [of "x * ?r" sys ?r] r by (simp add: S_def)
    ultimately show ?thesis using r by (meson mult_le_cancel_right_pos order_trans)
  qed
  have "(sys + n * ?r) div ?r = S + n" using r by (simp add: S_def)
  moreover have "0 \<le> sys + n * ?r" using assms(2) r by (simp add: sys_def n_def)
  ultimately have sec: "to_utc_seconds c t = S + n"
    by (cases "sys + n * ?r = 0")
      (simp_all add: to_utc_seconds_def Let_def n_def sys_def [symmetric])
  have "n = int (length (filter (\<lambda>l. l \<le> S + n) (clk_leaps c)))"
    using arg_cong [OF count_leaps [of ?r "clk_leaps c" S 0], of length] assms(1)
    by (simp add: clock_ok_def n_def leaps_until_def cut)
  with sec have "utc_to_sys c (to_utc_seconds c t) = S" by (simp add: utc_to_sys_def)
  then have "from_utc c (to_utc_seconds c t) = S * ?r - clk_epoch c * ?r"
    by (simp add: from_utc_def left_diff_distrib)
  with split have "from_utc c (to_utc_seconds c t) = t - sys mod ?r" by (simp add: sys_def)
  then show ?thesis by (simp add: sys_def)
qed

text \<open>
  A file time that the client puts into a message, cut to whole seconds, comes back on the
  server as the same file time with its fraction of a second dropped: converting to seconds of UTC
  and back crosses the leap seconds consistently, and the server never gets a later time than the
  client has.
\<close>

theorem file_time_roundtrip:
  assumes "clock_ok c" and "0 \<le> t + clk_epoch c * clk_rate c"
  shows "from_utc c (to_utc_seconds c t) = t - (t + clk_epoch c * clk_rate c) mod clk_rate c"
  using assms by (rule from_to_utc_seconds)

text \<open>The clock of a system with two leap seconds, ten ticks per second, and a time after them.\<close>

theorem file_time_roundtrip_witness:
  "from_utc \<lparr>clk_epoch = 5, clk_rate = 10, clk_leaps = [3, 8]\<rparr>
     (to_utc_seconds \<lparr>clk_epoch = 5, clk_rate = 10, clk_leaps = [3, 8]\<rparr> 57) = 50"
  using file_time_roundtrip [of "\<lparr>clk_epoch = 5, clk_rate = 10, clk_leaps = [3, 8]\<rparr>" 57]
  by (simp add: clock_ok_def)

section \<open>A codec\<close>

text \<open>
  A simple format that satisfies the law of Cap'n Proto: fixed-width numbers, a byte for the type, and
  texts whose characters are each announced by a 1.
\<close>

fun put_text :: "string \<Rightarrow> bytes" where
  "put_text [] = [0]"
| "put_text (c # cs) = 1 # of_nat (of_char c) # put_text cs"

fun get_text :: "bytes \<Rightarrow> (string \<times> bytes) option" where
  "get_text (x # y # bs) =
     (if x = 0 then Some ([], y # bs) else map_option (apfst (Cons (char_of (unat y)))) (get_text bs))"
| "get_text [x] = (if x = 0 then Some ([], []) else None)"
| "get_text [] = None"

lemma get_put_text: "get_text (put_text s @ bs) = Some (s, bs)"
proof (induction s)
  case Nil
  show ?case by (cases bs) simp_all
next
  case (Cons c s)
  have "unat (of_nat (of_char c) :: u8) = of_char c"
    using of_char_mod_256 [of c, where ?'a = nat] by (simp add: unat_of_nat)
  then show ?case using Cons by simp
qed

fun type_code :: "FileType \<Rightarrow> u8" where
  "type_code FILE = 0" | "type_code DIR = 1" | "type_code FILESYMLINK = 2" | "type_code DIRSYMLINK = 3"

definition code_type :: "u8 \<Rightarrow> FileType" where
  "code_type x = (if x = 0 then FILE else if x = 1 then DIR else if x = 2 then FILESYMLINK else DIRSYMLINK)"

definition toy_capnp :: capnp where
  "toy_capnp = \<lparr>
     packed_writes = (\<lambda>fi. [enc_u64 (getSize fi) @ enc_u64 (getModifiedTime fi) @ enc_u64 (getId fi),
       type_code (getType fi) # put_text (getPath fi), put_text (getLinkPath fi)]),
     unpack = (\<lambda>bs.
       case get_text (drop 25 bs) of None \<Rightarrow> None
       | Some (p, r) \<Rightarrow> (case get_text r of None \<Rightarrow> None
         | Some (l, _) \<Rightarrow> Some \<lparr>getSize = dec_u64 (take 8 bs), getModifiedTime = dec_u64 (take 8 (drop 8 bs)),
             getPath = p, getType = code_type (bs ! 24), getLinkPath = l, getId = dec_u64 (take 8 (drop 16 bs))\<rparr>))\<rparr>"

lemma toy_capnp_ok: "capnp_ok toy_capnp"
proof -
  have 1: "get_text (put_text s) = Some (s, [])" for s using get_put_text [of s "[]"] by simp
  have 2: "code_type (type_code x) = x" for x by (cases x) (simp_all add: code_type_def)
  show ?thesis
    by (simp add: capnp_ok_def toy_capnp_def id64.dec_enc get_put_text 1 2 nth_append)
qed

end
