(* ===== verification/Traversal.thy ===== *)
theory Traversal
  imports Prelude
begin

text \<open>
  The two loops with which \<open>files.cpp\<close> walks a directory tree, over any function that lists one
  directory: the queue of \<open>FindFiles\<close> and the rounds of \<open>FindFilesParallel\<close>. A loop may not
  end for an arbitrary listing function, so both are partial. The locale states what makes them
  end, a rank that goes down from a directory to its subdirectories, and gives their common result.
\<close>

section \<open>The loops\<close>

text \<open>
  Listing a directory \<open>d\<close> in the state \<open>s\<close> gives its subdirectories, whether all went well, and
  the next state.
\<close>

type_synonym ('d, 's) lister = "'d \<Rightarrow> 's \<Rightarrow> 'd list \<times> bool \<times> 's"

partial_function (option) queue_loop ::
  "('d, 's) lister \<Rightarrow> 'd list \<Rightarrow> bool \<Rightarrow> 's \<Rightarrow> (bool \<times> 's) option"
where
  "queue_loop expand UnexploredDirs Result s =
     (case UnexploredDirs of
        [] \<Rightarrow> Some (Result, s)
      | CurrentDirectory # rest \<Rightarrow>
          (case expand CurrentDirectory s of
             (Directories, DirSuccess, s') \<Rightarrow>
               queue_loop expand (rest @ Directories) (if DirSuccess then Result else DirSuccess) s'))"

text \<open>
  One round of the parallel search: every directory of the round is listed and the results are
  collected in the order of the round. The tasks are run one after the other.
\<close>

fun expand_round :: "('d, 's) lister \<Rightarrow> 'd list \<Rightarrow> bool \<Rightarrow> 's \<Rightarrow> 'd list \<times> bool \<times> 's" where
  "expand_round expand [] Success s = ([], Success, s)"
| "expand_round expand (d # ds) Success s =
     (case expand d s of
        (ResultDirs, ResultSuccess, s') \<Rightarrow>
          (case expand_round expand ds (if ResultSuccess then Success else ResultSuccess) s' of
             (Directories, Success', s'') \<Rightarrow> (ResultDirs @ Directories, Success', s'')))"

partial_function (option) round_loop ::
  "('d, 's) lister \<Rightarrow> 'd list \<Rightarrow> bool \<Rightarrow> 's \<Rightarrow> (bool \<times> 's) option"
where
  "round_loop expand UnexploredDirs Success s =
     (if UnexploredDirs = [] then Some (Success, s)
      else
        (case expand_round expand UnexploredDirs Success s of
           (Directories, Success', s') \<Rightarrow> round_loop expand Directories Success' s'))"

declare queue_loop.simps [code] round_loop.simps [code]

section \<open>Levels\<close>

text \<open>The directories \<open>k\<close> levels below \<open>ds\<close>, and all of them down to a depth, level by level.\<close>

fun level :: "('d \<Rightarrow> 'd list) \<Rightarrow> nat \<Rightarrow> 'd list \<Rightarrow> 'd list" where
  "level dirs 0 ds = ds"
| "level dirs (Suc k) ds = level dirs k (concat (map dirs ds))"

fun levels :: "('d \<Rightarrow> 'd list) \<Rightarrow> nat \<Rightarrow> 'd list \<Rightarrow> 'd list" where
  "levels dirs 0 ds = []"
| "levels dirs (Suc k) ds = ds @ levels dirs k (concat (map dirs ds))"

lemma levels_start: "level dirs n ds = [] \<Longrightarrow> set ds \<subseteq> set (levels dirs n ds)"
  by (cases n) auto

text \<open>What the loops visit is closed under subdirectories.\<close>

lemma levels_closed:
  "level dirs n ds = [] \<Longrightarrow> d \<in> set (levels dirs n ds) \<Longrightarrow> d' \<in> set (dirs d) \<Longrightarrow>
   d' \<in> set (levels dirs n ds)"
proof (induction n arbitrary: ds)
  case 0
  then show ?case by simp
next
  case (Suc n)
  show ?case
  proof (cases "d \<in> set ds")
    case True
    with Suc.prems(3) have "d' \<in> set (concat (map dirs ds))" by auto
    moreover have "set (concat (map dirs ds)) \<subseteq> set (levels dirs n (concat (map dirs ds)))"
      using Suc.prems(1) by (intro levels_start) simp
    ultimately have "d' \<in> set (levels dirs n (concat (map dirs ds)))" by blast
    then show ?thesis by simp
  next
    case False
    with Suc show ?thesis by auto
  qed
qed

lemma levels_invariant:
  "\<forall>d \<in> set ds. P d \<Longrightarrow> (\<And>d d'. P d \<Longrightarrow> d' \<in> set (dirs d) \<Longrightarrow> P d') \<Longrightarrow>
   \<forall>d \<in> set (levels dirs n ds). P d"
proof (induction n arbitrary: ds)
  case 0
  then show ?case by simp
next
  case (Suc n)
  have "\<forall>d \<in> set (concat (map dirs ds)). P d" using Suc.prems by auto
  from Suc.IH [OF this] Suc.prems show ?case by auto
qed

text \<open>In a tree every directory is visited once.\<close>

lemma level_set_depth:
  fixes depth :: "'d \<Rightarrow> nat"
  assumes "\<And>d d'. d' \<in> set (dirs d) \<Longrightarrow> depth d' = Suc (depth d)"
  shows "\<forall>d \<in> set ds. m \<le> depth d \<Longrightarrow> \<forall>d \<in> set (levels dirs n ds). m \<le> depth d"
  using assms by (intro levels_invariant) auto

lemma distinct_concat_map:
  assumes "distinct ds" and "\<And>d. distinct (f d)"
    and "\<And>d d'. d \<noteq> d' \<Longrightarrow> set (f d) \<inter> set (f d') = {}"
  shows "distinct (concat (map f ds))"
  using assms(1)
proof (induction ds)
  case Nil
  then show ?case by simp
next
  case (Cons d ds)
  have "set (f d) \<inter> set (f d') = {}" if "d' \<in> set ds" for d'
    using Cons.prems that by (intro assms(3)) auto
  with Cons assms(2) show ?case by auto
qed

lemma levels_distinct:
  fixes depth :: "'d \<Rightarrow> nat"
  assumes deeper: "\<And>d d'. d' \<in> set (dirs d) \<Longrightarrow> depth d' = Suc (depth d)"
    and each: "\<And>d. distinct (dirs d)"
    and apart: "\<And>d d'. d \<noteq> d' \<Longrightarrow> set (dirs d) \<inter> set (dirs d') = {}"
  shows "distinct ds \<Longrightarrow> \<forall>d \<in> set ds. depth d = m \<Longrightarrow> distinct (levels dirs n ds)"
proof (induction n arbitrary: ds m)
  case 0
  then show ?case by simp
next
  case (Suc n)
  let ?next = "concat (map dirs ds)"
  have next_depth: "\<forall>d \<in> set ?next. depth d = Suc m" using Suc.prems(2) deeper by auto
  have "distinct ?next" using Suc.prems(1) each apart by (rule distinct_concat_map)
  from Suc.IH [OF this next_depth] have "distinct (levels dirs n ?next)" .
  moreover have "\<forall>d \<in> set (levels dirs n ?next). Suc m \<le> depth d"
    using level_set_depth [of dirs depth ?next "Suc m" n] deeper next_depth by simp
  ultimately show ?case using Suc.prems by fastforce
qed

locale traversal =
  fixes expand :: "('d, 's) lister"
    and dirs_of :: "'d \<Rightarrow> 'd list"
    and ok_of :: "'d \<Rightarrow> bool"
    and emit :: "'d \<Rightarrow> 's \<Rightarrow> 's"
    and rank :: "'d \<Rightarrow> nat"
  assumes expand_eq: "expand d s = (dirs_of d, ok_of d, emit d s)"
    and rank_decreases: "d' \<in> set (dirs_of d) \<Longrightarrow> rank d' < rank d"
begin

lemma queue_loop_Nil: "queue_loop expand [] r s = Some (r, s)"
  by (simp add: queue_loop.simps)

lemma queue_loop_Cons:
  "queue_loop expand (d # ds) r s = queue_loop expand (ds @ dirs_of d) (r \<and> ok_of d) (emit d s)"
  by (subst queue_loop.simps) (simp add: expand_eq)

lemma queue_loop_level:
  "queue_loop expand (ds @ es) r s =
     queue_loop expand (es @ concat (map dirs_of ds)) (r \<and> list_all ok_of ds) (fold emit ds s)"
proof (induction ds arbitrary: es r s)
  case Nil
  then show ?case by simp
next
  case (Cons d ds)
  then show ?case by (simp add: queue_loop_Cons conj_assoc)
qed

lemma expand_round_eq:
  "expand_round expand ds r s =
     (concat (map dirs_of ds), r \<and> list_all ok_of ds, fold emit ds s)"
  by (induction ds arbitrary: r s) (auto simp: expand_eq)

lemma rank_level: "d \<in> set (level dirs_of k ds) \<Longrightarrow> \<forall>e \<in> set ds. rank e < n \<Longrightarrow> rank d + k < n"
proof (induction k arbitrary: ds n)
  case 0
  then show ?case by simp
next
  case (Suc k)
  have "\<forall>e \<in> set (concat (map dirs_of ds)). rank e < n - 1"
    using Suc.prems(2) rank_decreases by fastforce
  with Suc show ?case by fastforce
qed

lemma levels_exhausted: "\<forall>e \<in> set ds. rank e < n \<Longrightarrow> level dirs_of n ds = []"
  using rank_level [where k = n and ds = ds and n = n] by (metis add_lessD1 last_in_set not_add_less2)

lemma queue_loop_levels:
  "level dirs_of n ds = [] \<Longrightarrow>
   queue_loop expand ds r s =
     Some (r \<and> list_all ok_of (levels dirs_of n ds), fold emit (levels dirs_of n ds) s)"
proof (induction n arbitrary: ds r s)
  case 0
  then show ?case by (simp add: queue_loop_Nil)
next
  case (Suc n)
  then show ?case using queue_loop_level [of ds "[]" r s] by simp
qed

lemma round_loop_levels:
  "level dirs_of n ds = [] \<Longrightarrow>
   round_loop expand ds r s =
     Some (r \<and> list_all ok_of (levels dirs_of n ds), fold emit (levels dirs_of n ds) s)"
proof (induction n arbitrary: ds r s)
  case 0
  then show ?case by (simp add: round_loop.simps)
next
  case (Suc n)
  show ?case
  proof (cases "ds = []")
    case True
    have "levels dirs_of m [] = []" for m by (induction m) auto
    with True show ?thesis by (simp add: round_loop.simps)
  next
    case False
    with Suc show ?thesis by (subst round_loop.simps) (simp add: expand_round_eq)
  qed
qed

lemma rank_bound: "\<exists>n. \<forall>e \<in> set ds. rank e < n"
  by (metis List.finite_set finite_imageI finite_nat_set_iff_bounded image_eqI)

text \<open>Both loops end, with the same result: the directories level by level, each listed once.\<close>

lemma loops_terminate:
  "\<exists>n. queue_loop expand ds r s =
         Some (r \<and> list_all ok_of (levels dirs_of n ds), fold emit (levels dirs_of n ds) s) \<and>
       round_loop expand ds r s = queue_loop expand ds r s \<and> level dirs_of n ds = []"
  using rank_bound [of ds] levels_exhausted queue_loop_levels round_loop_levels by metis

end

end
