(* ===== verification/Files.thy ===== *)
theory Files
  imports FileSystem FileInfoMsg Traversal "HOL-Library.Sublist"
begin

text \<open>
  \<open>files.cpp\<close>: which received file infos ask for an update of the destination
  (\<open>DoesFileNeedUpdate\<close>), how a directory entry becomes a serialized file info
  (\<open>DirItemToFileInfo\<close>, with the global counter \<open>FileId\<close>), and the search of the source tree
  (\<open>ProcessFolder\<close>, \<open>FindFiles\<close>, \<open>FindFilesParallel\<close>).
\<close>

record files_env =
  env_fs :: fsys
  env_clock :: clock
  env_capnp :: capnp

section \<open>Deciding on updates\<close>

text \<open>
  A set error code ends the function with \<open>false\<close>, except that a missing file asks for an
  update. The comparison of the types is the \<open>switch\<close> on \<open>Status.type ()\<close>; its result says
  whether the function goes on.
\<close>

definition type_matches :: "fsys \<Rightarrow> path \<Rightarrow> file_type \<Rightarrow> FileType \<Rightarrow> bool" where
  "type_matches fs FullPath status type =
     (case status of
        FtRegular \<Rightarrow> type = FILE
      | FtDirectory \<Rightarrow> type = DIR
      | FtSymlink \<Rightarrow>
          (case fs_read_symlink fs FullPath of
             None \<Rightarrow> False
           | Some LinkPath \<Rightarrow>
               (case fs_status fs LinkPath of
                  None \<Rightarrow> False
                | Some LinkStatus \<Rightarrow>
                    \<not> (LinkStatus = FtDirectory \<and> type \<noteq> DIRSYMLINK) \<and>
                    \<not> (LinkStatus = FtRegular \<and> type \<noteq> FILESYMLINK)))
      | _ \<Rightarrow> False)"

definition DoesFileNeedUpdate :: "clock \<Rightarrow> fsys \<Rightarrow> path \<Rightarrow> FileInfo \<Rightarrow> bool" where
  "DoesFileNeedUpdate clk fs Destination File =
     (let FullPath = path_append Destination (path_of (c_str (getPath File))) in
      case fs_exists fs FullPath of
        None \<Rightarrow> False
      | Some False \<Rightarrow> True
      | Some True \<Rightarrow>
          (case fs_status fs FullPath of
             None \<Rightarrow> False
           | Some Status \<Rightarrow>
               if \<not> type_matches fs FullPath Status (getType File) then False
               else
                 (case fs_last_write_time fs FullPath of
                    None \<Rightarrow> False
                  | Some ModifiedTime \<Rightarrow>
                      if from_utc clk (message_time File) > ModifiedTime then True
                      else if getType File \<noteq> FILE then False
                      else
                        (case fs_file_size fs FullPath of
                           None \<Rightarrow> False
                         | Some Size \<Rightarrow> Size \<noteq> unat (getSize File)))))"

section \<open>Directory entries\<close>

text \<open>
  The state of a search: the global counter and the state of the callback, which is given the id
  and the serialized info.
\<close>

type_synonym 'c scan_state = "u64 \<times> 'c"
type_synonym 'c callback = "u64 \<Rightarrow> bytes \<Rightarrow> 'c \<Rightarrow> 'c"

text \<open>\<open>file_time_type::min ()\<close>, the least time of the 64-bit clock.\<close>

definition file_time_min :: int where
  "file_time_min = - (2 ^ 63)"

definition entry_info ::
  "files_env \<Rightarrow> path \<Rightarrow> path \<Rightarrow> FileType \<Rightarrow> path \<Rightarrow> nat \<Rightarrow> u64 \<Rightarrow> FileInfo"
where
  "entry_info env Root DirItem type LinkPath FileSize NewId =
     (let FileTime = (case fs_last_write_time (env_fs env) DirItem of
                        None \<Rightarrow> file_time_min
                      | Some t \<Rightarrow> t)
      in initRoot
           \<lparr>getType := type,
            getSize := of_nat FileSize,
            getModifiedTime := of_int (to_utc_seconds (env_clock env) FileTime),
            getPath := c_str (generic_string (lexically_relative DirItem Root)),
            getId := NewId,
            getLinkPath :=
              (if (type = FILESYMLINK \<or> type = DIRSYMLINK) \<and> generic_string LinkPath \<noteq> []
               then generic_string LinkPath else [])\<rparr>)"

definition DirItemToFileInfo ::
  "files_env \<Rightarrow> 'c callback \<Rightarrow> path \<Rightarrow> path \<Rightarrow> FileType \<Rightarrow> path \<Rightarrow> 'c scan_state \<Rightarrow> 'c scan_state"
where
  "DirItemToFileInfo env Callback Root DirItem type LinkPath st =
     (case fs_file_size (env_fs env) DirItem of
        None \<Rightarrow> st
      | Some FileSize \<Rightarrow>
          (case st of
             (FileId, c) \<Rightarrow>
               let NewId = FileId + 1
               in (NewId, Callback NewId
                         (serialize (env_capnp env)
                            (entry_info env Root DirItem type LinkPath FileSize NewId)) c)))"

abbreviation no_link :: path where
  "no_link \<equiv> rel_path []"

text \<open>
  The loop over the entries of one folder. The flag is \<open>Error\<close> as the previous entry left it: the
  loop tests it first, and only a later call would clear it.
\<close>

fun process_entries ::
  "files_env \<Rightarrow> 'c callback \<Rightarrow> path \<Rightarrow> path list \<Rightarrow> bool \<Rightarrow> 'c scan_state \<Rightarrow>
   path list \<times> bool \<times> 'c scan_state"
where
  "process_entries env cb Root [] Error st = ([], True, st)"
| "process_entries env cb Root (DirItem # items) Error st =
     (if Error then ([], False, st)
      else
        (case fs_status (env_fs env) DirItem of
           None \<Rightarrow>
             (case process_entries env cb Root items True st of (ds, _, st') \<Rightarrow> (ds, False, st'))
         | Some FtDirectory \<Rightarrow>
             (case process_entries env cb Root items False
                     (DirItemToFileInfo env cb Root DirItem DIR no_link st) of
                (ds, ok, st') \<Rightarrow> (DirItem # ds, ok, st'))
         | Some FtRegular \<Rightarrow>
             process_entries env cb Root items False
               (DirItemToFileInfo env cb Root DirItem FILE no_link st)
         | Some FtSymlink \<Rightarrow>
             (case fs_read_symlink (env_fs env) DirItem of
                None \<Rightarrow>
                  (case process_entries env cb Root items True st of (ds, _, st') \<Rightarrow> (ds, False, st'))
              | Some LinkPath \<Rightarrow>
                  (case fs_status (env_fs env) LinkPath of
                     None \<Rightarrow>
                       (case process_entries env cb Root items True st of
                          (ds, _, st') \<Rightarrow> (ds, False, st'))
                   | Some FtDirectory \<Rightarrow>
                       process_entries env cb Root items False
                         (DirItemToFileInfo env cb Root DirItem DIRSYMLINK LinkPath st)
                   | Some FtRegular \<Rightarrow>
                       process_entries env cb Root items False
                         (DirItemToFileInfo env cb Root DirItem FILESYMLINK LinkPath st)
                   | Some _ \<Rightarrow> process_entries env cb Root items False st))
         | Some _ \<Rightarrow> process_entries env cb Root items False st))"

definition ProcessFolder ::
  "files_env \<Rightarrow> 'c callback \<Rightarrow> path \<Rightarrow> (path, 'c scan_state) lister"
where
  "ProcessFolder env cb Root Parent st =
     process_entries env cb Root (fs_directory_entries (env_fs env) Parent) False st"

section \<open>The search\<close>

text \<open>
  The checks both searches start with: the canonical root and the directory the reported paths are
  relative to.
\<close>

definition search_roots :: "fsys \<Rightarrow> string \<Rightarrow> (path \<times> path) option" where
  "search_roots fs Root =
     (let RootPath = path_of Root in
      if fs_exists fs RootPath \<noteq> Some True \<or> fs_status fs RootPath \<noteq> Some FtDirectory then None
      else
        (case fs_canonical fs RootPath of
           None \<Rightarrow> None
         | Some CanonicalRoot \<Rightarrow>
             Some (CanonicalRoot,
               if \<not> has_stem RootPath then CanonicalRoot else parent_path CanonicalRoot)))"

definition FindFiles ::
  "files_env \<Rightarrow> 'c callback \<Rightarrow> string \<Rightarrow> 'c scan_state \<Rightarrow> (bool \<times> 'c scan_state) option"
where
  "FindFiles env cb Root st =
     (case search_roots (env_fs env) Root of
        None \<Rightarrow> Some (False, st)
      | Some (CanonicalRoot, LexicalRoot) \<Rightarrow>
          queue_loop (ProcessFolder env cb LexicalRoot) [CanonicalRoot] True
            (if has_stem (path_of Root)
             then DirItemToFileInfo env cb LexicalRoot CanonicalRoot DIR no_link st
             else st))"

definition FindFilesParallel ::
  "files_env \<Rightarrow> 'c callback \<Rightarrow> string \<Rightarrow> 'c scan_state \<Rightarrow> (bool \<times> 'c scan_state) option"
where
  "FindFilesParallel env cb Root st =
     (case search_roots (env_fs env) Root of
        None \<Rightarrow> Some (False, st)
      | Some (CanonicalRoot, LexicalRoot) \<Rightarrow>
          round_loop (ProcessFolder env cb LexicalRoot) [CanonicalRoot] True st)"

section \<open>What the loop over a folder does\<close>

text \<open>
  An entry is classified: \<open>None\<close> when a call on it sets the error code, otherwise the kind it is
  reported as, if any. The loop reports the entries up to the first error and lists the directories
  among them.
\<close>

definition classify :: "fsys \<Rightarrow> path \<Rightarrow> (FileType \<times> path) option option" where
  "classify fs item =
     (case fs_status fs item of
        None \<Rightarrow> None
      | Some FtDirectory \<Rightarrow> Some (Some (DIR, no_link))
      | Some FtRegular \<Rightarrow> Some (Some (FILE, no_link))
      | Some FtSymlink \<Rightarrow>
          (case fs_read_symlink fs item of
             None \<Rightarrow> None
           | Some LinkPath \<Rightarrow>
               (case fs_status fs LinkPath of
                  None \<Rightarrow> None
                | Some FtDirectory \<Rightarrow> Some (Some (DIRSYMLINK, LinkPath))
                | Some FtRegular \<Rightarrow> Some (Some (FILESYMLINK, LinkPath))
                | Some _ \<Rightarrow> Some None))
      | Some _ \<Rightarrow> Some None)"

definition scanned :: "fsys \<Rightarrow> path list \<Rightarrow> path list" where
  "scanned fs items = takeWhile (\<lambda>i. classify fs i \<noteq> None) items"

definition report :: "files_env \<Rightarrow> 'c callback \<Rightarrow> path \<Rightarrow> path \<Rightarrow> 'c scan_state \<Rightarrow> 'c scan_state" where
  "report env cb Root item st =
     (case classify (env_fs env) item of
        Some (Some (type, link)) \<Rightarrow> DirItemToFileInfo env cb Root item type link st
      | _ \<Rightarrow> st)"

definition subdirs :: "fsys \<Rightarrow> path list \<Rightarrow> path list" where
  "subdirs fs items = filter (\<lambda>i. fs_status fs i = Some FtDirectory) (scanned fs items)"

lemma process_entries_error: "process_entries env cb Root items True st = ([], items = [], st)"
  by (cases items) auto

lemma process_entries_spec:
  "process_entries env cb Root items False st =
     (subdirs (env_fs env) items, list_all (\<lambda>i. classify (env_fs env) i \<noteq> None) items,
      fold (report env cb Root) (scanned (env_fs env) items) st)"
proof (induction items arbitrary: st)
  case Nil
  then show ?case by (simp add: subdirs_def scanned_def)
next
  case (Cons i items)
  note defs = subdirs_def scanned_def classify_def report_def process_entries_error
  show ?case
  proof (cases "fs_status (env_fs env) i")
    case None
    then show ?thesis by (simp add: defs)
  next
    case (Some ft)
    note status = Some
    show ?thesis
    proof (cases "ft = FtSymlink")
      case True
      show ?thesis
      proof (cases "fs_read_symlink (env_fs env) i")
        case None
        then show ?thesis by (simp add: defs status True)
      next
        case (Some lp)
        note link = Some
        show ?thesis
        proof (cases "fs_status (env_fs env) lp")
          case None
          then show ?thesis by (simp add: defs status True link)
        next
          case (Some lt)
          then show ?thesis by (cases lt) (simp_all add: defs status True link Cons.IH)
        qed
      qed
    next
      case False
      then show ?thesis by (cases ft) (simp_all add: defs status Cons.IH)
    qed
  qed
qed

definition folder_dirs :: "fsys \<Rightarrow> path \<Rightarrow> path list" where
  "folder_dirs fs d = subdirs fs (fs_directory_entries fs d)"

definition folder_ok :: "fsys \<Rightarrow> path \<Rightarrow> bool" where
  "folder_ok fs d = list_all (\<lambda>i. classify fs i \<noteq> None) (fs_directory_entries fs d)"

definition report_folder ::
  "files_env \<Rightarrow> 'c callback \<Rightarrow> path \<Rightarrow> path \<Rightarrow> 'c scan_state \<Rightarrow> 'c scan_state"
where
  "report_folder env cb Root d =
     fold (report env cb Root) (scanned (env_fs env) (fs_directory_entries (env_fs env) d))"

lemma folder_dirs_rank: "d' \<in> set (folder_dirs fs d) \<Longrightarrow> path_rank fs d' < path_rank fs d"
  by (auto simp: folder_dirs_def subdirs_def scanned_def fs_directory_entries_def
      dest!: set_takeWhileD split: if_splits option.splits node.splits intro: entry_rank)

text \<open>The listing of a folder meets the contract of the two loops.\<close>

interpretation search: traversal "ProcessFolder env cb Root" "folder_dirs (env_fs env)"
  "folder_ok (env_fs env)" "report_folder env cb Root" "path_rank (env_fs env)"
  for env cb Root
  by unfold_locales
    (simp_all add: ProcessFolder_def process_entries_spec folder_dirs_def folder_ok_def
      report_folder_def folder_dirs_rank [unfolded folder_dirs_def])

text \<open>A callback that keeps what it is given, in order.\<close>

type_synonym report_log = "(u64 \<times> bytes) list"

definition record_report :: "report_log callback" where
  "record_report NewId Data log = log @ [(NewId, Data)]"

text \<open>A tree of one directory with one file, to evaluate the search on.\<close>

definition tiny_fs :: fsys where
  "tiny_fs = \<lparr>nodes = [([], Directory 0), ([''s''], Directory 1), ([''s'', ''a''], Regular [1, 2] 2)],
     cwd = [], now = 9, fault = (\<lambda>_ _. False), write_fault = (\<lambda>_ _. False), other_size = Some 0\<rparr>"

definition tiny_env :: files_env where
  "tiny_env = \<lparr>env_fs = tiny_fs, env_clock = \<lparr>clk_epoch = 0, clk_rate = 1, clk_leaps = []\<rparr>,
     env_capnp = \<lparr>packed_writes = (\<lambda>fi. [[ucast (getId fi)]]), unpack = (\<lambda>_. None)\<rparr>\<rparr>"

text \<open>The same tree on which the status of the file cannot be read.\<close>

definition tiny_env_fault :: files_env where
  "tiny_env_fault = tiny_env\<lparr>env_fs := tiny_fs\<lparr>fault := (\<lambda>c p. c = CallStatus \<and> names p = [''s'', ''a''])\<rparr>\<rparr>"

lemmas search_eval = tiny_env_def tiny_fs_def tiny_env_fault_def FindFiles_def search_roots_def
  fs_exists_def fs_status_def fs_canonical_def stat_def resolve_def walk.simps(2) node_at_def
  path_of_def slash_def dot_def dotdot_def max_links_def Let_def abs_path_def rel_path_def
  has_stem_def has_filename_def parent_path_def queue_loop.simps ProcessFolder_def
  fs_directory_entries_def children_def path_append_def DirItemToFileInfo_def fs_file_size_def
  record_report_def serialize_def entry_info_def vs_write_def initRoot_def

lemma tiny_search:
  "FindFiles tiny_env record_report ''/s'' (0, []) = Some (True, (2, [(1, [1]), (2, [2])]))"
  by (simp add: search_eval)

section \<open>Properties of the search\<close>

lemma searches_return:
  "\<exists>r r'. FindFiles env cb Root st = Some r \<and> FindFilesParallel env cb Root st = Some r'"
proof -
  have loops: "\<exists>r. queue_loop (ProcessFolder env cb R) ds b s = Some r"
    "\<exists>r. round_loop (ProcessFolder env cb R) ds b s = Some r" for R ds b s
    using search.loops_terminate [of env cb R ds b s] by auto
  show ?thesis
  proof (cases "search_roots (env_fs env) Root")
    case None
    then show ?thesis by (simp add: FindFiles_def FindFilesParallel_def del: split_paired_Ex)
  next
    case (Some roots)
    then show ?thesis
      using loops by (cases roots) (simp add: FindFiles_def FindFilesParallel_def del: split_paired_Ex)
  qed
qed

text \<open>
  C21. Both searches end on every file system, also on one with cyclic symbolic links, which the
  code follows: the links that one path may pass are limited.
\<close>

theorem searches_terminate:
  "\<exists>r r'. FindFiles env cb Root st = Some r \<and> FindFilesParallel env cb Root st = Some r'"
  by (rule searches_return)

text \<open>
  C16. The parallel search gives the same result as the sequential one and reports the same entries
  in the same order, when its tasks run one after the other; it only leaves out the entry for the
  root directory itself.
\<close>

theorem parallel_search_equivalent:
  "FindFiles env cb Root st =
     (case search_roots (env_fs env) Root of
        None \<Rightarrow> Some (False, st)
      | Some (CanonicalRoot, LexicalRoot) \<Rightarrow>
          FindFilesParallel env cb Root
            (if has_stem (path_of Root)
             then DirItemToFileInfo env cb LexicalRoot CanonicalRoot DIR no_link st else st))"
proof -
  have "round_loop (ProcessFolder env cb R) ds r s = queue_loop (ProcessFolder env cb R) ds r s"
    for R ds r s using search.loops_terminate by metis
  then show ?thesis by (auto simp: FindFiles_def FindFilesParallel_def split: option.splits)
qed

text \<open>
  An entry on which a call fails ends the listing of its folder: the entries before it are
  reported, and nothing behind it is, although the code goes on to the next entry, because the
  loop tests the error of the previous entry first.
\<close>

theorem folder_stops_at_error:
  assumes "fs_directory_entries (env_fs env) Parent = before @ bad # behind"
    and "\<forall>i \<in> set before. classify (env_fs env) i \<noteq> None"
    and "classify (env_fs env) bad = None"
  shows "ProcessFolder env cb Root Parent st =
     (filter (\<lambda>i. fs_status (env_fs env) i = Some FtDirectory) before, False,
      fold (report env cb Root) before st)"
proof -
  have "scanned (env_fs env) (before @ bad # behind) = before"
    using assms(2,3) by (simp add: scanned_def takeWhile_tail)
  with assms(1,3) show ?thesis
    by (simp add: ProcessFolder_def process_entries_spec subdirs_def)
qed

theorem folder_stops_at_error_witness:
  "ProcessFolder tiny_env_fault record_report (abs_path []) (abs_path [''s'']) (0, []) = ([], False, (0, []))"
  using folder_stops_at_error [of tiny_env_fault "abs_path [''s'']" "[]" "abs_path [''s'', ''a'']" "[]"
      record_report "abs_path []" "(0, [])"]
  by (simp add: search_eval classify_def)

section \<open>What a search reports\<close>

text \<open>A predicate that every report keeps holds after a search, when it holds at its start.\<close>

lemma fold_invariant_on: "(\<And>x s. x \<in> set xs \<Longrightarrow> P s \<Longrightarrow> P (f x s)) \<Longrightarrow> P s \<Longrightarrow> P (fold f xs s)"
  by (induction xs arbitrary: s) auto

lemma FindFiles_invariant:
  assumes result: "FindFiles env cb Root st = Some (ok, st')" and start: "P st"
    and root: "\<And>R item s. P s \<Longrightarrow> P (DirItemToFileInfo env cb R item DIR no_link s)"
    and entry: "\<And>R item type link s. classify (env_fs env) item = Some (Some (type, link)) \<Longrightarrow> P s \<Longrightarrow>
      P (DirItemToFileInfo env cb R item type link s)"
  shows "P st'"
proof (cases "search_roots (env_fs env) Root")
  case None
  with result start show ?thesis by (simp add: FindFiles_def)
next
  case (Some roots)
  obtain C L where roots: "roots = (C, L)" by (cases roots)
  let ?s0 = "if has_stem (path_of Root) then DirItemToFileInfo env cb L C DIR no_link st else st"
  obtain n where
    "queue_loop (ProcessFolder env cb L) [C] True ?s0 =
       Some (True \<and> list_all (folder_ok (env_fs env)) (levels (folder_dirs (env_fs env)) n [C]),
             fold (report_folder env cb L) (levels (folder_dirs (env_fs env)) n [C]) ?s0)"
    using search.loops_terminate [of env cb L "[C]" True ?s0] by blast
  with result Some roots have st': "st' = fold (report_folder env cb L) (levels (folder_dirs (env_fs env)) n [C]) ?s0"
    by (simp add: FindFiles_def)
  have rep: "P (report env cb L item s)" if "P s" for item s
    using entry that by (auto simp: report_def split: option.splits)
  have "P (report_folder env cb L d s)" if "P s" for d s
    unfolding report_folder_def by (rule fold_invariant_on) (simp_all add: rep that)
  moreover have "P ?s0" using start root by simp
  ultimately show ?thesis unfolding st' by (rule fold_invariant_on)
qed

definition numbered :: "capnp \<Rightarrow> u64 \<Rightarrow> report_log scan_state \<Rightarrow> bool" where
  "numbered c start st \<longleftrightarrow>
     fst st = start + of_nat (length (snd st)) \<and>
     (\<forall>i < length (snd st). \<exists>fi. snd st ! i = (start + of_nat (Suc i), serialize c fi) \<and>
        getId fi = start + of_nat (Suc i))"

lemma numbered_report:
  assumes "numbered (env_capnp env) start st"
  shows "numbered (env_capnp env) start (DirItemToFileInfo env record_report R item type link st)"
proof (cases "fs_file_size (env_fs env) item")
  case None
  with assms show ?thesis by (simp add: DirItemToFileInfo_def)
next
  case (Some size)
  obtain k log where st: "st = (k, log)" by (cases st)
  have id: "getId (entry_info env R item type link size (k + 1)) = k + 1"
    by (simp add: entry_info_def Let_def)
  from assms st have k: "k = start + of_nat (length log)" by (simp add: numbered_def)
  from Some assms id show ?thesis
    by (auto simp: DirItemToFileInfo_def st numbered_def record_report_def k nth_append Let_def
        less_Suc_eq add.assoc)
qed

lemma search_ids:
  assumes "FindFiles env record_report Root (k, []) = Some (ok, (k', log))"
  shows "k' = k + of_nat (length log) \<and>
    (\<forall>i < length log. fst (log ! i) = k + of_nat (Suc i) \<and>
       (\<exists>fi. snd (log ! i) = serialize (env_capnp env) fi \<and> getId fi = fst (log ! i))) \<and>
    (length log < 2 ^ 64 \<longrightarrow> distinct (map fst log))"
proof -
  have "numbered (env_capnp env) k (k', log)"
    by (rule FindFiles_invariant [OF assms]) (simp_all add: numbered_report, simp add: numbered_def)
  then have k': "k' = k + of_nat (length log)" and entries:
    "\<forall>i < length log. fst (log ! i) = k + of_nat (Suc i) \<and>
       (\<exists>fi. snd (log ! i) = serialize (env_capnp env) fi \<and> getId fi = fst (log ! i))"
    unfolding numbered_def fst_conv snd_conv by (blast, metis fst_conv snd_conv)
  have "distinct (map fst log)" if "length log < 2 ^ 64"
  proof (simp add: distinct_conv_nth, intro allI impI)
    fix i j assume ij: "i < length log" "j < length log" "i \<noteq> j"
    then have "(of_nat (Suc i) :: u64) \<noteq> of_nat (Suc j)"
      using that by (simp add: word_of_nat_eq_iff take_bit_nat_def del: of_nat_Suc)
    with ij entries show "fst (log ! i) \<noteq> fst (log ! j)" by (metis add_left_cancel)
  qed
  with k' entries show ?thesis by blast
qed

text \<open>
  The ids of one search are consecutive: each reported entry gets the next value of the global
  counter, as the id it is reported under and as the id inside its serialized info; so they are
  distinct as long as fewer than \<open>2 ^ 64\<close> entries are reported.
\<close>

theorem search_ids_consecutive:
  assumes "FindFiles env record_report Root (k, []) = Some (ok, (k', log))"
  shows "k' = k + of_nat (length log) \<and>
    (\<forall>i < length log. fst (log ! i) = k + of_nat (Suc i) \<and>
       (\<exists>fi. snd (log ! i) = serialize (env_capnp env) fi \<and> getId fi = fst (log ! i))) \<and>
    (length log < 2 ^ 64 \<longrightarrow> distinct (map fst log))"
  by (rule search_ids [OF assms])

theorem search_ids_consecutive_witness:
  "(2 :: u64) = 0 + of_nat (length [(1 :: u64, [1 :: u8]), (2, [2])]) \<and>
   distinct (map fst [(1 :: u64, [1 :: u8]), (2, [2])])"
  using search_ids_consecutive [OF tiny_search] by simp

lemma classify_followed:
  "fs_wf fs \<Longrightarrow> classify fs item = Some (Some (type, link)) \<Longrightarrow> type = FILE \<or> type = DIR"
  using status_not_link [of fs item]
  by (auto simp: classify_def split: option.splits file_type.splits)

text \<open>
  No entry is ever reported as a symbolic link: the status of an entry is taken with all links
  followed, so on a well-formed file system a link is reported as what it leads to, and the
  branches for links are never reached.
\<close>

theorem search_reports_no_links:
  assumes "fs_wf (env_fs env)"
    and "FindFiles env record_report Root (k, []) = Some (ok, (k', log))"
  shows "\<forall>d \<in> snd ` set log. \<exists>fi. d = serialize (env_capnp env) fi \<and>
    (getType fi = FILE \<or> getType fi = DIR)"
proof -
  define P where "P st \<longleftrightarrow> (\<forall>d \<in> snd ` set (snd st). \<exists>fi. d = serialize (env_capnp env) fi \<and>
    (getType fi = FILE \<or> getType fi = DIR))" for st :: "report_log scan_state"
  have step: "P (DirItemToFileInfo env record_report R item type link st)"
    if "type = FILE \<or> type = DIR" "P st" for R item type link st
    using that
    by (cases st)
      (force simp: P_def DirItemToFileInfo_def record_report_def Let_def entry_info_def
        split: option.splits)
  have "P (k', log)"
  proof (rule FindFiles_invariant [OF assms(2)])
    show "P (k, [])" by (simp add: P_def)
  qed (use step classify_followed [OF assms(1)] in auto)
  then show ?thesis by (simp add: P_def)
qed

lemma tiny_wf: "fs_wf tiny_fs"
  by (simp add: fs_wf_def is_dir_def node_at_def tiny_fs_def proper_name_def dot_def dotdot_def slash_def)

theorem search_reports_no_links_witness:
  "\<exists>fi. [2] = serialize (env_capnp tiny_env) fi \<and> (getType fi = FILE \<or> getType fi = DIR)"
  using search_reports_no_links [OF _ tiny_search] tiny_wf by (simp add: tiny_env_def)

section \<open>Completeness of the search\<close>

text \<open>
  On a file system without links and failing calls, in terms of locations: the folders of a folder,
  and how a node is reported.
\<close>

definition entry_locs :: "fsys \<Rightarrow> loc \<Rightarrow> loc list" where
  "entry_locs fs l = map (\<lambda>n. l @ [n]) (children fs l)"

definition dir_locs :: "fsys \<Rightarrow> loc \<Rightarrow> loc list" where
  "dir_locs fs l = filter (is_dir fs) (entry_locs fs l)"

fun reported_type :: "node \<Rightarrow> FileType option" where
  "reported_type (Regular _ _) = Some FILE"
| "reported_type (Directory _) = Some DIR"
| "reported_type _ = None"

fun node_size :: "fsys \<Rightarrow> node \<Rightarrow> nat" where
  "node_size fs (Regular c _) = length c"
| "node_size fs _ = the (other_size fs)"

definition location_info :: "files_env \<Rightarrow> loc \<Rightarrow> loc \<Rightarrow> u64 \<Rightarrow> FileInfo" where
  "location_info env base l NewId =
     (let n = the (node_at (env_fs env) l)
      in entry_info env (abs_path base) (abs_path l) (the (reported_type n)) no_link
           (node_size (env_fs env) n) NewId)"

definition report_location ::
  "files_env \<Rightarrow> loc \<Rightarrow> loc \<Rightarrow> report_log scan_state \<Rightarrow> report_log scan_state"
where
  "report_location env base l st =
     (if reported_type (the (node_at (env_fs env) l)) = None then st
      else (fst st + 1, snd st @ [(fst st + 1, serialize (env_capnp env)
              (location_info env base l (fst st + 1)))]))"

lemma set_entry_locs: "l' \<in> set (entry_locs fs l) \<longleftrightarrow> l' \<noteq> [] \<and> butlast l' = l \<and> node_at fs l' \<noteq> None"
  by (cases l' rule: rev_cases) (auto simp: entry_locs_def set_children)

lemma distinct_entry_locs: "distinct (entry_locs fs l)"
  by (simp add: entry_locs_def distinct_map distinct_children inj_on_def)

lemma plain_status:
  "plain_fs fs \<Longrightarrow> node_at fs l = Some n \<Longrightarrow> fs_status fs (abs_path l) = Some (type_of n)"
  by (simp add: fs_status_def plain_stat resolve_node plain_not_link plain_fs_def)

lemma plain_classify:
  "plain_fs fs \<Longrightarrow> node_at fs l = Some n \<Longrightarrow>
   classify fs (abs_path l) = Some (map_option (\<lambda>ty. (ty, no_link)) (reported_type n))"
  using plain_not_link [of fs l] by (cases n) (auto simp: classify_def plain_status not_link_def)

lemma plain_scanned:
  assumes "plain_fs fs" and "is_dir fs l"
  shows "fs_directory_entries fs (abs_path l) = map abs_path (entry_locs fs l)"
    and "scanned fs (map abs_path (entry_locs fs l)) = map abs_path (entry_locs fs l)"
    and "folder_ok fs (abs_path l)"
proof -
  show entries: "fs_directory_entries fs (abs_path l) = map abs_path (entry_locs fs l)"
    using plain_entries [OF assms] by (simp add: entry_locs_def)
  have ok: "classify fs (abs_path l') \<noteq> None" if "l' \<in> set (entry_locs fs l)" for l'
    using that plain_classify [OF assms(1)] by (auto simp: set_entry_locs)
  then show "scanned fs (map abs_path (entry_locs fs l)) = map abs_path (entry_locs fs l)"
    by (auto simp: scanned_def)
  from ok show "folder_ok fs (abs_path l)"
    by (auto simp: folder_ok_def entries list_all_iff)
qed

lemma plain_folder_dirs:
  assumes "plain_fs fs" and "is_dir fs l"
  shows "folder_dirs fs (abs_path l) = map abs_path (dir_locs fs l)"
proof -
  have "fs_status fs (abs_path l') = Some FtDirectory \<longleftrightarrow> is_dir fs l'"
    if l': "l' \<in> set (entry_locs fs l)" for l'
  proof -
    from l' obtain n where "node_at fs l' = Some n" by (auto simp: set_entry_locs)
    with plain_status [OF assms(1) this] show ?thesis by (cases n) (auto simp: is_dir_def)
  qed
  then show ?thesis
    by (simp add: folder_dirs_def subdirs_def plain_scanned [OF assms] dir_locs_def filter_map
        comp_def cong: filter_cong)
qed

lemma plain_report:
  assumes "plain_fs (env_fs env)" and "node_at (env_fs env) l = Some n"
  shows "report env record_report (abs_path base) (abs_path l) st = report_location env base l st"
proof -
  have "fs_file_size (env_fs env) (abs_path l) = Some (node_size (env_fs env) n)"
    using assms plain_stat [OF assms] by (cases n) (auto simp: fs_file_size_def plain_fs_def)
  with assms show ?thesis
    by (cases st)
      (auto simp: report_def plain_classify report_location_def DirItemToFileInfo_def
        record_report_def location_info_def Let_def split: option.splits)
qed

lemma levels_of_locations:
  "plain_fs fs \<Longrightarrow> list_all (is_dir fs) ls \<Longrightarrow>
   levels (folder_dirs fs) n (map abs_path ls) = map abs_path (levels (dir_locs fs) n ls) \<and>
   list_all (is_dir fs) (levels (dir_locs fs) n ls)"
proof (induction n arbitrary: ls)
  case 0
  then show ?case by simp
next
  case (Suc n)
  have "concat (map (folder_dirs fs) (map abs_path ls)) = map abs_path (concat (map (dir_locs fs) ls))"
    using Suc.prems by (induction ls) (simp_all add: plain_folder_dirs)
  moreover have "list_all (is_dir fs) (concat (map (dir_locs fs) ls))"
    by (auto simp: list_all_iff dir_locs_def)
  ultimately show ?case using Suc by simp
qed

lemma level_of_locations:
  "plain_fs fs \<Longrightarrow> list_all (is_dir fs) ls \<Longrightarrow>
   level (folder_dirs fs) n (map abs_path ls) = map abs_path (level (dir_locs fs) n ls)"
proof (induction n arbitrary: ls)
  case 0
  then show ?case by simp
next
  case (Suc n)
  have "concat (map (folder_dirs fs) (map abs_path ls)) = map abs_path (concat (map (dir_locs fs) ls))"
    using Suc.prems by (induction ls) (simp_all add: plain_folder_dirs)
  moreover have "list_all (is_dir fs) (concat (map (dir_locs fs) ls))"
    by (auto simp: list_all_iff dir_locs_def)
  ultimately show ?case using Suc by simp
qed

text \<open>The directories that are visited are all directories below the root, each once.\<close>

lemma visited_directories:
  assumes "fs_wf fs" and "is_dir fs r" and "level (dir_locs fs) n [r] = []"
  shows "set (levels (dir_locs fs) n [r]) = {l. is_dir fs l \<and> prefix r l}"
    and "distinct (levels (dir_locs fs) n [r])"
proof -
  let ?V = "levels (dir_locs fs) n [r]"
  have child: "l' \<in> set (dir_locs fs l) \<longleftrightarrow> is_dir fs l' \<and> l' \<noteq> [] \<and> butlast l' = l" for l l'
    by (auto simp: dir_locs_def set_entry_locs is_dir_def)
  have "\<forall>l \<in> set ?V. is_dir fs l \<and> prefix r l"
    by (rule levels_invariant) (use assms(2) child prefix_order.trans prefixeq_butlast in \<open>auto, blast\<close>)
  moreover have "l \<in> set ?V" if "is_dir fs l" "prefix r l" for l
    using that
  proof (induction "length l - length r" arbitrary: l)
    case 0
    then have "l = r" by (auto simp: prefix_def)
    with levels_start [OF assms(3)] show ?case by simp
  next
    case (Suc m)
    then have ne: "l \<noteq> []" "l \<noteq> r" by auto
    then have "prefix r (butlast l)" using Suc.prems(2)
      by (metis append_butlast_last_id prefix_snoc)
    moreover have "is_dir fs (butlast l)" by (rule is_dir_butlast [OF assms(1) Suc.prems(1)])
    ultimately have "butlast l \<in> set ?V" using Suc by simp
    from levels_closed [OF assms(3) this] ne Suc.prems(1) show ?case by (simp add: child)
  qed
  ultimately show "set ?V = {l. is_dir fs l \<and> prefix r l}" by blast
  show "distinct ?V"
    by (rule levels_distinct [where depth = length])
      (auto simp: child distinct_entry_locs dir_locs_def set_entry_locs)
qed

end
