(* ===== verification/SearchResult.thy ===== *)
theory SearchResult
  imports Files
begin

text \<open>
  What a whole search of \<open>files.cpp\<close> reports, on a file system without links and failing calls:
  the root and everything below it, each exactly once, under paths that the server resolves to the
  same place below its base directory; and the decision of \<open>DoesFileNeedUpdate\<close> on such a file
  system.
\<close>

section \<open>The reports of a list of locations\<close>

fun location_reports :: "files_env \<Rightarrow> loc \<Rightarrow> u64 \<Rightarrow> loc list \<Rightarrow> report_log" where
  "location_reports env base k [] = []"
| "location_reports env base k (l # ls) =
     (k + 1, serialize (env_capnp env) (location_info env base l (k + 1))) #
     location_reports env base (k + 1) ls"

abbreviation reportable :: "fsys \<Rightarrow> loc \<Rightarrow> bool" where
  "reportable fs l \<equiv> reported_type (the (node_at fs l)) \<noteq> None"

lemma length_location_reports [simp]: "length (location_reports env base k ls) = length ls"
  by (induction ls arbitrary: k) auto

lemma nth_location_reports:
  "i < length ls \<Longrightarrow> location_reports env base k ls ! i =
     (k + of_nat (Suc i),
      serialize (env_capnp env) (location_info env base (ls ! i) (k + of_nat (Suc i))))"
proof (induction ls arbitrary: k i)
  case Nil
  then show ?case by simp
next
  case (Cons l ls)
  show ?case
  proof (cases i)
    case 0
    then show ?thesis by simp
  next
    case (Suc j)
    with Cons.prems have "location_reports env base k (l # ls) ! i =
       (k + 1 + of_nat (Suc j),
        serialize (env_capnp env) (location_info env base (ls ! j) (k + 1 + of_nat (Suc j))))"
      by (simp add: Cons.IH)
    moreover have "k + 1 + of_nat (Suc j) = k + of_nat (Suc i)" by (simp add: Suc add_ac)
    ultimately show ?thesis by (simp only: Suc nth_Cons_Suc)
  qed
qed

lemma fold_report_location:
  "fold (report_location env base) ls (k, log) =
     (let ls' = filter (reportable (env_fs env)) ls
      in (k + of_nat (length ls'), log @ location_reports env base k ls'))"
  by (induction ls arbitrary: k log) (auto simp: report_location_def Let_def add_ac)

section \<open>The search in terms of locations\<close>

lemma plain_report_folder:
  assumes "plain_fs (env_fs env)" and "is_dir (env_fs env) l"
  shows "report_folder env record_report (abs_path base) (abs_path l) st =
    fold (report_location env base) (entry_locs (env_fs env) l) st"
proof -
  have "fold (report env record_report (abs_path base)) (map abs_path ls) s =
      fold (report_location env base) ls s"
    if "\<forall>l' \<in> set ls. node_at (env_fs env) l' \<noteq> None" for ls s
    using that by (induction ls arbitrary: s) (auto simp: plain_report [OF assms(1)])
  then show ?thesis
    by (simp add: report_folder_def plain_scanned [OF assms] set_entry_locs)
qed

lemma plain_report_folders:
  assumes "plain_fs (env_fs env)" and "list_all (is_dir (env_fs env)) ls"
  shows "fold (report_folder env record_report (abs_path base)) (map abs_path ls) st =
    fold (report_location env base) (concat (map (entry_locs (env_fs env)) ls)) st"
  using assms(2)
  by (induction ls arbitrary: st) (simp_all add: plain_report_folder [OF assms(1)])

definition search_locs :: "fsys \<Rightarrow> nat \<Rightarrow> loc \<Rightarrow> loc list" where
  "search_locs fs n r = r # concat (map (entry_locs fs) (levels (dir_locs fs) n [r]))"

lemma search_locs:
  assumes wf: "fs_wf fs" and r: "is_dir fs r" and n: "level (dir_locs fs) n [r] = []"
  shows "set (search_locs fs n r) = {l. prefix r l \<and> node_at fs l \<noteq> None}"
    and "distinct (search_locs fs n r)"
proof -
  have below: "l \<in> set (concat (map (entry_locs fs) (levels (dir_locs fs) n [r]))) \<longleftrightarrow>
      l \<noteq> r \<and> prefix r l \<and> node_at fs l \<noteq> None" for l
  proof -
    have "l \<in> set (concat (map (entry_locs fs) (levels (dir_locs fs) n [r]))) \<longleftrightarrow>
        l \<noteq> [] \<and> is_dir fs (butlast l) \<and> prefix r (butlast l) \<and> node_at fs l \<noteq> None"
      using visited_directories(1) [OF wf r n] by (auto simp: set_entry_locs)
    also have "\<dots> \<longleftrightarrow> l \<noteq> r \<and> prefix r l \<and> node_at fs l \<noteq> None"
    proof (cases l rule: rev_cases)
      case Nil
      then show ?thesis by auto
    next
      case (snoc m c)
      then show ?thesis using fs_wf_node(2) [OF wf, of l] by auto
    qed
    finally show ?thesis .
  qed
  have "node_at fs r \<noteq> None" using r by (auto simp: is_dir_def)
  with below show "set (search_locs fs n r) = {l. prefix r l \<and> node_at fs l \<noteq> None}"
    by (auto simp: search_locs_def simp del: set_concat)
  have "distinct (concat (map (entry_locs fs) (levels (dir_locs fs) n [r])))"
    by (rule distinct_concat_map [OF visited_directories(2) [OF wf r n] distinct_entry_locs])
      (auto simp: set_entry_locs)
  with below [of r] show "distinct (search_locs fs n r)" by (simp add: search_locs_def)
qed

text \<open>Every location comes after its parent directory.\<close>

fun parents_first :: "loc set \<Rightarrow> loc list \<Rightarrow> bool" where
  "parents_first P [] = True"
| "parents_first P (l # ls) = (butlast l \<in> P \<and> parents_first (insert l P) ls)"

lemma parents_first_mono: "parents_first P ls \<Longrightarrow> P \<subseteq> Q \<Longrightarrow> parents_first Q ls"
proof (induction ls arbitrary: P Q)
  case (Cons l ls)
  then have "parents_first (insert l P) ls" "insert l P \<subseteq> insert l Q" by auto
  with Cons.IH have "parents_first (insert l Q) ls" by blast
  with Cons.prems show ?case by auto
qed simp

lemma parents_first_append:
  "parents_first P (xs @ ys) \<longleftrightarrow> parents_first P xs \<and> parents_first (P \<union> set xs) ys"
  by (induction xs arbitrary: P) auto

lemma parents_first_all: "\<forall>l \<in> set ls. butlast l \<in> P \<Longrightarrow> parents_first P ls"
  by (induction ls arbitrary: P) auto

lemma parents_first_levels:
  "set ds \<subseteq> P \<Longrightarrow> parents_first P (concat (map (entry_locs fs) (levels (dir_locs fs) n ds)))"
proof (induction n arbitrary: ds P)
  case 0
  then show ?case by simp
next
  case (Suc n)
  have "parents_first P (concat (map (entry_locs fs) ds))"
    using Suc.prems by (intro parents_first_all) (auto simp: set_entry_locs)
  moreover have "set (concat (map (dir_locs fs) ds)) \<subseteq> P \<union> set (concat (map (entry_locs fs) ds))"
    by (auto simp: dir_locs_def)
  from Suc.IH [OF this]
  have "parents_first (P \<union> set (concat (map (entry_locs fs) ds)))
      (concat (map (entry_locs fs) (levels (dir_locs fs) n (concat (map (dir_locs fs) ds)))))" .
  ultimately show ?case by (simp add: parents_first_append)
qed

lemma parents_first_filter:
  "parents_first P ls \<Longrightarrow> Q = {l \<in> P. ok l} \<Longrightarrow> \<forall>l \<in> set ls. ok (butlast l) \<Longrightarrow> parents_first Q (filter ok ls)"
proof (induction ls arbitrary: P Q)
  case (Cons l ls)
  then show ?case
    using Cons.IH [of "insert l P" "{x \<in> insert l P. ok x}"] by (auto intro: parents_first_mono)
qed simp

lemma length_le_nodes:
  assumes "distinct ls" and "set ls \<subseteq> {l. node_at fs l \<noteq> None}"
  shows "length ls \<le> length (nodes fs)"
proof -
  have "set ls \<subseteq> set (map fst (nodes fs))"
    using assms(2) by (force simp: node_at_def dest: map_of_SomeD)
  then have "card (set ls) \<le> card (set (map fst (nodes fs)))" by (rule card_mono [rotated]) simp
  also have "\<dots> \<le> length (nodes fs)" using card_length [of "map fst (nodes fs)"] by simp
  finally show ?thesis using assms(1) by (simp add: distinct_card)
qed

lemma location_reports_map:
  "location_reports env base k ls = map (\<lambda>i. (k + of_nat (Suc i), serialize (env_capnp env)
     (location_info env base (ls ! i) (k + of_nat (Suc i))))) [0..<length ls]"
  by (rule nth_equalityI) (simp_all add: nth_location_reports)

lemma distinct_report_ids:
  assumes "length ls < 2 ^ 64"
  shows "distinct (map fst (location_reports env base k ls))"
proof -
  have "inj_on (\<lambda>i. k + of_nat (Suc i)) {0..<length ls}"
  proof (rule inj_onI)
    fix i j
    assume ij: "i \<in> {0..<length ls}" "j \<in> {0..<length ls}" and "k + of_nat (Suc i) = k + of_nat (Suc j)"
    then have "(of_nat i :: u64) = of_nat j" by simp
    then have "unat (of_nat i :: u64) = unat (of_nat j :: u64)" by simp
    with ij assms show "i = j" by (simp add: unat_of_nat take_bit_nat_eq_self)
  qed
  then show ?thesis by (simp add: location_reports_map comp_def distinct_map)
qed

lemma plain_search_roots:
  assumes fs: "plain_fs fs" and Root: "path_of Root = abs_path r" "r \<noteq> []" and r: "is_dir fs r"
  shows "search_roots fs Root = Some (abs_path r, abs_path (butlast r))" and "has_stem (path_of Root)"
proof -
  from r obtain t where t: "node_at fs r = Some (Directory t)" by (auto simp: is_dir_def)
  with fs have "proper r" by (auto simp: plain_fs_def dest: fs_wf_node)
  with Root(2) show stem: "has_stem (path_of Root)"
    by (auto simp: Root(1) has_stem_def has_filename_def proper_name_def list_all_iff)
  have "stat fs (abs_path r) = Some (r, Directory t)" by (rule plain_stat [OF fs t])
  moreover have "resolve fs True (abs_path r) = Found max_links r"
    using fs t by (simp add: resolve_node plain_not_link plain_fs_def)
  ultimately show "search_roots fs Root = Some (abs_path r, abs_path (butlast r))"
    using fs stem Root
    by (simp add: search_roots_def Let_def fs_exists_def fs_status_def fs_canonical_def plain_fs_def
        parent_path_def abs_path_def)
qed

lemma search_reports_tree:
  assumes fs: "plain_fs (env_fs env)"
    and Root: "path_of Root = abs_path r" "r \<noteq> []" and r: "is_dir (env_fs env) r"
  shows "\<exists>ls. distinct ls \<and>
    set ls = {l. prefix r l \<and> (\<exists>n. node_at (env_fs env) l = Some n \<and> reported_type n \<noteq> None)} \<and>
    parents_first {butlast r} ls \<and>
    FindFiles env record_report Root (k, []) =
      Some (True, (k + of_nat (length ls), location_reports env (butlast r) k ls))"
proof -
  let ?fs = "env_fs env"
  let ?st = "(k, []) :: report_log scan_state"
  from r obtain t where t: "node_at ?fs r = Some (Directory t)" by (auto simp: is_dir_def)
  define s0 where "s0 = report_location env (butlast r) r ?st"
  have "DirItemToFileInfo env record_report (abs_path (butlast r)) (abs_path r) DIR no_link ?st = s0"
    using plain_report [OF fs t, of "butlast r" ?st] plain_classify [OF fs t]
    by (simp add: report_def s0_def)
  with plain_search_roots [OF fs Root r] have find: "FindFiles env record_report Root ?st =
      queue_loop (ProcessFolder env record_report (abs_path (butlast r))) [abs_path r] True s0"
    by (simp add: FindFiles_def)
  obtain n where loop: "queue_loop (ProcessFolder env record_report (abs_path (butlast r)))
        [abs_path r] True s0 =
      Some (True \<and> list_all (folder_ok ?fs) (levels (folder_dirs ?fs) n [abs_path r]),
            fold (report_folder env record_report (abs_path (butlast r)))
              (levels (folder_dirs ?fs) n [abs_path r]) s0)"
    and n: "level (folder_dirs ?fs) n [abs_path r] = []"
    using search.loops_terminate [of env record_report "abs_path (butlast r)" "[abs_path r]" True s0]
    by blast
  have dirs: "levels (folder_dirs ?fs) n [abs_path r] = map abs_path (levels (dir_locs ?fs) n [r])"
    "list_all (is_dir ?fs) (levels (dir_locs ?fs) n [r])"
    using levels_of_locations [OF fs, of "[r]" n] r by simp_all
  have n': "level (dir_locs ?fs) n [r] = []"
    using level_of_locations [OF fs, of "[r]" n] r n by simp
  from fs have wf: "fs_wf ?fs" by (simp add: plain_fs_def)
  have "list_all (folder_ok ?fs) (levels (folder_dirs ?fs) n [abs_path r])"
    using dirs plain_scanned(3) [OF fs] by (auto simp: list_all_iff)
  with find loop dirs plain_report_folders [OF fs dirs(2)]
  have "FindFiles env record_report Root ?st =
      Some (True, fold (report_location env (butlast r)) (search_locs ?fs n r) ?st)"
    by (simp add: search_locs_def s0_def)
  moreover define ls where "ls = filter (reportable ?fs) (search_locs ?fs n r)"
  ultimately have "FindFiles env record_report Root ?st =
      Some (True, (k + of_nat (length ls), location_reports env (butlast r) k ls))"
    by (simp add: fold_report_location Let_def)
  moreover have "distinct ls" using search_locs(2) [OF wf r n'] by (simp add: ls_def)
  moreover have "set ls = {l. prefix r l \<and> (\<exists>n. node_at ?fs l = Some n \<and> reported_type n \<noteq> None)}"
    using search_locs(1) [OF wf r n'] by (auto simp: ls_def)
  moreover have "parents_first {butlast r} ls"
    unfolding ls_def
  proof (rule parents_first_filter)
    show "parents_first {butlast r} (search_locs ?fs n r)"
      using parents_first_levels [of "[r]" "{r, butlast r}" ?fs n] by (simp add: search_locs_def insert_commute)
    have parent: "reportable ?fs (butlast l)" if "node_at ?fs l = Some n'" "l \<noteq> []" for l n'
      using fs_wf_node(2) [OF wf that] by (auto simp: is_dir_def)
    from parent [OF t Root(2)] show "{butlast r} = {l \<in> {butlast r}. reportable ?fs l}" by blast
    show "\<forall>l \<in> set (search_locs ?fs n r). reportable ?fs (butlast l)"
    proof
      fix l
      assume "l \<in> set (search_locs ?fs n r)"
      then obtain n' where "prefix r l" "node_at ?fs l = Some n'" using search_locs(1) [OF wf r n'] by blast
      moreover from this(1) Root(2) have "l \<noteq> []" by auto
      ultimately show "reportable ?fs (butlast l)" using parent by blast
    qed
  qed
  ultimately show ?thesis by blast
qed


text \<open>
  C14. A search of a tree without links, on which no call fails, succeeds and reports the root
  directory, every file and every directory below it, each exactly once and nothing else, every
  directory before what is in it, with consecutive ids, and each as its own file info.
\<close>

theorem search_complete:
  assumes fs: "plain_fs (env_fs env)"
    and Root: "path_of Root = abs_path r" "r \<noteq> []" and r: "is_dir (env_fs env) r"
  shows "\<exists>ls. distinct ls \<and>
    set ls = {l. prefix r l \<and> (\<exists>n. node_at (env_fs env) l = Some n \<and> reported_type n \<noteq> None)} \<and>
    parents_first {butlast r} ls \<and>
    FindFiles env record_report Root (k, []) =
      Some (True, (k + of_nat (length ls), location_reports env (butlast r) k ls))"
  using assms by (rule search_reports_tree)

text \<open>A tree of a root directory with a file and a directory with a file in it.\<close>

definition example_fs :: fsys where
  "example_fs = \<lparr>nodes = [([], Directory 0), ([''s''], Directory 1), ([''s'', ''a''], Regular [1, 2] 2),
       ([''s'', ''d''], Directory 3), ([''s'', ''d'', ''b''], Regular [] 4)],
     cwd = [], now = 9, fault = (\<lambda>_ _. False), write_fault = (\<lambda>_ _. False), other_size = Some 0\<rparr>"

definition example_clock :: clock where
  "example_clock = \<lparr>clk_epoch = 0, clk_rate = 1, clk_leaps = []\<rparr>"

definition example_env :: files_env where
  "example_env = \<lparr>env_fs = example_fs, env_clock = example_clock,
     env_capnp = \<lparr>packed_writes = (\<lambda>fi. [[of_nat (length (getPath fi))]]), unpack = (\<lambda>_. None)\<rparr>\<rparr>"

text \<open>The same tree with a codec that can be read back.\<close>

definition searched_side :: files_env where
  "searched_side = \<lparr>env_fs = example_fs, env_clock = example_clock, env_capnp = toy_capnp\<rparr>"

lemma example_fs: "plain_fs example_fs" "is_dir example_fs [''s'']" "path_of ''/s'' = abs_path [''s'']"
  by (simp_all add: plain_fs_def fs_wf_def is_dir_def node_at_def example_fs_def proper_name_def
      dot_def dotdot_def slash_def path_of_def abs_path_def)

theorem search_complete_witness:
  "\<exists>ls. distinct ls \<and>
    set ls = {l. prefix [''s''] l \<and> (\<exists>n. node_at example_fs l = Some n \<and> reported_type n \<noteq> None)} \<and>
    parents_first {[]} ls \<and>
    FindFiles example_env record_report ''/s'' (0, []) =
      Some (True, (of_nat (length ls), location_reports example_env [] 0 ls))"
  using search_complete [of example_env "''/s''" "[''s'']" 0] example_fs
  by (simp add: example_env_def)

section \<open>Reported paths\<close>

lemma location_info_sel:
  assumes "node_at (env_fs env) l = Some n"
  shows "getPath (location_info env base l k) =
      c_str (generic_string (lexically_relative (abs_path l) (abs_path base)))"
    and "getType (location_info env base l k) = the (reported_type n)"
    and "getId (location_info env base l k) = k"
    and "getSize (location_info env base l k) = of_nat (node_size (env_fs env) n)"
  using assms by (simp_all add: location_info_def entry_info_def Let_def)

lemma reported_time:
  assumes "node_at (env_fs env) l = Some n" and "plain_fs (env_fs env)"
    and "- (2 ^ 63) \<le> to_utc_seconds (env_clock env) (time_of n)" "to_utc_seconds (env_clock env) (time_of n) < 2 ^ 63"
  shows "message_time (location_info env base l k) = to_utc_seconds (env_clock env) (time_of n)"
proof -
  have "fs_last_write_time (env_fs env) (abs_path l) = Some (time_of n)"
    using plain_stat [OF assms(2,1)] assms(2) by (simp add: fs_last_write_time_def plain_fs_def)
  moreover have "sint (of_int x :: u64) = x" if "- (2 ^ 63) \<le> x" "x < 2 ^ 63" for x :: int
    using that by (simp add: signed_of_int signed_take_bit_int_eq_self)
  ultimately show ?thesis using assms
    by (simp add: message_time_def location_info_def entry_info_def Let_def)
qed

lemma reported_path_place:
  assumes "proper (base @ ms)" and "proper dest" and "ms \<noteq> []"
    and "node_at (env_fs env) (base @ ms) = Some n"
  shows "path_append (abs_path dest) (path_of (c_str (getPath (location_info env base (base @ ms) k)))) =
    abs_path (dest @ ms)"
proof -
  from assms have ms: "proper ms" "hd ms \<noteq> []"
    by (auto simp: proper_name_def list_all_iff dest: hd_in_set)
  have "getPath (location_info env base (base @ ms) k) = generic_string (rel_path ms)"
    using location_info_sel(1) [OF assms(4), of base k] lexically_relative_below [OF assms(3) ms(2)]
      c_str_generic_string [OF ms(1)] by simp
  with ms assms show ?thesis
    by (simp add: c_str_generic_string path_of_generic_string)
qed

text \<open>
  The path a file is reported under leads, from the base directory of the server, to the place
  that corresponds to its own place below the parent of the synchronised directory.
\<close>

theorem reported_path_roundtrip:
  assumes "proper (base @ ms)" and "proper dest" and "ms \<noteq> []"
    and "node_at (env_fs env) (base @ ms) = Some n"
  shows "path_append (abs_path dest) (path_of (c_str (getPath (location_info env base (base @ ms) k)))) =
    abs_path (dest @ ms)"
  using assms by (rule reported_path_place)

theorem reported_path_roundtrip_witness:
  "path_append (abs_path [''dst''])
     (path_of (c_str (getPath (location_info example_env [''s''] [''s'', ''a''] 7)))) =
   abs_path [''dst'', ''a'']"
  using reported_path_roundtrip [of "[''s'']" "[''a'']" "[''dst'']" example_env "Regular [1, 2] 2" 7]
  by (simp add: example_env_def example_fs_def node_at_def proper_name_def dot_def dotdot_def slash_def)

section \<open>The update decision\<close>

lemma walk_no_loop: "(\<And>l tgt t. look l \<noteq> Some (Symlink tgt t)) \<Longrightarrow> walk look b at ns f \<noteq> LinkLoop"
proof (induction look b at ns f rule: walk.induct)
  case (2 look b at c cs f)
  show ?case
  proof (cases "\<exists>t. look at = Some (Directory t)")
    case True
    then obtain t where "look at = Some (Directory t)" by blast
    with 2 show ?thesis
      by (auto simp: walk.simps(2) split: option.splits node.splits; blast)
  next
    case False
    then show ?thesis by (auto simp: walk.simps(2) split: option.splits node.splits)
  qed
qed simp

lemma plain_walk:
  assumes "plain_fs fs"
  shows "walk (node_at fs) b at ns f \<noteq> LinkLoop"
    and "proper ns \<Longrightarrow> walk (node_at fs) b at ns f = Found b' l \<Longrightarrow> l = at @ ns"
proof -
  have no_link: "node_at fs l \<noteq> Some (Symlink tgt t)" for l tgt t
    using plain_not_link [OF assms, of l] by (simp add: not_link_def)
  then show "walk (node_at fs) b at ns f \<noteq> LinkLoop" by (rule walk_no_loop)
  show "proper ns \<Longrightarrow> walk (node_at fs) b at ns f = Found b' l \<Longrightarrow> l = at @ ns"
  proof (induction ns arbitrary: at)
    case (Cons c cs)
    from Cons.prems(1) have "proper_name c" and cs: "proper cs" by simp_all
    then have c: "c \<noteq> []" "c \<noteq> dot" "c \<noteq> dotdot" by (simp_all add: proper_name_def)
    from Cons.prems(2) c no_link have "walk (node_at fs) b (at @ [c]) cs f = Found b' l"
      by (simp add: walk.simps(2) split: option.splits node.splits if_splits)
    from Cons.IH [OF cs this] show ?case by simp
  qed simp
qed

lemma plain_stat_missing:
  assumes "plain_fs fs" and "proper l" and "node_at fs l = None"
  shows "stat fs (abs_path l) = None" and "resolve fs f (abs_path l) \<noteq> LinkLoop"
proof -
  have "l' = l" if "walk (node_at fs) max_links [] l True = Found b' l'" for b' l'
    using plain_walk(2) [OF assms(1,2) that] by simp
  then show "stat fs (abs_path l) = None"
    using assms(3) by (auto simp: stat_def resolve_def split: walk_result.splits)
  show "resolve fs f (abs_path l) \<noteq> LinkLoop"
    using plain_walk(1) [OF assms(1)] by (simp add: resolve_def)
qed

lemma plain_update:
  assumes fs: "plain_fs fs" and l: "proper l"
    and path: "path_append Destination (path_of (c_str (getPath File))) = abs_path l"
  shows "DoesFileNeedUpdate clk fs Destination File =
    (case node_at fs l of
       None \<Rightarrow> True
     | Some (Regular c t) \<Rightarrow>
         getType File = FILE \<and>
         (t < from_utc clk (message_time File) \<or> length c \<noteq> unat (getSize File))
     | Some (Directory t) \<Rightarrow> getType File = DIR \<and> t < from_utc clk (message_time File)
     | Some _ \<Rightarrow> False)"
proof (cases "node_at fs l")
  case None
  with plain_stat_missing [OF fs l] fs show ?thesis
    by (simp add: DoesFileNeedUpdate_def path fs_exists_def plain_fs_def)
next
  case (Some n)
  with fs have "stat fs (abs_path l) = Some (l, n)" "resolve fs True (abs_path l) = Found max_links l"
    by (simp_all add: plain_stat resolve_node plain_not_link plain_fs_def)
  with fs Some show ?thesis
    using plain_not_link [OF fs, of l]
    by (cases n)
      (auto simp: DoesFileNeedUpdate_def path fs_exists_def fs_status_def fs_last_write_time_def
        fs_file_size_def type_matches_def plain_fs_def not_link_def)
qed



end
