(* ===== verification/ClientControl.thy ===== *)
theory ClientControl
  imports IdReader SearchResult
begin

text \<open>
  The client's side of the control stream (\<open>client.cpp\<close>): the callback with which
  \<open>QsyncClient::Start\<close> sends every file info the search finds and keeps it in \<open>FileInfos\<close>, and
  \<open>QSyncClientControlStreamCallback\<close>, which forgets the file infos whose ids the server returns.
  \<open>Stream->Send\<close> is MsQuic's: which sends it refuses is a parameter.
\<close>

section \<open>State\<close>

datatype process = Running | Exited | Crashed ub

text \<open>
  What the two callbacks use of \<open>QsyncClient\<close>; \<open>control_sent\<close> are the bytes of the sends MsQuic
  has accepted on the control stream, in order, and \<open>process\<close> says whether the callback has ended
  the program.
\<close>

record client =
  control_reader :: id_reader
  FileInfos :: "u64 \<rightharpoonup> bytes"
  control_sent :: "bytes list"
  process :: process

definition init_client :: client where
  "init_client = \<lparr>control_reader = init_reader, FileInfos = (\<lambda>_. None), control_sent = [], process = Running\<rparr>"

section \<open>Sending the file infos\<close>

text \<open>
  What the callback relies on: \<open>malloc\<close> for the buffer array and \<open>Send\<close>, which may refuse the send
  of a given id.
\<close>

record client_env =
  malloc_fails :: bool
  send_fails :: "u64 \<Rightarrow> bool"
  client_capnp :: capnp

text \<open>
  The lambda of \<open>Start\<close>. An id that is already there ends the program, after both messages have
  been read for the error text; otherwise the two buffers, the size and the serialized info, are
  handed to MsQuic. The size is cut to 32 bits.
\<close>

definition on_file_found :: "client_env \<Rightarrow> client callback" where
  "on_file_found env FileId File c =
     (if process c \<noteq> Running then c
      else
        (case FileInfos c FileId of
           Some Search \<Rightarrow>
             (if unpack (client_capnp env) File = None \<or> unpack (client_capnp env) Search = None
              then c\<lparr>process := Crashed UncaughtException\<rparr>
              else c\<lparr>process := Exited\<rparr>)
         | None \<Rightarrow>
             if malloc_fails env then c\<lparr>process := Crashed NullDereference\<rparr>
             else
               let Size = length File mod 2 ^ 32;
                   c' = c\<lparr>FileInfos := (FileInfos c)(FileId \<mapsto> File)\<rparr>
               in if send_fails env FileId then c'
                  else c'\<lparr>control_sent := control_sent c @ [enc_u32 Size @ take Size File]\<rparr>))"

section \<open>Receiving ids\<close>

definition forget_file :: "u64 \<Rightarrow> client \<Rightarrow> client \<times> flow" where
  "forget_file FileId c =
     (case FileInfos c FileId of
        None \<Rightarrow> (c, NextBuffer)
      | Some _ \<Rightarrow> (c\<lparr>FileInfos := (FileInfos c)(FileId := None)\<rparr>, NextBuffer))"

datatype client_stream_event =
    ClientStartComplete bool         \<comment> \<open>whether the start succeeded\<close>
  | ClientReceive "bytes list"
  | ClientSendComplete
  | ClientShutdownComplete
  | ClientOther

text \<open>The callback of the control stream; events other than a receive only print or free.\<close>

fun QSyncClientControlStreamCallback :: "client \<Rightarrow> client_stream_event \<Rightarrow> ub + client" where
  "QSyncClientControlStreamCallback c (ClientReceive bufs) =
     (case id_buffers forget_file bufs (control_reader c) c of
        Inl e \<Rightarrow> Inl e
      | Inr (r, c') \<Rightarrow> Inr (c'\<lparr>control_reader := r\<rparr>))"
| "QSyncClientControlStreamCallback c (ClientStartComplete ok) = Inr c"
| "QSyncClientControlStreamCallback c ClientSendComplete = Inr c"
| "QSyncClientControlStreamCallback c ClientShutdownComplete = Inr c"
| "QSyncClientControlStreamCallback c ClientOther = Inr c"

section \<open>What the search sends\<close>

text \<open>
  A search does not look at the state of its callback: what it does with any callback is what the
  callback does with the list the recording one makes.
\<close>

definition apply_reports :: "'c callback \<Rightarrow> report_log \<Rightarrow> 'c \<Rightarrow> 'c" where
  "apply_reports cb log c = fold (\<lambda>(i, d). cb i d) log c"

definition lift_reports :: "'c callback \<Rightarrow> 'c \<Rightarrow> report_log scan_state \<Rightarrow> 'c scan_state" where
  "lift_reports cb c st = (fst st, apply_reports cb (snd st) c)"

lemma lift_DirItem:
  "DirItemToFileInfo env cb R item type link (lift_reports cb c st) =
   lift_reports cb c (DirItemToFileInfo env record_report R item type link st)"
  by (cases st)
    (simp add: DirItemToFileInfo_def lift_reports_def apply_reports_def record_report_def Let_def
      split: option.splits)

lemma fold_natural: "(\<And>x s. f x (g s) = g (f' x s)) \<Longrightarrow> fold f xs (g s) = g (fold f' xs s)"
  by (induction xs arbitrary: s) simp_all

lemma lift_report_folder:
  "report_folder env cb R d (lift_reports cb c st) = lift_reports cb c (report_folder env record_report R d st)"
  unfolding report_folder_def
  by (rule fold_natural) (auto simp: report_def lift_DirItem split: option.splits)

definition search_start ::
  "files_env \<Rightarrow> 'c callback \<Rightarrow> string \<Rightarrow> path \<Rightarrow> path \<Rightarrow> 'c scan_state \<Rightarrow> 'c scan_state"
where
  "search_start env cb Root C L st =
     (if has_stem (path_of Root) then DirItemToFileInfo env cb L C DIR no_link st else st)"

lemma FindFiles_any_callback:
  assumes "FindFiles env record_report Root (k, []) = Some (ok, (k', log))"
  shows "FindFiles env cb Root (k, c) = Some (ok, (k', apply_reports cb log c))"
proof (cases "search_roots (env_fs env) Root")
  case None
  with assms show ?thesis by (simp add: FindFiles_def apply_reports_def)
next
  case (Some roots)
  obtain C L where roots: "roots = (C, L)" by (cases roots)
  have start: "search_start env cb Root C L (k, c) = lift_reports cb c (search_start env record_report Root C L (k, []))"
    using lift_DirItem [of env cb L C DIR no_link c "(k, [])"]
    by (simp add: search_start_def lift_reports_def apply_reports_def)
  obtain n where loop: "queue_loop (ProcessFolder env record_report L) [C] True (search_start env record_report Root C L (k, [])) =
      Some (True \<and> list_all (folder_ok (env_fs env)) (levels (folder_dirs (env_fs env)) n [C]),
        fold (report_folder env record_report L) (levels (folder_dirs (env_fs env)) n [C])
          (search_start env record_report Root C L (k, [])))"
    and n: "level (folder_dirs (env_fs env)) n [C] = []"
    using search.loops_terminate [of env record_report L "[C]" True "search_start env record_report Root C L (k, [])"] by blast
  have "fold (report_folder env cb L) (levels (folder_dirs (env_fs env)) n [C]) (search_start env cb Root C L (k, c)) =
      lift_reports cb c (fold (report_folder env record_report L) (levels (folder_dirs (env_fs env)) n [C])
        (search_start env record_report Root C L (k, [])))"
    unfolding start by (rule fold_natural) (rule lift_report_folder)
  with search.queue_loop_levels [OF n, where cb = cb and Root = L and r = True and s = "search_start env cb Root C L (k, c)"] loop assms Some roots show ?thesis
    by (simp add: FindFiles_def search_start_def [symmetric]) (simp add: lift_reports_def)
qed

text \<open>What is sent for a list of reports: a frame for each that MsQuic does not refuse.\<close>

definition sent_reports :: "client_env \<Rightarrow> report_log \<Rightarrow> report_log" where
  "sent_reports env log = filter (\<lambda>(i, d). \<not> send_fails env i) log"

lemma apply_on_file_found:
  assumes "\<not> malloc_fails env"
  shows "process c = Running \<Longrightarrow> distinct (map fst log) \<Longrightarrow> \<forall>i \<in> fst ` set log. FileInfos c i = None \<Longrightarrow>
    \<forall>d \<in> snd ` set log. length d < 2 ^ 32 \<Longrightarrow>
    apply_reports (on_file_found env) log c =
      c\<lparr>FileInfos := FileInfos c ++ map_of log,
        control_sent := control_sent c @ map (frame_bytes \<circ> message_frame \<circ> snd) (sent_reports env log)\<rparr>"
proof (induction log arbitrary: c)
  case Nil
  then show ?case by (simp add: apply_reports_def sent_reports_def)
next
  case (Cons r log)
  obtain i d where r: "r = (i, d)" by (cases r)
  let ?c = "on_file_found env i d c"
  have c: "?c = c\<lparr>FileInfos := (FileInfos c)(i \<mapsto> d),
      control_sent := control_sent c @ map (frame_bytes \<circ> message_frame \<circ> snd) (sent_reports env [(i, d)])\<rparr>"
    using Cons.prems assms
    by (simp add: r on_file_found_def Let_def sent_reports_def frame_bytes_def message_frame_def)
  have "apply_reports (on_file_found env) log ?c =
      ?c\<lparr>FileInfos := FileInfos ?c ++ map_of log,
        control_sent := control_sent ?c @ map (frame_bytes \<circ> message_frame \<circ> snd) (sent_reports env log)\<rparr>"
    using Cons.prems by (intro Cons.IH) (auto simp: c r)
  moreover have "map_of log i = None" using Cons.prems(2) by (simp add: r map_of_eq_None_iff)
  then have "(FileInfos c)(i \<mapsto> d) ++ map_of log = FileInfos c ++ (map_of log)(i \<mapsto> d)"
    by (intro ext) (simp add: map_add_def split: option.split)
  moreover have "sent_reports env (r # log) = sent_reports env [(i, d)] @ sent_reports env log"
    by (simp add: r sent_reports_def)
  ultimately show ?case by (simp add: apply_reports_def r c comp_def fun_upd_def)
qed

text \<open>
  C15. While it searches, the client keeps every file info it finds under its id, and sends it as one
  frame, its size and the serialized info, in the order of the search; no two infos get the same id,
  so the search never ends the program. An info whose send MsQuic refuses stays in the table
  although the server never hears of it.
\<close>

theorem client_sends_file_infos:
  assumes "FindFiles fenv record_report Root (k, []) = Some (ok, (k', log))"
    and "length log < 2 ^ 64" and "\<forall>d \<in> snd ` set log. length d < 2 ^ 32" and "\<not> malloc_fails env"
  shows "\<exists>c. FindFiles fenv (on_file_found env) Root (k, init_client) = Some (ok, (k', c)) \<and>
    process c = Running \<and> FileInfos c = map_of log \<and>
    concat (control_sent c) = frames_bytes (map (message_frame \<circ> snd) (sent_reports env log))"
proof -
  have "distinct (map fst log)" using search_ids [OF assms(1)] assms(2) by simp
  then have "apply_reports (on_file_found env) log init_client = init_client\<lparr>FileInfos := map_of log,
      control_sent := map (frame_bytes \<circ> message_frame \<circ> snd) (sent_reports env log)\<rparr>"
    using apply_on_file_found [OF assms(4), of init_client log] assms(3)
    by (simp add: init_client_def)
  with FindFiles_any_callback [OF assms(1), of "on_file_found env" init_client] show ?thesis
    by (simp add: frames_bytes_def comp_def init_client_def)
qed

definition example_client_env :: client_env where
  "example_client_env = \<lparr>malloc_fails = False, send_fails = (\<lambda>i. i = 1), client_capnp = env_capnp tiny_env\<rparr>"

theorem client_sends_file_infos_witness:
  "\<exists>c. FindFiles tiny_env (on_file_found example_client_env) ''/s'' (0, init_client) = Some (True, (2, c)) \<and>
    process c = Running \<and> FileInfos c = map_of [(1, [1]), (2, [2])] \<and>
    concat (control_sent c) = [1, 0, 0, 0, 2]"
  using client_sends_file_infos [OF tiny_search, of example_client_env]
  by (simp add: example_client_env_def sent_reports_def message_frame_def frames_bytes_def frame_bytes_def
      enc_u32_def nat_le_numeral)

section \<open>What the returned ids do\<close>

lemma handle_forget:
  "handle_ids forget_file ids c = (c\<lparr>FileInfos := FileInfos c |` (- set ids)\<rparr>, NextBuffer)"
proof (induction ids arbitrary: c)
  case Nil
  show ?case by (simp add: restrict_map_def)
next
  case (Cons i ids)
  have "fst (forget_file i c) = c\<lparr>FileInfos := FileInfos c |` (- {i})\<rparr>"
    by (cases "FileInfos c i") (auto simp: forget_file_def restrict_map_def fun_upd_def intro!: client.equality ext)
  then have "forget_file i c = (c\<lparr>FileInfos := FileInfos c |` (- {i})\<rparr>, NextBuffer)"
    by (simp add: forget_file_def prod_eq_iff split: option.splits)
  moreover have "- {i} \<inter> - set ids = - set (i # ids)" by auto
  then have "FileInfos c |` (- {i}) |` (- set ids) = FileInfos c |` (- set (i # ids))"
    by (simp only: restrict_restrict)
  ultimately show ?case using Cons.IH [of "c\<lparr>FileInfos := FileInfos c |` (- {i})\<rparr>"]
    by (simp del: restrict_restrict list.set)
qed

text \<open>One id in one receive, at an id boundary.\<close>

lemma client_forgets_one:
  assumes "reader_wf (control_reader c)" and "id_pending (control_reader c) = []"
  shows "\<exists>c'. QSyncClientControlStreamCallback c (ClientReceive [enc_u64 i]) = Inr c' \<and>
    FileInfos c' = (FileInfos c)(i := None) \<and> reader_wf (control_reader c') \<and> id_pending (control_reader c') = []"
proof -
  have "FileIdBytes (control_reader c) = 0" using assms by (auto simp: reader_wf_def id_pending_def)
  moreover have "snd (forget_file i x) = NextBuffer" for i x by (simp add: forget_file_def split: option.splits)
  moreover have "ids_of (enc_u64 i) = [i]" "id_rest (enc_u64 i) = []"
    using ids_of_encoded [of "[i]" "[]"] id_rest_encoded [of "[i]" "[]"] ids_of_short [of "[]"] by simp_all
  moreover have "fst (handle_ids forget_file [i] c) = c\<lparr>FileInfos := FileInfos c |` (- {i})\<rparr>"
    using handle_forget [of "[i]" c] by (simp del: handle_ids.simps)
  ultimately obtain s' where "id_buffers forget_file [enc_u64 i] (control_reader c) c =
      Inr (s', c\<lparr>FileInfos := FileInfos c |` (- {i})\<rparr>)" "reader_wf s'" "id_pending s' = []"
    using id_buffers_refines [of forget_file "control_reader c" "[enc_u64 i]" c] assms
    by (auto simp del: id_buffers.simps handle_ids.simps)
  moreover have "FileInfos c |` (- {i}) = (FileInfos c)(i := None)" by (auto simp: restrict_map_def)
  ultimately show ?thesis by (simp del: id_buffers.simps)
qed

text \<open>
  When the server returns ids on the control stream, the client forgets exactly these file infos
  and ends at an id boundary, for every cut of the stream in which no buffer that completes an id
  goes on behind it.
\<close>

theorem client_forgets_returned_ids:
  assumes "control_reader c = init_reader" and "cuts_ok 0 bufs" and "concat bufs = concat (map enc_u64 ids)"
  shows "\<exists>c'. QSyncClientControlStreamCallback c (ClientReceive bufs) = Inr c' \<and>
    FileInfos c' = FileInfos c |` (- set ids) \<and> id_pending (control_reader c') = []"
proof -
  have "ids_of (concat bufs) = ids" "id_rest (concat bufs) = []"
    using ids_of_encoded [of ids "[]"] id_rest_encoded [of ids "[]"] ids_of_short [of "[]"]
    by (simp_all add: assms(3))
  moreover have "snd (forget_file i x) = NextBuffer" for i x by (simp add: forget_file_def split: option.splits)
  ultimately show ?thesis
    using id_buffers_refines [of forget_file init_reader bufs c] assms(1,2) by (auto simp: handle_forget)
qed

theorem client_forgets_returned_ids_witness:
  "\<exists>c'. QSyncClientControlStreamCallback
      (init_client\<lparr>FileInfos := [5 \<mapsto> [1], 6 \<mapsto> [2]]\<rparr>) (ClientReceive [[5, 0, 0], [0, 0, 0, 0, 0]]) = Inr c' \<and>
    FileInfos c' = [5 \<mapsto> [1], 6 \<mapsto> [2]] |` (- {5}) \<and> id_pending (control_reader c') = []"
  using client_forgets_returned_ids
    [of "init_client\<lparr>FileInfos := [5 \<mapsto> [1], 6 \<mapsto> [2]]\<rparr>" "[[5, 0, 0], [0, 0, 0, 0, 0]]" "[5]"]
  by (simp add: init_client_def enc_u64_def nat_le_numeral)

end
