(* ===== verification/ClientData.thy ===== *)
theory ClientData
  imports ClientControl
begin

text \<open>
  A data stream on the client's side (\<open>client.cpp\<close>): \<open>DataStreamContext\<close>, the worker
  \<open>FileIoWorker\<close> that reads a file in chunks and sends them, and
  \<open>QSyncClientDataStreamCallback\<close>, which opens the file an id asks for and reacts to completed
  sends. The worker runs on the thread of the client's pool, the callback on a thread of MsQuic, so
  besides the two functions as they run alone there is a machine whose steps are their accesses to
  the shared context.
\<close>

section \<open>State\<close>

definition FILE_IO_SIZE :: nat where "FILE_IO_SIZE = 65535"
definition MAX_OUTSTANDING_SENDS :: nat where "MAX_OUTSTANDING_SENDS = 4"

text \<open>
  \<open>unread\<close> is what \<open>FileReadStream\<close> can still deliver, \<open>work\<close> counts the items for this stream in
  the pool, \<open>in_flight\<close> the sends MsQuic has accepted and not completed; \<open>sent\<close> are the accepted
  sends with their \<open>FIN\<close> flag, and \<open>aborted\<close> says that the stream was shut down.
\<close>

record data_stream =
  id_state :: id_reader
  unread :: bytes
  OutstandingSends :: nat
  EndOfFile :: bool
  work :: nat
  in_flight :: nat
  sent :: "(bytes \<times> bool) list"
  aborted :: bool

definition new_stream :: data_stream where
  "new_stream = \<lparr>id_state = init_reader, unread = [], OutstandingSends = 0, EndOfFile = False, work = 0,
     in_flight = 0, sent = [], aborted = False\<rparr>"

definition enqueue_work :: "data_stream \<Rightarrow> data_stream" where
  "enqueue_work d = d\<lparr>work := Suc (work d)\<rparr>"

text \<open>\<open>read\<close> and \<open>gcount\<close>: the bytes delivered, fewer than asked for only at the end of the file.\<close>

definition read_chunk :: "data_stream \<Rightarrow> bytes \<times> bool" where
  "read_chunk d =
     (let Buffer = take FILE_IO_SIZE (unread d) in (Buffer, length Buffer < FILE_IO_SIZE))"

definition more_sends :: "data_stream \<Rightarrow> bool" where
  "more_sends d \<longleftrightarrow> \<not> EndOfFile d \<and> OutstandingSends d < MAX_OUTSTANDING_SENDS"

section \<open>The worker\<close>

text \<open>
  One run of \<open>FileIoWorker\<close>. A failed \<open>malloc\<close> is reported and then dereferenced; a refused
  send drops the chunk.
\<close>

definition FileIoWorker :: "bool \<Rightarrow> bool \<Rightarrow> data_stream \<Rightarrow> ub + data_stream" where
  "FileIoWorker malloc_ok send_ok d =
     (if EndOfFile d then Inr d
      else if \<not> malloc_ok then Inl NullDereference
      else
        (case read_chunk d of
           (Buffer, at_end) \<Rightarrow>
             let d1 = d\<lparr>unread := drop FILE_IO_SIZE (unread d), EndOfFile := at_end\<rparr>
             in if \<not> send_ok then Inr d1
                else
                  let d2 = d1\<lparr>sent := sent d @ [(Buffer, at_end)], in_flight := Suc (in_flight d),
                             OutstandingSends := u32_add (OutstandingSends d) 1\<rparr>
                  in Inr (if more_sends d2 then enqueue_work d2 else d2)))"

section \<open>The callback\<close>

text \<open>
  What an id asks for: the source path is the reported path below the parent of the synchronised
  directory; a file that does not open aborts the stream and stays in the table. The state is the
  client with the stream.
\<close>

record data_env =
  data_fs :: fsys
  data_capnp :: capnp
  SyncPath :: string

definition source_path :: "data_env \<Rightarrow> FileInfo \<Rightarrow> path" where
  "source_path env File =
     (let SyncRoot = path_of (SyncPath env)
      in path_append (if has_stem SyncRoot then parent_path SyncRoot else SyncRoot)
           (path_of (c_str (getPath File))))"

definition open_requested_file ::
  "data_env \<Rightarrow> u64 \<Rightarrow> client \<times> data_stream \<Rightarrow> (client \<times> data_stream) \<times> flow"
where
  "open_requested_file env FileId cd =
     (case cd of (c, d) \<Rightarrow>
        (case FileInfos c FileId of
           None \<Rightarrow> (cd, NextBuffer)
         | Some Data \<Rightarrow>
             (case unpack (data_capnp env) Data of
                None \<Rightarrow> ((c\<lparr>process := Crashed UncaughtException\<rparr>, d), ReturnSuccess)
              | Some File \<Rightarrow>
                  (case fs_read_file (data_fs env) (source_path env File) of
                     None \<Rightarrow> ((c, d\<lparr>unread := [], aborted := True\<rparr>), ReturnSuccess)
                   | Some Contents \<Rightarrow>
                       ((c\<lparr>FileInfos := (FileInfos c)(FileId := None)\<rparr>,
                         enqueue_work (d\<lparr>unread := Contents\<rparr>)), NextBuffer)))))"

text \<open>A completed send: \<open>OutstandingSends\<close> is an unsigned 32-bit counter.\<close>

definition complete_send :: "data_stream \<Rightarrow> data_stream" where
  "complete_send d =
     d\<lparr>in_flight := in_flight d - 1, OutstandingSends := u32_sub (OutstandingSends d) 1\<rparr>"

fun QSyncClientDataStreamCallback ::
  "data_env \<Rightarrow> client \<times> data_stream \<Rightarrow> client_stream_event \<Rightarrow> ub + client \<times> data_stream option"
where
  "QSyncClientDataStreamCallback env (c, d) (ClientReceive bufs) =
     (case id_buffers (open_requested_file env) bufs (id_state d) (c, d) of
        Inl e \<Rightarrow> Inl e
      | Inr (r, (c', d')) \<Rightarrow> Inr (c', Some (d'\<lparr>id_state := r\<rparr>)))"
| "QSyncClientDataStreamCallback env (c, d) ClientSendComplete =
     (let d' = complete_send d in Inr (c, Some (if more_sends d' then enqueue_work d' else d')))"
| "QSyncClientDataStreamCallback env (c, d) ClientShutdownComplete = Inr (c, None)"
| "QSyncClientDataStreamCallback env (c, d) (ClientStartComplete ok) = Inr (c, Some d)"
| "QSyncClientDataStreamCallback env (c, d) ClientOther = Inr (c, Some d)"

section \<open>The machine\<close>

text \<open>
  Where the worker thread stands in \<open>FileIoWorker\<close> and MsQuic's thread in the handling of a
  completed send. The file is read before \<open>EndOfFile\<close> is set, by the only thread that sets it, so
  reading and setting are one step; sending, counting and checking are steps of their own.
\<close>

datatype worker_phase =
    WorkerIdle
  | WorkerReading                     \<comment> \<open>past the test of \<open>EndOfFile\<close>\<close>
  | WorkerSending bytes bool
  | WorkerCounting                    \<comment> \<open>before \<open>++OutstandingSends\<close>\<close>
  | WorkerChecking                    \<comment> \<open>before the last test\<close>

datatype callback_phase = CallbackIdle | CallbackChecking

record send_machine =
  strm :: "data_stream option"        \<comment> \<open>\<open>None\<close> once the context is deleted\<close>
  queued :: nat                       \<comment> \<open>the items in the pool, which outlive the context\<close>
  worker_at :: worker_phase
  callback_at :: callback_phase

datatype send_event =
    TakeItem | ReadFile | SendChunk bool | CountSend | CheckWorker
  | CompleteSend | CheckCallback | DeleteContext

text \<open>The worker's step on a deleted context is a use after free; other steps need the context.\<close>

definition on_stream ::
  "(data_stream \<Rightarrow> send_machine \<Rightarrow> send_machine) \<Rightarrow> send_machine \<Rightarrow> (ub + send_machine) option"
where
  "on_stream f m = Some (case strm m of None \<Rightarrow> Inl UseAfterFree | Some d \<Rightarrow> Inr (f d m))"

fun send_step :: "send_event \<Rightarrow> send_machine \<Rightarrow> (ub + send_machine) option" where
  "send_step TakeItem m =
     (if worker_at m = WorkerIdle \<and> 0 < queued m then
        on_stream (\<lambda>d m. m\<lparr>queued := queued m - 1,
          worker_at := (if EndOfFile d then WorkerIdle else WorkerReading)\<rparr>) m
      else None)"
| "send_step ReadFile m =
     (if worker_at m = WorkerReading then
        on_stream (\<lambda>d m. case read_chunk d of (Buffer, at_end) \<Rightarrow>
          m\<lparr>strm := Some (d\<lparr>unread := drop FILE_IO_SIZE (unread d), EndOfFile := at_end\<rparr>),
            worker_at := WorkerSending Buffer at_end\<rparr>) m
      else None)"
| "send_step (SendChunk ok) m =
     (case worker_at m of
        WorkerSending Buffer fin \<Rightarrow>
          on_stream (\<lambda>d m.
            if ok then
              m\<lparr>strm := Some (d\<lparr>sent := sent d @ [(Buffer, fin)], in_flight := Suc (in_flight d)\<rparr>),
                worker_at := WorkerCounting\<rparr>
            else m\<lparr>worker_at := WorkerIdle\<rparr>) m
      | _ \<Rightarrow> None)"
| "send_step CountSend m =
     (if worker_at m = WorkerCounting then
        on_stream (\<lambda>d m.
          m\<lparr>strm := Some (d\<lparr>OutstandingSends := u32_add (OutstandingSends d) 1\<rparr>),
            worker_at := WorkerChecking\<rparr>) m
      else None)"
| "send_step CheckWorker m =
     (if worker_at m = WorkerChecking then
        on_stream (\<lambda>d m.
          m\<lparr>queued := (if more_sends d then Suc (queued m) else queued m), worker_at := WorkerIdle\<rparr>) m
      else None)"
| "send_step CompleteSend m =
     (case strm m of
        Some d \<Rightarrow>
          (if callback_at m = CallbackIdle \<and> 0 < in_flight d then
             Some (Inr (m\<lparr>strm := Some (complete_send d), callback_at := CallbackChecking\<rparr>))
           else None)
      | None \<Rightarrow> None)"
| "send_step CheckCallback m =
     (if callback_at m = CallbackChecking then
        on_stream (\<lambda>d m.
          m\<lparr>queued := (if more_sends d then Suc (queued m) else queued m), callback_at := CallbackIdle\<rparr>) m
      else None)"
| "send_step DeleteContext m =
     (case strm m of
        Some d \<Rightarrow>
          (if callback_at m = CallbackIdle \<and> in_flight d = 0 then Some (Inr (m\<lparr>strm := None\<rparr>)) else None)
      | None \<Rightarrow> None)"

fun run_events :: "send_event list \<Rightarrow> send_machine \<Rightarrow> (ub + send_machine) option" where
  "run_events [] m = Some (Inr m)"
| "run_events (e # es) m =
     (case send_step e m of
        None \<Rightarrow> None
      | Some (Inl u) \<Rightarrow> Some (Inl u)
      | Some (Inr m') \<Rightarrow> run_events es m')"

text \<open>The machine after a file was opened: one item in the pool.\<close>

definition opened :: "bytes \<Rightarrow> send_machine" where
  "opened file = \<lparr>strm = Some (new_stream\<lparr>unread := file\<rparr>), queued = 1, worker_at = WorkerIdle,
     callback_at = CallbackIdle\<rparr>"

text \<open>One step of either thread in which no send is refused.\<close>

inductive machine_step :: "send_machine \<Rightarrow> send_machine \<Rightarrow> bool" where
  machine_step: "e \<noteq> SendChunk False \<Longrightarrow> send_step e m = Some (Inr m') \<Longrightarrow> machine_step m m'"


inductive_cases machine_stepE: "machine_step m m'"

lemmas send_defs = read_chunk_def on_stream_def more_sends_def complete_send_def Let_def

text \<open>The steps of one thread, uninterrupted, are the function it runs.\<close>

lemma worker_steps:
  assumes "strm m = Some d" and "worker_at m = WorkerIdle" and "queued m = Suc q"
  shows "\<not> EndOfFile d \<Longrightarrow> FileIoWorker True True d = Inr d' \<Longrightarrow>
      run_events [TakeItem, ReadFile, SendChunk True, CountSend, CheckWorker] m =
        Some (Inr (m\<lparr>strm := Some (d'\<lparr>work := work d\<rparr>), queued := q + (work d' - work d)\<rparr>))"
    and "EndOfFile d \<Longrightarrow> FileIoWorker True True d = Inr d \<and>
      run_events [TakeItem] m = Some (Inr (m\<lparr>queued := q\<rparr>))"
  using assms
  by (cases d; cases m; auto simp: FileIoWorker_def send_defs enqueue_work_def)+

lemma callback_steps:
  assumes "strm m = Some d" and "callback_at m = CallbackIdle" and "0 < in_flight d"
    and "QSyncClientDataStreamCallback env (c, d) ClientSendComplete = Inr (c, Some d')"
  shows "run_events [CompleteSend, CheckCallback] m =
    Some (Inr (m\<lparr>strm := Some (d'\<lparr>work := work d\<rparr>), queued := queued m + (work d' - work d)\<rparr>))"
  using assms by (cases d; cases m; auto simp: send_defs enqueue_work_def)

section \<open>Invariants of the machine\<close>

fun pending_chunks :: "worker_phase \<Rightarrow> (bytes \<times> bool) list" where
  "pending_chunks (WorkerSending Buffer fin) = [(Buffer, fin)]"
| "pending_chunks _ = []"

text \<open>
  The chunks cut so far and the rest are the file; every chunk but the last has full size, and the
  flag, the size of a chunk and \<open>EndOfFile\<close> agree.
\<close>

definition chunks_ok :: "bytes \<Rightarrow> (bytes \<times> bool) list \<Rightarrow> bool \<Rightarrow> bytes \<Rightarrow> bool" where
  "chunks_ok file cs eof rest \<longleftrightarrow>
     concat (map fst cs) @ rest = file \<and>
     (\<forall>(b, fin) \<in> set cs. length b \<le> FILE_IO_SIZE \<and> (fin \<longleftrightarrow> length b < FILE_IO_SIZE)) \<and>
     (\<forall>c \<in> set (butlast cs). \<not> snd c) \<and>
     (if eof then rest = [] \<and> cs \<noteq> [] \<and> snd (last cs) else \<forall>c \<in> set cs. \<not> snd c)"

definition content_inv :: "bytes \<Rightarrow> send_machine \<Rightarrow> bool" where
  "content_inv file m \<longleftrightarrow>
     (\<forall>d. strm m = Some d \<longrightarrow>
        chunks_ok file (sent d @ pending_chunks (worker_at m)) (EndOfFile d) (unread d) \<and>
        (worker_at m = WorkerReading \<longrightarrow> \<not> EndOfFile d))"

lemma chunks_ok_read:
  assumes "chunks_ok file cs False rest"
    and "fin \<longleftrightarrow> length (take FILE_IO_SIZE rest) < FILE_IO_SIZE"
  shows "chunks_ok file (cs @ [(take FILE_IO_SIZE rest, fin)]) fin (drop FILE_IO_SIZE rest)"
  using assms by (auto simp: chunks_ok_def butlast_append)

lemma content_inv_start: "content_inv file (opened file)"
  by (simp add: content_inv_def opened_def new_stream_def chunks_ok_def)

lemma content_inv_event:
  assumes "e \<noteq> SendChunk False" and inv: "content_inv file m" and step: "send_step e m = Some (Inr m')"
  shows "content_inv file m'"
proof (cases "e = ReadFile")
  case True
  with step obtain d where d: "strm m = Some d" "worker_at m = WorkerReading"
    by (cases "strm m") (auto simp: on_stream_def split: if_splits)
  with inv have "chunks_ok file (sent d) False (unread d)" by (auto simp: content_inv_def)
  from chunks_ok_read [OF this refl] step True d show ?thesis
    by (auto simp: content_inv_def on_stream_def read_chunk_def Let_def)
next
  case False
  with assms show ?thesis
    by (cases e; cases "worker_at m"; cases "strm m")
      (auto simp: content_inv_def on_stream_def complete_send_def Let_def split: if_splits)
qed

lemma content_inv_step:
  assumes "content_inv file m" and "machine_step m m'"
  shows "content_inv file m'"
  using assms(2,1) content_inv_event by (auto elim: machine_stepE)

text \<open>
  The counter is the number of sends in flight, up to the one the worker has not yet counted; and
  when both threads rest and the pool has no item left, the counter has reached its limit or the
  file is at its end.
\<close>

definition progress_inv :: "send_machine \<Rightarrow> bool" where
  "progress_inv m \<longleftrightarrow>
     (\<forall>d. strm m = Some d \<longrightarrow>
        OutstandingSends d < 2 ^ 32 \<and>
        u32_add (OutstandingSends d) (if worker_at m = WorkerCounting then 1 else 0) =
          in_flight d mod 2 ^ 32 \<and>
        (worker_at m = WorkerIdle \<and> callback_at m = CallbackIdle \<and> queued m = 0 \<longrightarrow> \<not> more_sends d))"

lemma Suc_mod_cancel: "Suc a mod k = Suc b mod k \<Longrightarrow> a mod k = b mod (k :: nat)"
  by (cases "k = 0") (auto simp: mod_Suc split: if_splits)

lemma u32_complete:
  assumes "x < 2 ^ 32" and "u32_add x n = Suc f mod 2 ^ 32"
  shows "u32_sub x 1 < 2 ^ 32 \<and> u32_add (u32_sub x 1) n = f mod 2 ^ 32"
proof
  define k :: nat where "k = 2 ^ 32"
  have k: "0 < k" by (simp add: k_def)
  note defs = u32_add_def u32_sub_def k_def [symmetric]
  from assms(1) show "u32_sub x 1 < 2 ^ 32" by (cases x) (simp_all add: u32_sub_def)
  have "Suc (u32_sub x 1 + n) mod k = (x + n) mod k"
  proof (cases x)
    case 0
    then have "Suc (u32_sub x 1 + n) = n + k" by (simp add: u32_sub_def k_def)
    then have "Suc (u32_sub x 1 + n) mod k = n mod k" by (simp only: mod_add_self2)
    with 0 show ?thesis by simp
  next
    case (Suc y)
    then show ?thesis by (simp add: defs)
  qed
  with assms(2) have "Suc (u32_sub x 1 + n) mod k = Suc f mod k" by (simp add: u32_add_def k_def)
  from Suc_mod_cancel [OF this] show "u32_add (u32_sub x 1) n = f mod 2 ^ 32"
    by (simp only: u32_add_def k_def)
qed

lemma u32_count: "u32_add x 1 = y mod 2 ^ 32 \<Longrightarrow> u32_add x 1 < 2 ^ 32 \<and> u32_add (u32_add x 1) 0 = y mod 2 ^ 32"
  by (simp add: u32_add_def)

lemma u32_send: "u32_add x 0 = y mod 2 ^ 32 \<Longrightarrow> u32_add x 1 = Suc y mod 2 ^ 32"
  unfolding u32_add_def by (metis add.right_neutral mod_Suc_eq Suc_eq_plus1)

lemma progress_inv_start: "progress_inv (opened file)"
  by (simp add: progress_inv_def opened_def new_stream_def u32_add_def)

lemma progress_inv_event:
  assumes "e \<noteq> SendChunk False" and "progress_inv m" and "send_step e m = Some (Inr m')"
  shows "progress_inv m'"
proof (cases "strm m")
  case None
  with assms(3) show ?thesis
    by (cases e) (auto simp: on_stream_def split: if_splits worker_phase.splits)
next
  case (Some d)
  let ?n = "if worker_at m = WorkerCounting then 1 else 0 :: nat"
  from assms(2) Some have inv: "OutstandingSends d < 2 ^ 32" "u32_add (OutstandingSends d) ?n = in_flight d mod 2 ^ 32"
    "worker_at m = WorkerIdle \<Longrightarrow> callback_at m = CallbackIdle \<Longrightarrow> queued m = 0 \<Longrightarrow> \<not> more_sends d"
    by (simp_all add: progress_inv_def)
  show ?thesis
  proof (cases e)
    case (SendChunk ok)
    with assms Some inv u32_send [of "OutstandingSends d" "in_flight d"] show ?thesis
      by (cases "worker_at m") (simp_all add: progress_inv_def on_stream_def, fastforce)
  next
    case CountSend
    with assms Some inv u32_count [of "OutstandingSends d" "in_flight d"] show ?thesis
      by (fastforce simp: progress_inv_def on_stream_def split: if_splits)
  next
    case CompleteSend
    with assms(3) Some have f: "0 < in_flight d" and m': "m' = m\<lparr>strm := Some (complete_send d), callback_at := CallbackChecking\<rparr>"
      by (auto split: if_splits)
    from u32_complete [OF inv(1), of ?n "in_flight d - 1"] inv(2) f show ?thesis
      by (simp add: m' progress_inv_def complete_send_def)
  next
    case DeleteContext
    with assms(3) Some show ?thesis by (auto simp: progress_inv_def split: if_splits)
  qed (use assms(3) Some inv in
      \<open>auto simp: progress_inv_def on_stream_def read_chunk_def more_sends_def Let_def split: if_splits\<close>)
qed

lemma progress_inv_step: "progress_inv m \<Longrightarrow> machine_step m m' \<Longrightarrow> progress_inv m'"
  using progress_inv_event by (auto elim: machine_stepE)

abbreviation transfers :: "bytes \<Rightarrow> send_machine \<Rightarrow> bool" where
  "transfers file \<equiv> reachable (\<lambda>m. m = opened file) machine_step"

lemma transfer_invariants:
  assumes "transfers file m"
  shows "content_inv file m \<and> progress_inv m"
  using assms
  by (rule reachable_invariant)
    (auto simp: content_inv_start progress_inv_start intro: content_inv_step progress_inv_step)

section \<open>Termination\<close>

text \<open>Every step of a transfer uses up a part of a finite budget.\<close>

fun phase_cost :: "worker_phase \<Rightarrow> nat" where
  "phase_cost WorkerIdle = 0"
| "phase_cost WorkerReading = 1"
| "phase_cost (WorkerSending b f) = 9"
| "phase_cost WorkerCounting = 4"
| "phase_cost WorkerChecking = 3"

definition reads_left :: "data_stream \<Rightarrow> nat" where
  "reads_left d = (if EndOfFile d then 0 else length (unread d) div FILE_IO_SIZE + 1)"

definition budget :: "send_machine \<Rightarrow> nat" where
  "budget m = 2 * queued m + phase_cost (worker_at m) + (if callback_at m = CallbackChecking then 3 else 0) +
     (case strm m of None \<Rightarrow> 0 | Some d \<Rightarrow> 9 * reads_left d + 4 * in_flight d + 1)"

lemma reads_left_chunk:
  "FILE_IO_SIZE \<le> n \<Longrightarrow> (n - FILE_IO_SIZE) div FILE_IO_SIZE + 1 = n div FILE_IO_SIZE"
  by (simp add: le_div_geq FILE_IO_SIZE_def)

lemma budget_event:
  assumes "content_inv file m" and "send_step e m = Some (Inr m')"
  shows "budget m' < budget m"
proof (cases "strm m")
  case None
  with assms(2) show ?thesis by (cases e) (auto simp: on_stream_def split: if_splits worker_phase.splits)
next
  case (Some d)
  note m = assms(2) Some
  show ?thesis
  proof (cases e)
    case ReadFile
    with m have at: "worker_at m = WorkerReading" by (auto split: if_splits)
    with assms(1) Some have "\<not> EndOfFile d" by (simp add: content_inv_def)
    with m ReadFile at reads_left_chunk [of "length (unread d)"] show ?thesis
      by (auto simp: budget_def on_stream_def read_chunk_def reads_left_def Let_def)
  next
    case (SendChunk ok)
    with m show ?thesis
      by (cases "worker_at m") (auto simp: budget_def on_stream_def reads_left_def)
  next
    case CompleteSend
    with m show ?thesis
      by (auto simp: budget_def complete_send_def reads_left_def split: if_splits)
  qed (use m in \<open>auto simp: budget_def on_stream_def reads_left_def split: if_splits\<close>)
qed


lemma run_reachable:
  "run_events es m0 = Some (Inr m) \<Longrightarrow> SendChunk False \<notin> set es \<Longrightarrow> transfers file m0 \<Longrightarrow>
   transfers file m \<and> length es + budget m \<le> budget m0"
proof (induction es arbitrary: m0)
  case Nil
  then show ?case by simp
next
  case (Cons e es)
  then obtain m1 where m1: "send_step e m0 = Some (Inr m1)" "run_events es m1 = Some (Inr m)"
    by (auto split: option.splits sum.splits)
  with Cons.prems(2) have "machine_step m0 m1" by (metis list.set_intros(1) machine_step.intros)
  with Cons.prems(3) have "transfers file m1" by (rule reachable_step)
  moreover have "budget m1 < budget m0"
    using budget_event m1(1) transfer_invariants [OF Cons.prems(3)] by blast
  ultimately show ?case using Cons.IH [OF m1(2)] Cons.prems(2) by fastforce
qed

lemma chunks_prefix:
  assumes "chunks_ok file (cs @ ps) eof rest"
  shows "\<exists>tail. file = concat (map fst cs) @ tail" and
    "\<forall>(b, fin) \<in> set cs. length b \<le> FILE_IO_SIZE \<and> (fin \<longleftrightarrow> length b < FILE_IO_SIZE)" and
    "i < length cs \<Longrightarrow> snd (cs ! i) \<Longrightarrow> Suc i = length cs \<and> concat (map fst cs) = file"
proof -
  show "\<exists>tail. file = concat (map fst cs) @ tail" and
    "\<forall>(b, fin) \<in> set cs. length b \<le> FILE_IO_SIZE \<and> (fin \<longleftrightarrow> length b < FILE_IO_SIZE)"
    using assms by (auto simp: chunks_ok_def)
  assume i: "i < length cs" "snd (cs ! i)"
  have "cs ! i \<notin> set (butlast (cs @ ps))" using assms i(2) by (auto simp: chunks_ok_def)
  moreover have "cs ! i \<in> set (butlast (cs @ ps))" if "Suc i < length (cs @ ps)"
    using that i(1) by (metis (no_types, lifting) Suc_lessE diff_Suc_1 in_set_conv_nth length_butlast
        nth_append nth_butlast less_Suc_eq length_append)
  ultimately have "\<not> Suc i < length (cs @ ps)" by blast
  with i(1) have "Suc i = length cs" "length ps = 0" unfolding length_append by linarith+
  moreover from i have "\<not> (\<forall>c \<in> set (cs @ ps). \<not> snd c)" by (auto dest: nth_mem)
  ultimately show "Suc i = length cs \<and> concat (map fst cs) = file"
    using assms by (auto simp: chunks_ok_def split: if_splits)
qed

section \<open>Properties of a transfer\<close>


lemma short_run:
  "run_events [TakeItem, ReadFile, SendChunk True, CompleteSend, CountSend, CheckWorker, CheckCallback] (opened [7, 8]) =
     Some (Inr (opened [7, 8]\<lparr>strm := Some (new_stream\<lparr>unread := [], EndOfFile := True, sent := [([7, 8], True)]\<rparr>),
       queued := 0\<rparr>))"
  by (simp add: opened_def new_stream_def send_defs FILE_IO_SIZE_def u32_sub_def u32_add_def)

lemma short_run_reachable:
  "transfers [7, 8] (opened [7, 8]\<lparr>strm := Some (new_stream\<lparr>unread := [], EndOfFile := True,
     sent := [([7, 8], True)]\<rparr>), queued := 0\<rparr>)"
  using run_reachable [OF short_run] by (auto intro: reachable_start)


lemma rest_complete:
  assumes "content_inv file m" and "progress_inv m" and "strm m = Some d"
    and "worker_at m = WorkerIdle \<and> callback_at m = CallbackIdle \<and> queued m = 0 \<and> in_flight d = 0"
  shows "concat (map fst (sent d)) = file \<and> sent d \<noteq> [] \<and> snd (last (sent d))"
proof -
  from assms have inv: "chunks_ok file (sent d) (EndOfFile d) (unread d)" "\<not> more_sends d"
    and "OutstandingSends d < 2 ^ 32" "u32_add (OutstandingSends d) 0 = 0"
    by (simp_all add: content_inv_def progress_inv_def)
  then have "OutstandingSends d = 0" by (simp add: u32_add_def)
  with inv(2) have "EndOfFile d" by (simp add: more_sends_def MAX_OUTSTANDING_SENDS_def)
  with inv(1) show ?thesis by (auto simp: chunks_ok_def)
qed

lemma transfer_complete:
  assumes "transfers file m" and "strm m = Some d"
    and "worker_at m = WorkerIdle" and "callback_at m = CallbackIdle" and "queued m = 0" and "in_flight d = 0"
  shows "concat (map fst (sent d)) = file \<and> sent d \<noteq> [] \<and> snd (last (sent d))"
  using transfer_invariants [OF assms(1)] assms(2-) by (intro rest_complete) auto

text \<open>Until then one of the threads has a step.\<close>

lemma send_progress:
  assumes d: "strm m = Some d"
    and busy: "\<not> (worker_at m = WorkerIdle \<and> callback_at m = CallbackIdle \<and> queued m = 0 \<and> in_flight d = 0)"
  shows "\<exists>e m'. e \<noteq> SendChunk False \<and> e \<noteq> DeleteContext \<and> send_step e m = Some (Inr m')"
proof -
  have "send_step TakeItem m \<noteq> None \<or> send_step ReadFile m \<noteq> None \<or> send_step (SendChunk True) m \<noteq> None \<or>
      send_step CountSend m \<noteq> None \<or> send_step CheckWorker m \<noteq> None \<or> send_step CompleteSend m \<noteq> None \<or>
      send_step CheckCallback m \<noteq> None"
    using d busy by (cases "worker_at m"; cases "callback_at m") (auto simp: on_stream_def)
  moreover have "\<exists>m'. send_step e m = Some (Inr m')" if "send_step e m \<noteq> None" for e
    using d that by (cases e) (auto simp: on_stream_def split: if_splits worker_phase.splits)
  ultimately show ?thesis by blast
qed

text \<open>
  A transfer never stalls: when both threads have nothing left to do, the pool is empty and every
  send is completed, the whole file has been sent and closed with \<open>FIN\<close>.
\<close>

theorem transfer_never_stalls:
  assumes "transfers file m" and "strm m = Some d"
    and "worker_at m = WorkerIdle" and "callback_at m = CallbackIdle" and "queued m = 0" and "in_flight d = 0"
  shows "concat (map fst (sent d)) = file \<and> sent d \<noteq> [] \<and> snd (last (sent d))"
  using assms by (rule transfer_complete)

theorem transfer_never_stalls_witness:
  "concat (map fst [([7 :: u8, 8], True)]) = [7, 8]"
  using transfer_never_stalls [OF short_run_reachable] by (simp add: new_stream_def opened_def)

text \<open>
  A transfer ends: however the steps interleave, a file of \<open>n\<close> bytes takes at most
  \<open>9 * (n div FILE_IO_SIZE + 1) + 3\<close> of them, and as long as the context is there and the state is
  not the one with nothing to do, one of the threads has a step, given that MsQuic completes sends.
\<close>

theorem transfer_ends:
  assumes "run_events es (opened file) = Some (Inr m)" and "SendChunk False \<notin> set es"
  shows "length es \<le> 9 * (length file div FILE_IO_SIZE + 1) + 3 \<and>
    (\<forall>d. strm m = Some d \<longrightarrow>
       (worker_at m = WorkerIdle \<and> callback_at m = CallbackIdle \<and> queued m = 0 \<and> in_flight d = 0) \<or>
       (\<exists>e m'. e \<noteq> SendChunk False \<and> e \<noteq> DeleteContext \<and> send_step e m = Some (Inr m')))"
proof -
  have "transfers file (opened file)" by (simp add: reachable_start)
  from run_reachable [OF assms this] have "length es \<le> budget (opened file)" by simp
  then have bound: "length es \<le> 9 * (length file div FILE_IO_SIZE + 1) + 3"
    by (simp add: budget_def opened_def new_stream_def reads_left_def)
  from bound send_progress show ?thesis by blast
qed

theorem transfer_ends_witness:
  "length [TakeItem, ReadFile, SendChunk True, CompleteSend, CountSend, CheckWorker, CheckCallback] \<le>
     9 * (length [7 :: u8, 8] div FILE_IO_SIZE + 1) + 3"
  using transfer_ends [OF short_run] by simp


section \<open>The machine and the functions\<close>

fun send_steps :: "bool \<Rightarrow> bool \<Rightarrow> send_event list" where
  "send_steps at_end ok =
     (if at_end then [TakeItem]
      else if ok then [TakeItem, ReadFile, SendChunk True, CountSend, CheckWorker]
      else [TakeItem, ReadFile, SendChunk False])"

lemmas machine_eval = FileIoWorker_def on_stream_def read_chunk_def Let_def more_sends_def enqueue_work_def complete_send_def



text \<open>Likewise the steps of a completed send are the callback.\<close>

lemma send_machine_runs_callback:
  assumes "strm m = Some d" and "worker_at m = WorkerIdle" and "callback_at m = CallbackIdle"
    and "queued m = work d" and "0 < in_flight d"
    and "QSyncClientDataStreamCallback env (c, d) ClientSendComplete = Inr (c', Some d')"
  shows "\<exists>m'. run_events [CompleteSend, CheckCallback] m = Some (Inr m') \<and> strm m' = Some (d'\<lparr>work := work d\<rparr>) \<and>
    queued m' = work d' \<and> worker_at m' = WorkerIdle \<and> callback_at m' = CallbackIdle \<and> c' = c"
  using assms by (auto simp: machine_eval)

section \<open>What the flow control does not prevent\<close>

lemma run_events_append:
  "run_events (xs @ ys) m =
     (case run_events xs m of None \<Rightarrow> None | Some (Inl u) \<Rightarrow> Some (Inl u) | Some (Inr m') \<Rightarrow> run_events ys m')"
  by (induction xs arbitrary: m) (auto split: option.splits sum.splits)

text \<open>Both threads at rest, \<open>n\<close> sends in flight and counted, and \<open>q\<close> items in the pool.\<close>

definition resting :: "send_machine \<Rightarrow> nat \<Rightarrow> nat \<Rightarrow> nat \<Rightarrow> bool" where
  "resting m q n left \<longleftrightarrow>
     worker_at m = WorkerIdle \<and> callback_at m = CallbackIdle \<and> q \<le> queued m \<and>
     (\<exists>d. strm m = Some d \<and> \<not> EndOfFile d \<and> in_flight d = n \<and> OutstandingSends d = n \<and>
        left * FILE_IO_SIZE \<le> length (unread d))"

text \<open>A send and its completion leave one item more in the pool than they took.\<close>

lemma grow_queue:
  assumes "resting m (Suc q) 0 (Suc l)"
  shows "\<exists>es m'. run_events es m = Some (Inr m') \<and> resting m' (Suc (Suc q)) 0 l"
proof -
  from assms obtain d where d: "strm m = Some d" "\<not> EndOfFile d" "in_flight d = 0" "OutstandingSends d = 0"
    "Suc l * FILE_IO_SIZE \<le> length (unread d)" and m: "worker_at m = WorkerIdle" "callback_at m = CallbackIdle"
    "Suc q \<le> queued m" by (auto simp: resting_def)
  from d(5) have long: "\<not> length (unread d) < FILE_IO_SIZE" "l * FILE_IO_SIZE \<le> length (unread d) - FILE_IO_SIZE"
    by auto
  let ?es = "[TakeItem, ReadFile, SendChunk True, CountSend, CheckWorker, CompleteSend, CheckCallback]"
  let ?d = "d\<lparr>unread := drop FILE_IO_SIZE (unread d), sent := sent d @ [(take FILE_IO_SIZE (unread d), False)]\<rparr>"
  have "?d\<lparr>EndOfFile := False, in_flight := 0, OutstandingSends := 0\<rparr> = ?d" using d by (cases d) simp
  let ?m = "m\<lparr>strm := Some (?d\<lparr>EndOfFile := False, in_flight := 0, OutstandingSends := 0\<rparr>),
      queued := Suc (queued m), worker_at := WorkerIdle, callback_at := CallbackIdle\<rparr>"
  have "run_events ?es m = Some (Inr ?m)"
    using d m long by (simp add: send_defs u32_add_def u32_sub_def MAX_OUTSTANDING_SENDS_def min_def)
  moreover have "resting ?m (Suc (Suc q)) 0 l" using d m long by (simp add: resting_def)
  ultimately show ?thesis by blast
qed

text \<open>With the items at hand the sends go on whatever the counter says.\<close>

lemma send_more:
  assumes "resting m (Suc q) n (Suc l)" and "Suc n < 2 ^ 32"
  shows "\<exists>es m'. run_events es m = Some (Inr m') \<and> resting m' q (Suc n) l"
proof -
  from assms obtain d where d: "strm m = Some d" "\<not> EndOfFile d" "in_flight d = n" "OutstandingSends d = n"
    "Suc l * FILE_IO_SIZE \<le> length (unread d)" and m: "worker_at m = WorkerIdle" "callback_at m = CallbackIdle"
    "Suc q \<le> queued m" by (auto simp: resting_def)
  from d(5) have long: "\<not> length (unread d) < FILE_IO_SIZE" "l * FILE_IO_SIZE \<le> length (unread d) - FILE_IO_SIZE"
    by auto
  let ?es = "[TakeItem, ReadFile, SendChunk True, CountSend, CheckWorker]"
  let ?d = "d\<lparr>unread := drop FILE_IO_SIZE (unread d), EndOfFile := False,
      sent := sent d @ [(take FILE_IO_SIZE (unread d), False)], in_flight := Suc n, OutstandingSends := Suc n\<rparr>"
  let ?m = "m\<lparr>strm := Some ?d, worker_at := WorkerIdle,
      queued := (if Suc n < MAX_OUTSTANDING_SENDS then queued m else queued m - 1)\<rparr>"
  have "run_events ?es m = Some (Inr ?m)"
    using d m long assms(2) by (simp add: send_defs min_def)
  moreover have "resting ?m q (Suc n) l" using d m long by (simp add: resting_def) linarith
  ultimately show ?thesis by blast
qed

lemma grow_many: "resting m 1 0 (q + l) \<Longrightarrow> \<exists>es m'. run_events es m = Some (Inr m') \<and> resting m' (Suc q) 0 l"
proof (induction q arbitrary: l)
  case 0
  then show ?case by (intro exI [of _ "[]"]) simp
next
  case (Suc q)
  then obtain es m1 where 1: "run_events es m = Some (Inr m1)" "resting m1 (Suc q) 0 (Suc l)" by force
  from grow_queue [OF 1(2)] obtain es' m2 where "run_events es' m1 = Some (Inr m2)" "resting m2 (Suc (Suc q)) 0 l"
    by blast
  with 1(1) show ?case by (intro exI [of _ "es @ es'"]) (simp add: run_events_append)
qed

lemma send_many:
  "resting m (n + q) k (n + l) \<Longrightarrow> k + n < 2 ^ 32 \<Longrightarrow>
   \<exists>es m'. run_events es m = Some (Inr m') \<and> resting m' q (k + n) l"
proof (induction n arbitrary: q l)
  case 0
  then show ?case by (intro exI [of _ "[]"]) simp
next
  case (Suc n)
  from Suc.IH [of "Suc q" "Suc l"] Suc.prems obtain es m1 where
    1: "run_events es m = Some (Inr m1)" "resting m1 (Suc q) (k + n) (Suc l)" by auto
  from send_more [OF 1(2)] Suc.prems(2) obtain es' m2 where
    "run_events es' m1 = Some (Inr m2)" "resting m2 q (k + Suc n) l" by auto
  with 1(1) show ?case by (intro exI [of _ "es @ es'"]) (simp add: run_events_append)
qed

text \<open>
  \<open>MAX_OUTSTANDING_SENDS\<close> does not bound the sends in flight. Every chunk that is sent and
  completed below the limit puts two items into the pool, and each item sends its chunk before it
  looks at the counter; so for every number \<open>n\<close> there is a run over a large enough file that has
  \<open>n\<close> sends outstanding.
\<close>

theorem send_limit_not_enforced:
  assumes "n < 2 ^ 32" and "2 * n * FILE_IO_SIZE \<le> length file"
  shows "\<exists>es m d. run_events es (opened file) = Some (Inr m) \<and> strm m = Some d \<and>
    in_flight d = n \<and> OutstandingSends d = n"
proof -
  have "resting (opened file) 1 0 (n + n)"
    using assms(2) by (simp add: resting_def opened_def new_stream_def mult_2)
  from grow_many [OF this] obtain es m1 where
    1: "run_events es (opened file) = Some (Inr m1)" "resting m1 (n + 1) 0 (n + 0)" by auto
  from send_many [OF 1(2)] assms(1) obtain es' m2 where
    "run_events es' m1 = Some (Inr m2)" "resting m2 1 n 0" by auto
  with 1(1) show ?thesis
    by (intro exI [of _ "es @ es'"] exI [of _ m2]) (auto simp: run_events_append resting_def)
qed

theorem send_limit_not_enforced_witness:
  "\<exists>es m d. run_events es (opened (replicate (16 * FILE_IO_SIZE) 0)) = Some (Inr m) \<and> strm m = Some d \<and>
    in_flight d = 8 \<and> OutstandingSends d = 8"
  by (rule send_limit_not_enforced) simp_all

text \<open>
  C35. The context of a stream is used after it was deleted, in an ordinary transfer in which nothing
  fails: MsQuic may complete the last send, and with the acknowledged \<open>FIN\<close> the stream, before the
  worker has counted that send.
\<close>

theorem context_used_after_delete:
  assumes "length file < FILE_IO_SIZE"
  shows "\<exists>m d. run_events [TakeItem, ReadFile, SendChunk True, CompleteSend, CheckCallback] (opened file) = Some (Inr m) \<and>
    strm m = Some d \<and> sent d = [(file, True)] \<and>
    run_events [DeleteContext, CountSend] m = Some (Inl UseAfterFree)"
  using assms by (simp add: opened_def new_stream_def send_defs u32_sub_def min_def)

theorem context_used_after_delete_witness:
  "\<exists>m d. run_events [TakeItem, ReadFile, SendChunk True, CompleteSend, CheckCallback] (opened [1]) = Some (Inr m) \<and>
    strm m = Some d \<and> sent d = [([1], True)] \<and>
    run_events [DeleteContext, CountSend] m = Some (Inl UseAfterFree)"
  using context_used_after_delete [of "[1]"] by (simp add: FILE_IO_SIZE_def)

text \<open>
  A refused send loses its chunk and nothing repairs it: if it is the first, the transfer stops
  there without \<open>FIN\<close> and without the stream being shut down; if items are left in the pool, the
  chunks after it are sent, and the receiver gets a file with a hole.
\<close>

theorem refused_send_loses_chunk:
  assumes "3 * FILE_IO_SIZE \<le> length file"
  shows "(\<exists>m d. run_events [TakeItem, ReadFile, SendChunk False] (opened file) = Some (Inr m) \<and> strm m = Some d \<and>
      worker_at m = WorkerIdle \<and> queued m = 0 \<and> sent d = [] \<and> \<not> aborted d) \<and>
    (\<exists>m d. run_events [TakeItem, ReadFile, SendChunk True, CountSend, CheckWorker, CompleteSend, CheckCallback,
        TakeItem, ReadFile, SendChunk False, TakeItem, ReadFile, SendChunk True] (opened file) = Some (Inr m) \<and>
      strm m = Some d \<and> concat (map fst (sent d)) =
        take FILE_IO_SIZE file @ take FILE_IO_SIZE (drop (2 * FILE_IO_SIZE) file))" (is "?stop \<and> ?hole")
proof
  have full: "min (length file) FILE_IO_SIZE = FILE_IO_SIZE"
    "min (length file - FILE_IO_SIZE) FILE_IO_SIZE = FILE_IO_SIZE"
    "min (length file - (FILE_IO_SIZE + FILE_IO_SIZE)) FILE_IO_SIZE = FILE_IO_SIZE"
    using assms by (auto simp: FILE_IO_SIZE_def)
  show ?stop by (simp add: opened_def new_stream_def send_defs full)
  show ?hole
    by (simp add: opened_def new_stream_def send_defs u32_sub_def u32_add_def full MAX_OUTSTANDING_SENDS_def mult_2)
qed

theorem refused_send_loses_chunk_witness:
  "\<exists>m d. run_events [TakeItem, ReadFile, SendChunk False] (opened (replicate (3 * FILE_IO_SIZE) 1)) = Some (Inr m) \<and>
    strm m = Some d \<and> worker_at m = WorkerIdle \<and> queued m = 0 \<and> sent d = [] \<and> \<not> aborted d"
  using refused_send_loses_chunk [of "replicate (3 * FILE_IO_SIZE) 1"] by simp

section \<open>Requests\<close>

lemma handle_one_id:
  assumes "id_state d = init_reader" and "open_requested_file env FileId (c, d) = (cd', fl)"
  shows "\<exists>r. id_buffers (open_requested_file env) [enc_u64 FileId] (id_state d) (c, d) = Inr (r, cd') \<and> reader_wf r"
proof -
  have ids: "buffer_ids init_reader (enc_u64 FileId) = [FileId]"
    using ids_of_encoded [of "[FileId]" "[]"] ids_of_short [of "[]"] by (simp add: buffer_ids_def)
  have "handle_ids (open_requested_file env) [FileId] (c, d) = (cd', fl)" using assms(2) by (cases fl) simp_all
  with id_loop_buffer [OF init_reader(1), of "enc_u64 FileId" "open_requested_file env" "(c, d)" cd' fl] ids
  show ?thesis by (cases fl) (auto simp: assms(1))
qed

text \<open>
  A data stream on which the server sends one id: if the client knows the id and the file opens,
  the client forgets the info, and the stream will send what the file contains; if the file does
  not open, the client aborts the stream and keeps the info; an unknown id changes nothing, and the
  server gets no answer.
\<close>

theorem request_opens_file:
  "\<exists>c' d'. QSyncClientDataStreamCallback env (c, new_stream) (ClientReceive [enc_u64 FileId]) = Inr (c', Some d') \<and>
    control_reader c' = control_reader c \<and>
    (case FileInfos c FileId of
       None \<Rightarrow> c' = c \<and> work d' = 0 \<and> \<not> aborted d'
     | Some Data \<Rightarrow>
         (case unpack (data_capnp env) Data of
            None \<Rightarrow> process c' = Crashed UncaughtException
          | Some File \<Rightarrow>
              (case fs_read_file (data_fs env) (source_path env File) of
                 None \<Rightarrow> c' = c \<and> work d' = 0 \<and> aborted d'
               | Some Contents \<Rightarrow>
                   FileInfos c' = (FileInfos c)(FileId := None) \<and> work d' = 1 \<and> unread d' = Contents \<and>
                   \<not> EndOfFile d' \<and> sent d' = [] \<and> \<not> aborted d')))"
proof -
  obtain c1 d1 fl where h: "open_requested_file env FileId (c, new_stream) = ((c1, d1), fl)"
    by (metis prod.exhaust)
  from handle_one_id [OF _ h] obtain r where
    "id_buffers (open_requested_file env) [enc_u64 FileId] (id_state new_stream) (c, new_stream) = Inr (r, (c1, d1))"
    by (auto simp: new_stream_def)
  with h show ?thesis
    by (auto simp: open_requested_file_def enqueue_work_def new_stream_def split: option.splits)
qed

lemma source_path_reported:
  assumes "path_of (SyncPath denv) = abs_path r" and "r \<noteq> []" and "proper (butlast r @ ms)" and "proper r" and "ms \<noteq> []"
    and "node_at (env_fs env) (butlast r @ ms) = Some n"
  shows "source_path denv (location_info env (butlast r) (butlast r @ ms) k) = abs_path (butlast r @ ms)"
proof -
  have "has_stem (abs_path r)" using assms(2,4)
    by (auto simp: has_stem_def has_filename_def proper_name_def list_all_iff)
  moreover have "parent_path (abs_path r) = abs_path (butlast r)" using assms(2)
    by (simp add: parent_path_def abs_path_def)
  moreover have "proper ms" "hd ms \<noteq> []" using assms(3,5)
    by (auto simp: proper_name_def list_all_iff dest: hd_in_set)
  moreover from this have "getPath (location_info env (butlast r) (butlast r @ ms) k) = generic_string (rel_path ms)"
    using location_info_sel(1) [OF assms(6), of "butlast r" k] lexically_relative_below [OF assms(5)]
      c_str_generic_string by simp
  ultimately show ?thesis using assms
    by (simp add: source_path_def Let_def c_str_generic_string path_of_generic_string)
qed

text \<open>
  The file a client opens for an id is the file it reported under that id: the path that is
  reopened below the parent of the synchronised directory is the path the search found.
\<close>

theorem request_opens_reported_file:
  assumes "path_of (SyncPath denv) = abs_path r" and "r \<noteq> []" and "proper (butlast r @ ms)" and "proper r" and "ms \<noteq> []"
    and "node_at (env_fs env) (butlast r @ ms) = Some n"
  shows "source_path denv (location_info env (butlast r) (butlast r @ ms) k) = abs_path (butlast r @ ms)"
  using assms by (rule source_path_reported)

theorem request_opens_reported_file_witness:
  "source_path \<lparr>data_fs = example_fs, data_capnp = env_capnp example_env, SyncPath = ''/s''\<rparr>
     (location_info example_env [] [''s'', ''a''] 2) = abs_path [''s'', ''a'']"
  using request_opens_reported_file [of "\<lparr>data_fs = example_fs, data_capnp = env_capnp example_env, SyncPath = ''/s''\<rparr>"
      "[''s'']" "[''s'', ''a'']" example_env "Regular [1, 2] 2" 2]
  by (simp add: example_env_def example_fs_def node_at_def proper_name_def dot_def dotdot_def slash_def
      path_of_def abs_path_def)

end
