(* ===== verification/FsUpdate.thy ===== *)
theory FsUpdate
  imports SearchResult
begin

text \<open>
  What the modifying calls of the file system do on a file system without links and failing calls,
  in terms of locations: they succeed, change only the nodes they name, and leave the file system
  well formed. The server's proofs rest on these facts.
\<close>

section \<open>Keeping a file system plain\<close>

lemma set_update_subset: "set (AList.update k v xs) \<subseteq> insert (k, v) (set xs)"
  by (induction xs) auto

lemma put_node_in: "(l', n') \<in> set (nodes (put_node l n fs)) \<Longrightarrow> (l', n') = (l, n) \<or> (l', n') \<in> set (nodes fs)"
  using set_update_subset [of l n "nodes fs"] by (auto simp: put_node_def)

lemma del_node_in: "(l', n') \<in> set (nodes (del_node l fs)) \<Longrightarrow> (l', n') \<in> set (nodes fs)"
  by (auto simp: del_node_def AList.delete_eq)

lemma is_dir_put: "is_dir (put_node l n fs) l' \<longleftrightarrow> (if l' = l then \<exists>t. n = Directory t else is_dir fs l')"
  by (auto simp: is_dir_def fs_nodes.look_put)

lemma is_dir_del: "is_dir (del_node l fs) l' \<longleftrightarrow> l' \<noteq> l \<and> is_dir fs l'"
  by (auto simp: is_dir_def fs_nodes.look_del)

text \<open>A place where a node can be put: a proper name in a directory, itself not a directory.\<close>

definition leaf_place :: "fsys \<Rightarrow> loc \<Rightarrow> bool" where
  "leaf_place fs l \<longleftrightarrow> l \<noteq> [] \<and> proper l \<and> is_dir fs (butlast l) \<and> \<not> is_dir fs l"

lemma butlast_neq: "l \<noteq> [] \<Longrightarrow> butlast l \<noteq> l"
  by (metis append_butlast_last_id not_Cons_self2 self_append_conv)

lemma plain_put:
  assumes "plain_fs fs" and "leaf_place fs l" and "type_of n \<noteq> FtSymlink"
  shows "plain_fs (put_node l n fs)"
proof -
  have dirs: "is_dir fs l' \<Longrightarrow> is_dir (put_node l n fs) l'" for l'
    using assms(2) by (auto simp: is_dir_put leaf_place_def)
  have "proper l' \<and> (l' \<noteq> [] \<longrightarrow> is_dir (put_node l n fs) (butlast l'))" and "type_of n' \<noteq> FtSymlink"
    if "(l', n') \<in> set (nodes (put_node l n fs))" for l' n'
    using put_node_in [OF that] assms dirs by (auto simp: plain_fs_def fs_wf_def leaf_place_def)
  with assms(1) dirs show ?thesis by (fastforce simp: plain_fs_def fs_wf_def)
qed

lemma plain_set_time:
  assumes "plain_fs fs" and "node_at fs l = Some n"
  shows "plain_fs (put_node l (set_time t n) fs)"
proof -
  have dirs: "is_dir (put_node l (set_time t n) fs) l' = is_dir fs l'" for l'
    unfolding is_dir_put using assms(2) by (cases n) (auto simp: is_dir_def)
  have old: "(l, n) \<in> set (nodes fs)" using assms(2) by (simp add: node_at_def map_of_SomeD)
  have "proper l' \<and> (l' \<noteq> [] \<longrightarrow> is_dir fs (butlast l'))" and "type_of n' \<noteq> FtSymlink"
    if "(l', n') \<in> set (nodes (put_node l (set_time t n) fs))" for l' n'
    using put_node_in [OF that] assms(1) old by (cases n; fastforce simp: plain_fs_def fs_wf_def)+
  with assms(1) dirs show ?thesis by (fastforce simp: plain_fs_def fs_wf_def)
qed

lemma plain_del:
  assumes "plain_fs fs" and "leaf_place fs l"
  shows "plain_fs (del_node l fs)"
proof -
  have dirs: "is_dir fs l' \<Longrightarrow> is_dir (del_node l fs) l'" for l'
    using assms(2) by (auto simp: is_dir_del leaf_place_def)
  have "proper l' \<and> (l' \<noteq> [] \<longrightarrow> is_dir (del_node l fs) (butlast l'))" and "type_of n' \<noteq> FtSymlink"
    if "(l', n') \<in> set (nodes (del_node l fs))" for l' n'
    using del_node_in [OF that] assms dirs by (auto simp: plain_fs_def fs_wf_def)
  with assms(1) dirs show ?thesis by (fastforce simp: plain_fs_def fs_wf_def)
qed

section \<open>The calls\<close>

lemma resolve_place:
  assumes "plain_fs fs" and "l \<noteq> []" and "proper l" and "is_dir fs (butlast l)"
  shows "resolve fs f (abs_path l) = (if node_at fs l = None then Missing l else Found max_links l)"
  using assms resolve_plain [of fs l f] plain_not_link [OF assms(1), of l]
  by (auto simp: plain_fs_def not_link_def split: option.splits node.splits)

lemma plain_no_fault: "plain_fs fs \<Longrightarrow> \<not> fault fs c p"
  by (simp add: plain_fs_def)

lemma plain_exists:
  assumes "plain_fs fs" and "l \<noteq> []" and "proper l" and "is_dir fs (butlast l)"
  shows "fs_exists fs (abs_path l) = Some (node_at fs l \<noteq> None)"
  using resolve_place [OF assms] assms(1)
  by (simp add: fs_exists_def stat_def plain_fs_def)

lemma plain_set_last_write_time:
  "plain_fs fs \<Longrightarrow> node_at fs l = Some n \<Longrightarrow>
   fs_set_last_write_time (abs_path l) t fs = Some (put_node l (set_time t n) fs)"
  by (simp add: fs_set_last_write_time_def plain_stat plain_no_fault)

lemma plain_create_directory:
  assumes "plain_fs fs" and "leaf_place fs l" and "node_at fs l = None"
  shows "fs_create_directory (abs_path l) fs = Some (put_node l (Directory (now fs)) fs)"
  using assms resolve_place [OF assms(1), of l False]
  by (simp add: fs_create_directory_def leaf_place_def plain_no_fault)

text \<open>A place for a regular file: free, or taken by a regular file.\<close>

definition file_place :: "fsys \<Rightarrow> loc \<Rightarrow> bool" where
  "file_place fs l \<longleftrightarrow> leaf_place fs l \<and> (\<forall>n. node_at fs l = Some n \<longrightarrow> type_of n = FtRegular)"

lemma plain_open_trunc:
  assumes "plain_fs fs" and "file_place fs l"
  shows "fs_open_trunc (abs_path l) fs = Some (l, put_node l (Regular [] (now fs)) fs)"
proof (cases "node_at fs l")
  case None
  with assms resolve_place [OF assms(1), of l True] show ?thesis
    by (simp add: fs_open_trunc_def file_place_def leaf_place_def plain_no_fault)
next
  case (Some n)
  then obtain c t where "n = Regular c t" using assms(2) by (cases n) (auto simp: file_place_def)
  with Some assms resolve_place [OF assms(1), of l True] show ?thesis
    by (simp add: fs_open_trunc_def file_place_def leaf_place_def plain_no_fault)
qed

lemma plain_rename:
  assumes "plain_fs fs" and "leaf_place fs old" and "node_at fs old = Some (Regular c t)" and "file_place fs new"
  shows "fs_rename (abs_path old) (abs_path new) fs = Some (put_node new (Regular c t) (del_node old fs))"
proof -
  have old: "resolve fs False (abs_path old) = Found max_links old"
    using assms resolve_place [OF assms(1), of old False] by (simp add: leaf_place_def)
  have new: "resolve fs False (abs_path new) = (if node_at fs new = None then Missing new else Found max_links new)"
    using assms resolve_place [OF assms(1), of new False] by (simp add: file_place_def leaf_place_def)
  have "n \<noteq> Directory t'" if "node_at fs new = Some n" for n t'
    using assms(4) that by (auto simp: file_place_def)
  with assms old new show ?thesis
    by (auto simp: fs_rename_def plain_no_fault split: node.splits option.splits)
qed

lemma plain_remove:
  assumes "plain_fs fs" and "leaf_place fs l" and "node_at fs l = Some n"
  shows "fs_remove (abs_path l) fs = Some (del_node l fs)"
proof -
  have "n \<noteq> Directory t" for t using assms(2,3) by (auto simp: leaf_place_def is_dir_def)
  with assms resolve_place [OF assms(1), of l False] show ?thesis
    by (auto simp: fs_remove_def plain_no_fault leaf_place_def split: node.splits)
qed

lemma leaf_place_put:
  "leaf_place fs l \<Longrightarrow> leaf_place fs l' \<Longrightarrow> type_of n = FtRegular \<Longrightarrow> leaf_place (put_node l' n fs) l"
  using butlast_neq by (auto simp: leaf_place_def is_dir_put)

lemma file_place_put:
  "file_place fs l \<Longrightarrow> leaf_place fs l' \<Longrightarrow> type_of n = FtRegular \<Longrightarrow> file_place (put_node l' n fs) l"
  by (auto simp: file_place_def leaf_place_put fs_nodes.look_put split: if_splits)

end
