(* ===== verification/ServerWorker.thy ===== *)
theory ServerWorker
  imports FsUpdate
begin

text \<open>
  \<open>QsyncServer::QSyncServerWorkerCallback\<close> (\<open>server.cpp\<close>): what the server does with one file
  info. An info that asks for no update is answered with its id on the control stream; a directory
  or a link is made at once; for a file a data stream is opened that asks for it.
\<close>

section \<open>State\<close>

text \<open>
  \<open>QsyncServer::DataStreamContext\<close>. The stream is open when \<open>FileWriteStream\<close> has a place it
  writes to; \<open>write_failed\<close> is its \<open>failbit\<close>. Of the received buffers the context keeps the
  descriptors; \<open>BufferCount\<close> is their number.
\<close>

record receive_context =
  RefCount :: nat
  Buffers :: "bytes list"
  NewFileSize :: nat
  BytesWritten :: nat
  FileTime :: int
  DestinationPath :: path
  TempDestinationPath :: path
  FileWriteStream :: "loc option"
  write_failed :: bool
  SnapshotDestSize :: nat
  SnapshotDestModTime :: int
  FinalReceive :: bool
  FileExists :: bool

definition new_context :: receive_context where
  "new_context = \<lparr>RefCount = 0, Buffers = [], NewFileSize = 0, BytesWritten = 0, FileTime = 0,
     DestinationPath = rel_path [], TempDestinationPath = rel_path [], FileWriteStream = None,
     write_failed = False, SnapshotDestSize = 0, SnapshotDestModTime = 0, FinalReceive = False,
     FileExists = False\<rparr>"

text \<open>
  What the worker uses of the server and of MsQuic, and what it changes: the file system, the ids
  sent on the control stream and the data streams opened, each with the id it asks for.
\<close>

record server_env =
  BasePath :: path
  server_clock :: clock
  server_capnp :: capnp
  answer_alloc_fails :: bool
  control_send_fails :: "u64 \<Rightarrow> bool"
  stream_init_fails :: "u64 \<Rightarrow> bool"

record server_state =
  server_fs :: fsys
  answered :: "u64 list"
  requested :: "(u64 \<times> receive_context) list"

section \<open>Directories and links\<close>

definition destination :: "server_env \<Rightarrow> FileInfo \<Rightarrow> path" where
  "destination env File = path_append (BasePath env) (path_of (c_str (getPath File)))"

definition new_file_time :: "server_env \<Rightarrow> FileInfo \<Rightarrow> int" where
  "new_file_time env File = from_utc (server_clock env) (message_time File)"

text \<open>Setting the time is the last step; its error only changes what is printed.\<close>

definition set_directory_time :: "path \<Rightarrow> int \<Rightarrow> fsys \<Rightarrow> fsys" where
  "set_directory_time p t fs =
     (case fs_set_last_write_time p t fs of None \<Rightarrow> fs | Some fs' \<Rightarrow> fs')"

definition update_directory :: "path \<Rightarrow> int \<Rightarrow> fsys \<Rightarrow> fsys" where
  "update_directory Dest t fs =
     (case fs_exists fs Dest of
        None \<Rightarrow> fs
      | Some True \<Rightarrow> set_directory_time Dest t fs
      | Some False \<Rightarrow>
          (case fs_create_directory Dest fs of
             None \<Rightarrow> fs
           | Some fs' \<Rightarrow> set_directory_time Dest t fs'))"

text \<open>Both kinds of links: \<open>create_symlink\<close> and \<open>create_directory_symlink\<close> are one on POSIX.\<close>

definition update_symlink :: "path \<Rightarrow> path \<Rightarrow> fsys \<Rightarrow> fsys" where
  "update_symlink Dest LinkDest fs =
     (case fs_exists fs Dest of
        Some False \<Rightarrow> (case fs_create_symlink LinkDest Dest fs of None \<Rightarrow> fs | Some fs' \<Rightarrow> fs')
      | _ \<Rightarrow> fs)"

section \<open>Files\<close>

text \<open>
  The context of a new data stream, with the snapshot of the file that is there; \<open>None\<close> when the
  snapshot fails. An error of \<open>exists\<close> comes with the result \<open>false\<close>, so it is not seen.
\<close>

definition file_context :: "server_env \<Rightarrow> FileInfo \<Rightarrow> fsys \<Rightarrow> receive_context option" where
  "file_context env File fs =
     (let Dest = destination env File;
          Context = new_context\<lparr>FileTime := new_file_time env File, NewFileSize := unat (getSize File),
            TempDestinationPath := path_concat Dest ''.qsync'', DestinationPath := Dest\<rparr>
      in if fs_exists fs Dest = Some True then
           (case fs_last_write_time fs Dest of
              None \<Rightarrow> None
            | Some ModTime \<Rightarrow>
                (case fs_file_size fs Dest of
                   None \<Rightarrow> None
                 | Some Size \<Rightarrow>
                     Some (Context\<lparr>FileExists := True, SnapshotDestModTime := ModTime,
                       SnapshotDestSize := Size\<rparr>)))
         else Some Context)"

definition request_file :: "server_env \<Rightarrow> FileInfo \<Rightarrow> server_state \<Rightarrow> server_state" where
  "request_file env File s =
     (case file_context env File (server_fs s) of
        None \<Rightarrow> s
      | Some Context \<Rightarrow>
          if stream_init_fails env (getId File) then s
          else s\<lparr>requested := requested s @ [(getId File, Context\<lparr>RefCount := 1\<rparr>)]\<rparr>)"

section \<open>The callback\<close>

definition QSyncServerWorkerCallback :: "server_env \<Rightarrow> bytes \<Rightarrow> server_state \<Rightarrow> ub + server_state" where
  "QSyncServerWorkerCallback env Info s =
     (case unpack (server_capnp env) Info of
        None \<Rightarrow> Inl UncaughtException
      | Some File \<Rightarrow>
          if answer_alloc_fails env then Inl NullDereference
          else if DoesFileNeedUpdate (server_clock env) (server_fs s) (BasePath env) File then
            (let Dest = destination env File in
             case getType File of
               DIR \<Rightarrow> Inr (s\<lparr>server_fs := update_directory Dest (new_file_time env File) (server_fs s)\<rparr>)
             | FILESYMLINK \<Rightarrow>
                 Inr (s\<lparr>server_fs := update_symlink Dest (path_of (c_str (getLinkPath File))) (server_fs s)\<rparr>)
             | DIRSYMLINK \<Rightarrow>
                 Inr (s\<lparr>server_fs := update_symlink Dest (path_of (c_str (getLinkPath File))) (server_fs s)\<rparr>)
             | FILE \<Rightarrow> Inr (request_file env File s))
          else if control_send_fails env (getId File) then Inr s
          else Inr (s\<lparr>answered := answered s @ [getId File]\<rparr>))"

text \<open>The infos of a whole control stream, in order: the pool that runs the worker has one thread.\<close>

fun serve_infos :: "server_env \<Rightarrow> bytes list \<Rightarrow> server_state \<Rightarrow> ub + server_state" where
  "serve_infos env [] s = Inr s"
| "serve_infos env (i # is) s =
     (case QSyncServerWorkerCallback env i s of Inl e \<Rightarrow> Inl e | Inr s' \<Rightarrow> serve_infos env is s')"

section \<open>Properties\<close>

definition server_ok :: "server_env \<Rightarrow> bool" where
  "server_ok env \<longleftrightarrow> \<not> answer_alloc_fails env \<and> (\<forall>i. \<not> control_send_fails env i) \<and>
     (\<forall>i. \<not> stream_init_fails env i)"

lemma destination_place:
  assumes "BasePath env = abs_path base" and "proper base" and "ms \<noteq> []" and "proper ms"
    and "getPath File = generic_string (rel_path ms)"
  shows "destination env File = abs_path (base @ ms)"
  using assms by (simp add: destination_def c_str_generic_string path_of_generic_string)


definition example_server :: server_env where
  "example_server = \<lparr>BasePath = abs_path [''s''], server_clock = example_clock,
     server_capnp = \<lparr>packed_writes = (\<lambda>_. []),
       unpack = (\<lambda>b. case b of [] \<Rightarrow> None
         | x # _ \<Rightarrow> Some (initRoot\<lparr>getPath := ''d/c'', getType := (if x = 0 then FILE else DIR),
             getModifiedTime := 5, getSize := 2, getId := ucast x\<rparr>))\<rparr>,
     answer_alloc_fails = False, control_send_fails = (\<lambda>_. False), stream_init_fails = (\<lambda>_. False)\<rparr>"

definition example_state :: server_state where
  "example_state = \<lparr>server_fs = example_fs, answered = [], requested = []\<rparr>"

lemma example_server_ok: "server_ok example_server"
  by (simp add: server_ok_def example_server_def)


lemma update_directory_plain:
  assumes "plain_fs fs" and "l \<noteq> []" and "proper l" and "is_dir fs (butlast l)"
    and "node_at fs l = None \<or> is_dir fs l"
  shows "plain_fs (update_directory (abs_path l) t fs)"
    and "node_at (update_directory (abs_path l) t fs) l' = (if l' = l then Some (Directory t) else node_at fs l')"
proof -
  have both: "plain_fs (update_directory (abs_path l) t fs) \<and>
    (\<forall>l'. node_at (update_directory (abs_path l) t fs) l' = (if l' = l then Some (Directory t) else node_at fs l'))"
  proof (cases "node_at fs l")
    case None
    let ?fs = "put_node l (Directory (now fs)) fs"
    have place: "leaf_place fs l" using assms None by (simp add: leaf_place_def is_dir_def)
    then have plain: "plain_fs ?fs" by (rule plain_put [OF assms(1)]) simp
    have "update_directory (abs_path l) t fs = put_node l (Directory t) ?fs"
      using plain_set_last_write_time [OF plain, of l "Directory (now fs)" t] plain_exists [OF assms(1-4)]
        plain_create_directory [OF assms(1) place None] None
      by (simp add: update_directory_def set_directory_time_def)
    with plain_set_time [OF plain, of l "Directory (now fs)" t] show ?thesis
      by (simp add: fs_nodes.look_put)
  next
    case (Some n)
    with assms(5) obtain t' where n: "n = Directory t'" by (auto simp: is_dir_def)
    have "update_directory (abs_path l) t fs = put_node l (Directory t) fs"
      using plain_set_last_write_time [OF assms(1) Some, of t] plain_exists [OF assms(1-4)] Some
      by (simp add: update_directory_def set_directory_time_def n)
    with plain_set_time [OF assms(1) Some, of t] show ?thesis by (simp add: n fs_nodes.look_put)
  qed
  then show "plain_fs (update_directory (abs_path l) t fs)"
    and "node_at (update_directory (abs_path l) t fs) l' = (if l' = l then Some (Directory t) else node_at fs l')"
    by blast+
qed

text \<open>
  A directory info that asks for an update, and whose parent directory is there, is settled at
  once: the directory exists afterwards with the time of the info, nothing else has changed, and
  the same info asks for no further update. The id is not returned.
\<close>

theorem directory_converges:
  assumes "server_ok env" and "unpack (server_capnp env) Info = Some File" and "getType File = DIR"
    and "destination env File = abs_path l" and "l \<noteq> []" and "proper l"
    and "plain_fs (server_fs s)" and "is_dir (server_fs s) (butlast l)"
    and "DoesFileNeedUpdate (server_clock env) (server_fs s) (BasePath env) File"
  shows "\<exists>s'. QSyncServerWorkerCallback env Info s = Inr s' \<and> answered s' = answered s \<and>
    (\<forall>l'. node_at (server_fs s') l' =
       (if l' = l then Some (Directory (new_file_time env File)) else node_at (server_fs s) l')) \<and>
    \<not> DoesFileNeedUpdate (server_clock env) (server_fs s') (BasePath env) File"
proof -
  let ?t = "new_file_time env File"
  let ?fs = "update_directory (abs_path l) ?t (server_fs s)"
  have path: "path_append (BasePath env) (path_of (c_str (getPath File))) = abs_path l"
    using assms(4) by (simp add: destination_def)
  have "node_at (server_fs s) l = None \<or> is_dir (server_fs s) l"
    using plain_update [OF assms(7,6) path] assms(9,3)
    by (auto simp: is_dir_def split: option.splits node.splits)
  note fs' = update_directory_plain [OF assms(7,5,6,8) this, of ?t]
  have "\<not> DoesFileNeedUpdate (server_clock env) ?fs (BasePath env) File"
    using plain_update [OF fs'(1) assms(6) path] by (simp add: fs'(2) [unfolded new_file_time_def] new_file_time_def)
  moreover have "QSyncServerWorkerCallback env Info s = Inr (s\<lparr>server_fs := ?fs\<rparr>)"
    using assms by (simp add: QSyncServerWorkerCallback_def server_ok_def Let_def)
  ultimately show ?thesis using fs'(2) by simp
qed

lemma example_directory:
  "destination example_server (initRoot\<lparr>getPath := ''d/c'', getType := DIR, getModifiedTime := 5, getSize := 2, getId := 1\<rparr>) =
     abs_path [''s'', ''d'', ''c'']"
  "is_dir example_fs [''s'', ''d'']" "proper [''s'', ''d'', ''c'']"
  by (simp_all add: destination_def example_server_def path_of_def c_str_def slash_def path_append_def
      has_filename_def abs_path_def is_dir_def node_at_def example_fs_def proper_name_def dot_def dotdot_def)

theorem directory_converges_witness:
  "\<exists>s'. QSyncServerWorkerCallback example_server [1] example_state = Inr s' \<and>
    node_at (server_fs s') [''s'', ''d'', ''c''] = Some (Directory 5)"
proof -
  let ?File = "initRoot\<lparr>getPath := ''d/c'', getType := DIR, getModifiedTime := 5, getSize := 2, getId := 1\<rparr>"
  have "path_append (BasePath example_server) (path_of (c_str (getPath ?File))) = abs_path [''s'', ''d'', ''c'']"
    using example_directory(1) by (simp add: destination_def)
  from plain_update [OF example_fs(1) example_directory(3) this, of example_clock]
  have "DoesFileNeedUpdate (server_clock example_server) (server_fs example_state) (BasePath example_server) ?File"
    by (simp add: example_server_def example_state_def example_fs_def node_at_def)
  from directory_converges [OF example_server_ok _ _ example_directory(1) _ _ _ _ this, of "[1]"]
  show ?thesis using example_directory example_fs(1)
    by (auto simp: example_server_def example_state_def new_file_time_def message_time_def example_clock_def
        from_utc_def utc_to_sys_def)
qed

text \<open>
  A file info chooses its destination freely. The path it carries is appended to the base
  directory without a check, so an absolute path replaces the base: the server creates the directory
  an info names anywhere its parent exists.
\<close>

theorem destination_escapes_base:
  assumes "server_ok env" and "unpack (server_capnp env) Info = Some File" and "getType File = DIR"
    and "getPath File = generic_string (abs_path l)" and "l \<noteq> []" and "proper l"
    and "plain_fs (server_fs s)" and "is_dir (server_fs s) (butlast l)" and "node_at (server_fs s) l = None"
  shows "\<exists>s'. QSyncServerWorkerCallback env Info s = Inr s' \<and> is_dir (server_fs s') l"
proof -
  have "path_of (c_str (generic_string (abs_path l))) = abs_path l"
    by (rule path_of_abs_string [OF assms(6,5)])
  then have dest: "destination env File = abs_path l"
    and path: "path_append (BasePath env) (path_of (c_str (getPath File))) = abs_path l"
    by (simp_all add: destination_def assms(4))
  have "DoesFileNeedUpdate (server_clock env) (server_fs s) (BasePath env) File"
    using plain_update [OF assms(7,6) path] assms(9) by simp
  with dest assms show ?thesis
    using update_directory_plain(2) [OF assms(7,5,6,8), of "new_file_time env File" l]
    by (simp add: QSyncServerWorkerCallback_def server_ok_def Let_def is_dir_def)
qed

theorem destination_escapes_base_witness:
  "\<exists>s'. QSyncServerWorkerCallback
      (example_server\<lparr>server_capnp := \<lparr>packed_writes = (\<lambda>_. []), unpack = (\<lambda>_. Some (initRoot\<lparr>getPath := ''/etc'', getType := DIR\<rparr>))\<rparr>\<rparr>)
      [] example_state = Inr s' \<and> is_dir (server_fs s') [''etc'']"
  by (rule destination_escapes_base [where File = "initRoot\<lparr>getPath := ''/etc'', getType := DIR\<rparr>"])
    (use example_fs(1) in \<open>simp_all add: server_ok_def example_server_def example_state_def generic_string_def
      slash_def is_dir_def node_at_def example_fs_def proper_name_def dot_def dotdot_def\<close>)

lemma file_context_plain:
  assumes "plain_fs fs" and "l \<noteq> []" and "proper l" and "is_dir fs (butlast l)"
    and "destination env File = abs_path l"
  shows "\<exists>Context. file_context env File fs = Some Context \<and>
    DestinationPath Context = abs_path l \<and>
    TempDestinationPath Context = abs_path (butlast l @ [last l @ ''.qsync'']) \<and>
    NewFileSize Context = unat (getSize File) \<and> FileTime Context = new_file_time env File \<and>
    BytesWritten Context = 0 \<and> FileWriteStream Context = None \<and>
    (case node_at fs l of
       None \<Rightarrow> \<not> FileExists Context
     | Some n \<Rightarrow> FileExists Context \<and> SnapshotDestModTime Context = time_of n \<and>
         (\<forall>c t. n = Regular c t \<longrightarrow> SnapshotDestSize Context = length c))"
proof -
  have temp: "path_concat (abs_path l) ''.qsync'' = abs_path (butlast l @ [last l @ ''.qsync''])"
    using assms(2) by (simp add: path_concat_def abs_path_def)
  show ?thesis
  proof (cases "node_at fs l")
    case None
    with plain_exists [OF assms(1-4)] show ?thesis
      by (simp add: file_context_def assms(5) temp Let_def new_context_def)
  next
    case (Some n)
    with plain_stat [OF assms(1)] have st: "stat fs (abs_path l) = Some (l, n)" by simp
    then have size: "\<exists>k. fs_file_size fs (abs_path l) = Some k \<and> (\<forall>c t. n = Regular c t \<longrightarrow> k = length c)"
      using assms(1) by (cases n) (auto simp: fs_file_size_def plain_fs_def)
    have "fs_last_write_time fs (abs_path l) = Some (time_of n)"
      using st assms(1) by (simp add: fs_last_write_time_def plain_fs_def)
    with size Some plain_exists [OF assms(1-4)] show ?thesis
      by (auto simp: file_context_def assms(5) temp Let_def new_context_def)
  qed
qed

text \<open>
  The context of a data stream describes the transfer: the temporary file is the destination with
  the suffix, both in the same directory, the size and the time are the info's, and when there is a
  file at the destination its size and time are remembered as they are.
\<close>

theorem file_context_snapshot:
  assumes "plain_fs fs" and "l \<noteq> []" and "proper l" and "is_dir fs (butlast l)"
    and "destination env File = abs_path l"
  shows "\<exists>Context. file_context env File fs = Some Context \<and>
    DestinationPath Context = abs_path l \<and>
    TempDestinationPath Context = abs_path (butlast l @ [last l @ ''.qsync'']) \<and>
    NewFileSize Context = unat (getSize File) \<and> FileTime Context = new_file_time env File \<and>
    BytesWritten Context = 0 \<and> FileWriteStream Context = None \<and>
    (case node_at fs l of
       None \<Rightarrow> \<not> FileExists Context
     | Some n \<Rightarrow> FileExists Context \<and> SnapshotDestModTime Context = time_of n \<and>
         (\<forall>c t. n = Regular c t \<longrightarrow> SnapshotDestSize Context = length c))"
  by (rule file_context_plain [OF assms])

theorem file_context_snapshot_witness:
  "\<exists>Context. file_context (example_server\<lparr>BasePath := abs_path []\<rparr>) (initRoot\<lparr>getPath := ''s/a''\<rparr>) example_fs = Some Context \<and>
    TempDestinationPath Context = abs_path [''s'', ''a.qsync''] \<and> SnapshotDestSize Context = 2"
proof -
  have dest: "destination (example_server\<lparr>BasePath := abs_path []\<rparr>) (initRoot\<lparr>getPath := ''s/a''\<rparr>) = abs_path [''s'', ''a'']"
    by (simp add: destination_def example_server_def path_of_def c_str_def slash_def path_append_def
        has_filename_def abs_path_def)
  have "proper [''s'', ''a'']" "is_dir example_fs (butlast [''s'', ''a''])"
    "node_at example_fs [''s'', ''a''] = Some (Regular [1, 2] 2)"
    by (simp_all add: is_dir_def node_at_def example_fs_def proper_name_def dot_def dotdot_def slash_def)
  with file_context_snapshot [OF example_fs(1) _ _ _ dest] show ?thesis by fastforce
qed

section \<open>A whole tree\<close>

text \<open>The place on the server that corresponds to a place below the root directory \<open>r\<close>.\<close>

definition mirrored :: "loc \<Rightarrow> loc \<Rightarrow> loc \<Rightarrow> loc" where
  "mirrored base r l = base @ drop (length (butlast r)) l"

lemma mirrored_simps:
  assumes "r \<noteq> []"
  shows "mirrored base r (butlast r @ ms) = base @ ms"
    and "prefix r l \<Longrightarrow> \<exists>ms. l = butlast r @ ms \<and> ms \<noteq> []"
    and "prefix r l \<Longrightarrow> mirrored base r (butlast l) = butlast (mirrored base r l)"
    and "prefix r l \<Longrightarrow> prefix r l' \<Longrightarrow> mirrored base r l = mirrored base r l' \<longleftrightarrow> l = l'"
proof -
  show split: "\<exists>ms. l = butlast r @ ms \<and> ms \<noteq> []" if "prefix r l" for l
  proof -
    from that obtain zs where "l = r @ zs" by (auto elim: prefixE)
    then have "l = butlast r @ [last r] @ zs" using assms by simp
    then show ?thesis by blast
  qed
  show id: "mirrored base r (butlast r @ ms) = base @ ms" for ms by (simp add: mirrored_def)
  show "mirrored base r (butlast l) = butlast (mirrored base r l)" if "prefix r l"
    using split [OF that] by (auto simp: butlast_append id)
  show "mirrored base r l = mirrored base r l' \<longleftrightarrow> l = l'" if "prefix r l" "prefix r l'"
    using split [OF that(1)] split [OF that(2)] by (auto simp: id)
qed

definition is_file :: "fsys \<Rightarrow> loc \<Rightarrow> bool" where
  "is_file fs l \<longleftrightarrow> (\<exists>c t. node_at fs l = Some (Regular c t))"

text \<open>What one info of the tree does on a server that has nothing at its place.\<close>

lemma serve_location:
  assumes src: "plain_fs (env_fs fenv)" "node_at (env_fs fenv) l = Some n" "reported_type n \<noteq> None" "prefix r l" "r \<noteq> []"
    and env: "server_ok senv" "BasePath senv = abs_path base" "proper base" "server_capnp senv = env_capnp fenv"
      "capnp_ok (env_capnp fenv)"
    and dst: "plain_fs (server_fs s)" "node_at (server_fs s) (mirrored base r l) = None"
      "is_dir (server_fs s) (butlast (mirrored base r l))"
  shows "\<exists>s'. QSyncServerWorkerCallback senv (serialize (env_capnp fenv) (location_info fenv (butlast r) l k)) s = Inr s' \<and>
    answered s' = answered s \<and> plain_fs (server_fs s') \<and>
    (\<forall>l'. l' \<noteq> mirrored base r l \<longrightarrow> node_at (server_fs s') l' = node_at (server_fs s) l') \<and>
    is_dir (server_fs s') (mirrored base r l) = is_dir (env_fs fenv) l \<and>
    map fst (requested s') = map fst (requested s) @ (if is_file (env_fs fenv) l then [k] else [])"
proof -
  let ?File = "location_info fenv (butlast r) l k"
  obtain ms where ms: "l = butlast r @ ms" "ms \<noteq> []" using mirrored_simps(2) [OF src(5,4)] by blast
  have D: "mirrored base r l = base @ ms" using mirrored_simps(1) [OF src(5)] ms(1) by simp
  have proper: "proper (butlast r @ ms)" using src(1,2) ms(1) by (auto simp: plain_fs_def dest: fs_wf_node)
  then have "proper (base @ ms)" using env(3) by simp
  note place = dst(3) [unfolded D] and free = dst(2) [unfolded D]
  have dest: "destination senv ?File = abs_path (base @ ms)"
    using reported_path_place [OF proper env(3) ms(2), of fenv n k] src(2) env(2) ms(1)
    by (simp add: destination_def)
  then have path: "path_append (BasePath senv) (path_of (c_str (getPath ?File))) = abs_path (base @ ms)"
    by (simp add: destination_def)
  have needs: "DoesFileNeedUpdate (server_clock senv) (server_fs s) (BasePath senv) ?File"
    using plain_update [OF dst(1) \<open>proper (base @ ms)\<close> path] free by simp
  note sel = location_info_sel [OF src(2), of "butlast r" k]
  note read = unpack_serialize [OF env(5), of ?File]
  from src(3) consider (dir) t where "n = Directory t" | (regular) c t where "n = Regular c t" by (cases n) auto
  then show ?thesis
  proof cases
    case dir
    let ?fs = "update_directory (abs_path (base @ ms)) (new_file_time senv ?File) (server_fs s)"
    have "QSyncServerWorkerCallback senv (serialize (env_capnp fenv) ?File) s = Inr (s\<lparr>server_fs := ?fs\<rparr>)"
      using env needs read dest sel(2) by (simp add: QSyncServerWorkerCallback_def server_ok_def Let_def dir)
    with update_directory_plain [OF dst(1) _ \<open>proper (base @ ms)\<close> place, of "new_file_time senv ?File"] ms free src(2) dir
    show ?thesis by (simp add: mirrored_simps(1) [OF src(5)] D is_dir_def is_file_def)
  next
    case regular
    from file_context_plain [OF dst(1) _ \<open>proper (base @ ms)\<close> place dest] ms(2) obtain ctx where
      "file_context senv ?File (server_fs s) = Some ctx" by auto
    with env needs read sel(2,3) have "QSyncServerWorkerCallback senv (serialize (env_capnp fenv) ?File) s =
        Inr (s\<lparr>requested := requested s @ [(k, ctx\<lparr>RefCount := 1\<rparr>)]\<rparr>)"
      by (simp add: QSyncServerWorkerCallback_def request_file_def server_ok_def Let_def regular)
    with free src(2) regular dst(1) show ?thesis by (simp add: mirrored_simps(1) [OF src(5)] D is_dir_def is_file_def)
  qed
qed

lemma serve_locations:
  assumes src: "plain_fs (env_fs fenv)" "r \<noteq> []"
    and env: "server_ok senv" "BasePath senv = abs_path base" "proper base" "server_capnp senv = env_capnp fenv"
      "capnp_ok (env_capnp fenv)"
  shows "parents_first P ls \<Longrightarrow> distinct ls \<Longrightarrow>
    \<forall>l \<in> set ls. prefix r l \<and> (\<exists>n. node_at (env_fs fenv) l = Some n \<and> reported_type n \<noteq> None) \<Longrightarrow>
    \<forall>l \<in> P. is_dir (env_fs fenv) l \<longrightarrow> is_dir (server_fs s) (mirrored base r l) \<Longrightarrow>
    plain_fs (server_fs s) \<Longrightarrow> \<forall>l \<in> set ls. node_at (server_fs s) (mirrored base r l) = None \<Longrightarrow>
    \<exists>s'. serve_infos senv (map snd (location_reports fenv (butlast r) k ls)) s = Inr s' \<and>
      answered s' = answered s \<and> plain_fs (server_fs s') \<and>
      (\<forall>l \<in> P \<union> set ls. is_dir (env_fs fenv) l \<longrightarrow> is_dir (server_fs s') (mirrored base r l)) \<and>
      map fst (requested s') = map fst (requested s) @
        map fst (filter (\<lambda>(i, l). is_file (env_fs fenv) l) (zip (map fst (location_reports fenv (butlast r) k ls)) ls))"
proof (induction ls arbitrary: P s k)
  case Nil
  then show ?case by simp
next
  case (Cons l ls)
  from Cons.prems(3) obtain n where n: "prefix r l" "node_at (env_fs fenv) l = Some n" "reported_type n \<noteq> None" by auto
  have "l \<noteq> []" using n(1) src(2) by auto
  then have "is_dir (env_fs fenv) (butlast l)" using src(1) n(2) by (auto simp: plain_fs_def dest: fs_wf_node)
  with Cons.prems(1,4) have parent: "is_dir (server_fs s) (butlast (mirrored base r l))"
    using mirrored_simps(3) [OF src(2) n(1)] by (metis parents_first.simps(2))
  from serve_location [OF src(1) n(2,3,1) src(2) env Cons.prems(5) _ parent, of "k + 1"] Cons.prems(6) obtain s1 where
    s1: "QSyncServerWorkerCallback senv (serialize (env_capnp fenv) (location_info fenv (butlast r) l (k + 1))) s = Inr s1"
      "answered s1 = answered s" "plain_fs (server_fs s1)"
      "\<And>l'. l' \<noteq> mirrored base r l \<Longrightarrow> node_at (server_fs s1) l' = node_at (server_fs s) l'"
      "is_dir (server_fs s1) (mirrored base r l) = is_dir (env_fs fenv) l"
      "map fst (requested s1) = map fst (requested s) @ (if is_file (env_fs fenv) l then [k + 1] else [])" by auto
  have "\<forall>l' \<in> insert l P. is_dir (env_fs fenv) l' \<longrightarrow> is_dir (server_fs s1) (mirrored base r l')"
    using Cons.prems(4,6) s1(4,5) by (metis insert_iff is_dir_def list.set_intros(1) option.distinct(1))
  moreover have "\<forall>l' \<in> set ls. node_at (server_fs s1) (mirrored base r l') = None"
    using Cons.prems(2,3,6) s1(4) mirrored_simps(4) [OF src(2)] n(1) by (metis distinct.simps(2) list.set_intros)
  ultimately obtain s' where
    "serve_infos senv (map snd (location_reports fenv (butlast r) (k + 1) ls)) s1 = Inr s'" "answered s' = answered s1"
    "plain_fs (server_fs s')"
    "\<forall>l' \<in> insert l P \<union> set ls. is_dir (env_fs fenv) l' \<longrightarrow> is_dir (server_fs s') (mirrored base r l')"
    "map fst (requested s') = map fst (requested s1) @
        map fst (filter (\<lambda>(i, l). is_file (env_fs fenv) l) (zip (map fst (location_reports fenv (butlast r) (k + 1) ls)) ls))"
    using Cons.IH [of "insert l P" s1 "k + 1"] Cons.prems(1-3) s1(3) by auto
  with s1 show ?case by simp
qed

section \<open>A tree that is up to date\<close>

text \<open>
  What the server has at the place of a node that asks for no update: the same kind, not older than the
  reported time, and for a file of the same size.
\<close>

definition up_to_date :: "clock \<Rightarrow> node \<Rightarrow> node option \<Rightarrow> bool" where
  "up_to_date clk n n' =
     (case n of
        Regular c t \<Rightarrow>
          (case n' of
             Some (Regular c' t') \<Rightarrow> length c' = length c \<and> from_utc clk (to_utc_seconds clk t) \<le> t'
           | _ \<Rightarrow> False)
      | Directory t \<Rightarrow>
          (case n' of Some (Directory t') \<Rightarrow> from_utc clk (to_utc_seconds clk t) \<le> t' | _ \<Rightarrow> False)
      | _ \<Rightarrow> True)"

text \<open>The time in seconds and the size fit into their 64 bits.\<close>

definition times_fit :: "clock \<Rightarrow> node \<Rightarrow> bool" where
  "times_fit clk n \<longleftrightarrow> - (2 ^ 63) \<le> to_utc_seconds clk (time_of n) \<and> to_utc_seconds clk (time_of n) < 2 ^ 63 \<and>
     (\<forall>c t. n = Regular c t \<longrightarrow> length c < 2 ^ 64)"

lemma location_up_to_date:
  assumes src: "plain_fs (env_fs fenv)" "node_at (env_fs fenv) l = Some n" "reported_type n \<noteq> None" "prefix r l" "r \<noteq> []"
    and fit: "times_fit (env_clock fenv) n" and base: "proper base" and dst: "plain_fs sfs"
    and up: "up_to_date (env_clock fenv) n (node_at sfs (mirrored base r l))"
  shows "\<not> DoesFileNeedUpdate (env_clock fenv) sfs (abs_path base) (location_info fenv (butlast r) l k)"
proof -
  let ?File = "location_info fenv (butlast r) l k"
  obtain ms where ms: "l = butlast r @ ms" "ms \<noteq> []" using mirrored_simps(2) [OF src(5,4)] by blast
  have D: "mirrored base r l = base @ ms" using mirrored_simps(1) [OF src(5)] ms(1) by simp
  have proper: "proper (butlast r @ ms)" using src(1,2) ms(1) by (auto simp: plain_fs_def dest: fs_wf_node)
  then have proper': "proper (base @ ms)" using base by simp
  have path: "path_append (abs_path base) (path_of (c_str (getPath ?File))) = abs_path (base @ ms)"
    using reported_path_place [OF proper base ms(2), of fenv n k] src(2) ms(1) by simp
  have time: "message_time ?File = to_utc_seconds (env_clock fenv) (time_of n)"
    using reported_time [OF src(2,1)] fit by (simp add: times_fit_def)
  note sel = location_info_sel [OF src(2), of "butlast r" k]
  from src(3) consider t where "n = Directory t" | c t where "n = Regular c t" by (cases n) auto
  then show ?thesis
  proof cases
    case 1
    with up D obtain t' where "node_at sfs (base @ ms) = Some (Directory t')"
      "from_utc (env_clock fenv) (to_utc_seconds (env_clock fenv) t) \<le> t'"
      by (auto simp: up_to_date_def split: option.splits node.splits)
    with plain_update [OF dst proper' path] time 1 show ?thesis by simp
  next
    case 2
    with up D obtain c' t' where "node_at sfs (base @ ms) = Some (Regular c' t')" "length c' = length c"
      "from_utc (env_clock fenv) (to_utc_seconds (env_clock fenv) t) \<le> t'"
      by (auto simp: up_to_date_def split: option.splits node.splits)
    moreover have "unat (getSize ?File) = length c"
      using sel(4) fit 2 by (simp add: times_fit_def unat_of_nat take_bit_nat_eq_self)
    ultimately show ?thesis using plain_update [OF dst proper' path] time 2 by simp
  qed
qed

lemma serve_up_to_date:
  assumes "server_ok senv" and "server_capnp senv = env_capnp fenv" and "capnp_ok (env_capnp fenv)"
    and "\<And>l k. l \<in> set ls \<Longrightarrow>
      \<not> DoesFileNeedUpdate (server_clock senv) (server_fs s) (BasePath senv) (location_info fenv base l k)"
    and "\<And>l. l \<in> set ls \<Longrightarrow> node_at (env_fs fenv) l \<noteq> None"
  shows "serve_infos senv (map snd (location_reports fenv base k ls)) s =
    Inr (s\<lparr>answered := answered s @ map fst (location_reports fenv base k ls)\<rparr>)"
  using assms(4,5)
proof (induction ls arbitrary: s k)
  case Nil
  then show ?case by simp
next
  case (Cons l ls)
  from Cons.prems(2) [of l] obtain n where "node_at (env_fs fenv) l = Some n" by auto
  then have "getId (location_info fenv base l (k + 1)) = k + 1" by (rule location_info_sel(3))
  with Cons.prems(1) [of l "k + 1"] have "QSyncServerWorkerCallback senv (serialize (env_capnp fenv) (location_info fenv base l (k + 1))) s =
      Inr (s\<lparr>answered := answered s @ [k + 1]\<rparr>)"
    using assms(1,2) unpack_serialize [OF assms(3), of "location_info fenv base l (k + 1)"]
    by (simp add: QSyncServerWorkerCallback_def server_ok_def)
  with Cons.IH [of "s\<lparr>answered := answered s @ [k + 1]\<rparr>" "k + 1"] Cons.prems show ?case by simp
qed

end
