(* ===== verification/ServerData.thy ===== *)
theory ServerData
  imports ServerWorker
begin

text \<open>
  A data stream on the server's side (\<open>server.cpp\<close>): \<open>QSyncServerDataStreamCallback\<close>, which
  hands every receive to the eight threads of \<open>IoPool\<close>, and
  \<open>QsyncServer::DataStreamContext::FileIoWorker\<close>, which writes it to the temporary file and with
  the final one moves the file to its destination. A receive stays pending until the worker calls
  \<open>ReceiveComplete\<close>. Besides the two functions as they run alone there is a machine whose steps
  are what other threads can see of them.
\<close>

section \<open>The callback\<close>

datatype data_event =
    DataReceive "bytes list" bool       \<comment> \<open>the buffers and the \<open>FIN\<close> flag\<close>
  | DataShutdownComplete
  | DataOther

text \<open>Dropping a reference: \<open>None\<close> once the context is deleted.\<close>

definition dereference :: "receive_context \<Rightarrow> receive_context option" where
  "dereference c = (if RefCount c = 1 then None else Some (c\<lparr>RefCount := RefCount c - 1\<rparr>))"

text \<open>
  The callback gives the context and whether an item was enqueued. The buffer descriptors are copied
  into an array of two. The counter of references has 64 bits and cannot overflow in practice, so
  it is a natural number.
\<close>

fun QSyncServerDataStreamCallback ::
  "receive_context \<Rightarrow> data_event \<Rightarrow> ub + receive_context option \<times> bool"
where
  "QSyncServerDataStreamCallback c (DataReceive bufs fin) =
     (if 2 < length bufs then Inl OutOfBoundsWrite
      else Inr (Some (c\<lparr>FinalReceive := fin, Buffers := bufs, RefCount := Suc (RefCount c)\<rparr>), True))"
| "QSyncServerDataStreamCallback c DataShutdownComplete = Inr (dereference c, False)"
| "QSyncServerDataStreamCallback c DataOther = Inr (Some c, False)"

section \<open>The worker\<close>

text \<open>
  Writing the buffers, up to the first write that fails: whether all were written, and the bytes
  counted, the ones of the failed write included.
\<close>

fun write_buffers :: "path \<Rightarrow> loc \<Rightarrow> bool \<Rightarrow> bytes list \<Rightarrow> fsys \<Rightarrow> nat \<Rightarrow> bool \<times> fsys \<times> nat" where
  "write_buffers p l failed [] fs n = (True, fs, n)"
| "write_buffers p l failed (b # bs) fs n =
     (if failed then (False, fs, n + length b)
      else
        (case stream_write p l b fs of
           None \<Rightarrow> (False, fs, n + length b)
         | Some fs' \<Rightarrow> write_buffers p l False bs fs' (n + length b)))"

text \<open>
  The first part of \<open>FileIoWorker\<close>, to the update of \<open>BytesWritten\<close>. When the temporary file
  cannot be opened the function returns without dropping its reference.
\<close>

datatype write_outcome = OpenFailed | WriteFailed | Written nat

definition write_received :: "fsys \<Rightarrow> receive_context \<Rightarrow> write_outcome \<times> fsys \<times> receive_context" where
  "write_received fs c =
     (case (case FileWriteStream c of
              Some l \<Rightarrow> Some (l, fs, write_failed c)
            | None \<Rightarrow>
                (case fs_open_trunc (TempDestinationPath c) fs of
                   None \<Rightarrow> None
                 | Some (l, fs') \<Rightarrow> Some (l, fs', False))) of
        None \<Rightarrow> (OpenFailed, fs, c\<lparr>write_failed := True\<rparr>)
      | Some (l, fs1, failed) \<Rightarrow>
          (case write_buffers (TempDestinationPath c) l failed (Buffers c) fs1 0 of
             (False, fs2, n) \<Rightarrow> (WriteFailed, fs2, c\<lparr>FileWriteStream := Some l, write_failed := True\<rparr>)
           | (True, fs2, n) \<Rightarrow>
               (Written n, fs2, c\<lparr>FileWriteStream := Some l, write_failed := failed,
                 BytesWritten := (BytesWritten c + n) mod 2 ^ 64\<rparr>)))"

text \<open>Removing the temporary file: an error throws, which nothing catches.\<close>

definition remove_temp :: "receive_context \<Rightarrow> fsys \<Rightarrow> ub + fsys" where
  "remove_temp c fs =
     (case fs_remove (TempDestinationPath c) fs of None \<Rightarrow> Inl UncaughtException | Some fs' \<Rightarrow> Inr fs')"

text \<open>Whether the file at the destination is still the one of the snapshot.\<close>

definition destination_unchanged :: "receive_context \<Rightarrow> fsys \<Rightarrow> bool" where
  "destination_unchanged c fs \<longleftrightarrow>
     fs_file_size fs (DestinationPath c) = Some (SnapshotDestSize c) \<and>
     fs_last_write_time fs (DestinationPath c) = Some (SnapshotDestModTime c)"

definition install_file :: "receive_context \<Rightarrow> fsys \<Rightarrow> ub + fsys" where
  "install_file c fs =
     (let StillExists = (fs_exists fs (DestinationPath c) = Some True) in
      if FileExists c \<and> StillExists \<and> \<not> destination_unchanged c fs then remove_temp c fs
      else if BytesWritten c \<noteq> NewFileSize c then Inr fs
      else
        (case fs_rename (TempDestinationPath c) (DestinationPath c) fs of
           None \<Rightarrow> remove_temp c fs
         | Some fs' \<Rightarrow>
             (case fs_set_last_write_time (DestinationPath c) (FileTime c) fs' of
                None \<Rightarrow> Inr fs'
              | Some fs'' \<Rightarrow> Inr fs'')))"

text \<open>The part after \<open>ReceiveComplete\<close>, to the label \<open>Deref\<close>.\<close>

definition finish_receive :: "fsys \<Rightarrow> receive_context \<Rightarrow> ub + fsys \<times> receive_context" where
  "finish_receive fs c =
     (if FinalReceive c then
        let c' = c\<lparr>FileWriteStream := None\<rparr>
        in (case install_file c' fs of Inl e \<Rightarrow> Inl e | Inr fs' \<Rightarrow> Inr (fs', c'))
      else Inr (fs, c))"

definition FileIoWorker ::
  "fsys \<Rightarrow> receive_context \<Rightarrow> ub + write_outcome \<times> fsys \<times> receive_context option"
where
  "FileIoWorker fs c =
     (case write_received fs c of
        (OpenFailed, fs', c') \<Rightarrow> Inr (OpenFailed, fs', Some c')
      | (WriteFailed, fs', c') \<Rightarrow> Inr (WriteFailed, fs', dereference c')
      | (Written n, fs', c') \<Rightarrow>
          (case finish_receive fs' c' of
             Inl e \<Rightarrow> Inl e
           | Inr (fs'', c'') \<Rightarrow> Inr (Written n, fs'', dereference c'')))"

text \<open>A transfer in which every receive is handled before the next one is indicated.\<close>

fun receive_file ::
  "fsys \<Rightarrow> receive_context \<Rightarrow> (bytes list \<times> bool) list \<Rightarrow> ub + fsys \<times> receive_context option"
where
  "receive_file fs c [] = Inr (fs, Some c)"
| "receive_file fs c ((bufs, fin) # rs) =
     (case QSyncServerDataStreamCallback c (DataReceive bufs fin) of
        Inr (Some c1, True) \<Rightarrow>
          (case FileIoWorker fs c1 of
             Inl e \<Rightarrow> Inl e
           | Inr (Written n, fs', Some c') \<Rightarrow> receive_file fs' c' rs
           | Inr (_, fs', c') \<Rightarrow> Inr (fs', c'))
      | Inr (c1, _) \<Rightarrow> Inr (fs, c1)
      | Inl e \<Rightarrow> Inl e)"

section \<open>The machine\<close>

text \<open>
  Where an item of the pool stands. The step from \<open>ItemQueued\<close> writes the buffers, the next one
  calls \<open>ReceiveComplete\<close>, after which MsQuic may indicate another receive on its own thread,
  then \<open>FinalReceive\<close> is looked at and the file installed, then the reference is dropped.
\<close>

datatype item_phase = ItemQueued | ItemCompleting | ItemFinishing | ItemDereferencing

record receive_machine =
  rm_fs :: fsys
  rm_ctx :: "receive_context option"
  items :: "item_phase list"
  receive_open :: bool                  \<comment> \<open>MsQuic may indicate a receive\<close>
  stream_alive :: bool                  \<comment> \<open>\<open>SHUTDOWN_COMPLETE\<close> has not been indicated\<close>

datatype receive_event =
    Indicate "bytes list" bool | WriteItem nat | CompleteItem nat | FinishItem nat | DerefItem nat | EndStream

definition drop_item :: "nat \<Rightarrow> item_phase list \<Rightarrow> item_phase list" where
  "drop_item i is = take i is @ drop (Suc i) is"

definition at_item ::
  "receive_machine \<Rightarrow> nat \<Rightarrow> item_phase \<Rightarrow> (receive_context \<Rightarrow> ub + receive_machine) \<Rightarrow>
   (ub + receive_machine) option"
where
  "at_item m i ph f =
     (if i < length (items m) \<and> items m ! i = ph then
        Some (case rm_ctx m of None \<Rightarrow> Inl UseAfterFree | Some c \<Rightarrow> f c)
      else None)"

fun receive_step :: "receive_event \<Rightarrow> receive_machine \<Rightarrow> (ub + receive_machine) option" where
  "receive_step (Indicate bufs fin) m =
     (if stream_alive m \<and> receive_open m then
        Some (case rm_ctx m of
          None \<Rightarrow> Inl UseAfterFree
        | Some c \<Rightarrow>
            (case QSyncServerDataStreamCallback c (DataReceive bufs fin) of
               Inl e \<Rightarrow> Inl e
             | Inr (c', _) \<Rightarrow> Inr (m\<lparr>rm_ctx := c', items := items m @ [ItemQueued], receive_open := False\<rparr>)))
      else None)"
| "receive_step (WriteItem i) m =
     at_item m i ItemQueued (\<lambda>c.
       (case write_received (rm_fs m) c of
          (OpenFailed, fs', c') \<Rightarrow> Inr (m\<lparr>rm_fs := fs', rm_ctx := Some c', items := drop_item i (items m)\<rparr>)
        | (WriteFailed, fs', c') \<Rightarrow>
            Inr (m\<lparr>rm_fs := fs', rm_ctx := Some c', items := (items m)[i := ItemDereferencing]\<rparr>)
        | (Written n, fs', c') \<Rightarrow>
            Inr (m\<lparr>rm_fs := fs', rm_ctx := Some c', items := (items m)[i := ItemCompleting]\<rparr>)))"
| "receive_step (CompleteItem i) m =
     at_item m i ItemCompleting (\<lambda>c. Inr (m\<lparr>items := (items m)[i := ItemFinishing], receive_open := True\<rparr>))"
| "receive_step (FinishItem i) m =
     at_item m i ItemFinishing (\<lambda>c.
       (case finish_receive (rm_fs m) c of
          Inl e \<Rightarrow> Inl e
        | Inr (fs', c') \<Rightarrow>
            Inr (m\<lparr>rm_fs := fs', rm_ctx := Some c', items := (items m)[i := ItemDereferencing]\<rparr>)))"
| "receive_step (DerefItem i) m =
     at_item m i ItemDereferencing (\<lambda>c.
       Inr (m\<lparr>rm_ctx := dereference c, items := drop_item i (items m)\<rparr>))"
| "receive_step EndStream m =
     (if stream_alive m then
        Some (case rm_ctx m of
          None \<Rightarrow> Inl UseAfterFree
        | Some c \<Rightarrow> Inr (m\<lparr>rm_ctx := dereference c, stream_alive := False\<rparr>))
      else None)"

fun receive_run :: "receive_event list \<Rightarrow> receive_machine \<Rightarrow> (ub + receive_machine) option" where
  "receive_run [] m = Some (Inr m)"
| "receive_run (e # es) m =
     (case receive_step e m of
        None \<Rightarrow> None
      | Some (Inl u) \<Rightarrow> Some (Inl u)
      | Some (Inr m') \<Rightarrow> receive_run es m')"

text \<open>The machine for a stream the worker callback has just opened.\<close>

definition started :: "fsys \<Rightarrow> receive_context \<Rightarrow> receive_machine" where
  "started fs c = \<lparr>rm_fs = fs, rm_ctx = Some c, items = [], receive_open = True, stream_alive = True\<rparr>"

inductive machine_receives :: "receive_machine \<Rightarrow> receive_machine \<Rightarrow> bool" where
  machine_receives: "receive_step e m = Some (Inr m') \<Longrightarrow> machine_receives m m'"

inductive_cases machine_receivesE: "machine_receives m m'"

section \<open>References\<close>

text \<open>
  The context has a reference for the stream and one for each item, and those that were leaked; it is
  deleted only when there is neither a stream nor an item.
\<close>

definition references :: "receive_machine \<Rightarrow> nat" where
  "references m = length (items m) + (if stream_alive m then 1 else 0)"

definition refs_ok :: "receive_machine \<Rightarrow> bool" where
  "refs_ok m \<longleftrightarrow> (case rm_ctx m of None \<Rightarrow> references m = 0 | Some c \<Rightarrow> references m \<le> RefCount c \<and> 0 < RefCount c)"

lemma length_drop_item [simp]: "i < length is \<Longrightarrow> length (drop_item i is) = length is - 1"
  by (simp add: drop_item_def)

lemma write_received_refs: "write_received fs c = (out, fs', c') \<Longrightarrow> RefCount c' = RefCount c"
  by (auto simp: write_received_def split: option.splits prod.splits bool.splits)

lemma finish_receive_refs: "finish_receive fs c = Inr (fs', c') \<Longrightarrow> RefCount c' = RefCount c"
  by (auto simp: finish_receive_def Let_def split: if_splits sum.splits)

lemma refs_ok_step:
  assumes "refs_ok m" and "receive_step e m = Some (Inr m')"
  shows "refs_ok m'"
proof (cases "rm_ctx m")
  case None
  with assms show ?thesis
    by (cases e) (auto simp: refs_ok_def references_def at_item_def split: if_splits)
next
  case (Some c)
  note m = assms(2) Some
  from assms(1) Some have refs: "references m \<le> RefCount c" "0 < RefCount c" by (simp_all add: refs_ok_def)
  show ?thesis
  proof (cases e)
    case (Indicate bufs fin)
    with m refs show ?thesis by (auto simp: refs_ok_def references_def split: if_splits)
  next
    case (WriteItem i)
    obtain out fs' c' where w: "write_received (rm_fs m) c = (out, fs', c')" by (cases "write_received (rm_fs m) c")
    with WriteItem m refs write_received_refs [OF w] show ?thesis
      by (cases out) (auto simp: refs_ok_def references_def at_item_def split: if_splits)
  next
    case (CompleteItem i)
    with m refs show ?thesis by (auto simp: refs_ok_def references_def at_item_def split: if_splits)
  next
    case (FinishItem i)
    with m refs show ?thesis
      by (auto simp: refs_ok_def references_def at_item_def finish_receive_refs split: if_splits sum.splits)
  next
    case (DerefItem i)
    with m refs show ?thesis
      by (auto simp: refs_ok_def references_def at_item_def dereference_def split: if_splits)
  next
    case EndStream
    with m refs show ?thesis
      by (cases "items m") (auto simp: refs_ok_def references_def dereference_def split: if_splits)
  qed
qed


lemma remove_temp_error: "remove_temp c fs = Inl e \<Longrightarrow> e = UncaughtException"
  by (simp add: remove_temp_def split: option.splits)

lemma install_file_error: "install_file c fs = Inl e \<Longrightarrow> e = UncaughtException"
  using remove_temp_error [of c fs e] by (simp add: install_file_def Let_def split: if_splits option.splits)

lemma finish_receive_error: "finish_receive fs c = Inl e \<Longrightarrow> e = UncaughtException"
  by (auto simp: finish_receive_def Let_def dest: install_file_error split: if_splits sum.splits)

lemma refs_ok_started: "0 < RefCount c \<Longrightarrow> refs_ok (started fs c)"
  by (simp add: refs_ok_def references_def started_def)

text \<open>
  C18. The context of a data stream is never used after it was deleted: however receives, the threads
  of the pool and the end of the stream interleave, no step finds the context gone, since each
  item in the pool and the stream itself hold a reference.
\<close>

theorem server_context_never_dangles:
  assumes "reachable (\<lambda>m. \<exists>fs c. m = started fs c \<and> 0 < RefCount c) machine_receives m"
  shows "receive_step e m \<noteq> Some (Inl UseAfterFree)"
proof -
  have "refs_ok m"
    by (rule reachable_invariant [OF assms]) (auto simp: refs_ok_started elim: machine_receivesE refs_ok_step)
  then have alive: "rm_ctx m \<noteq> None" if "items m \<noteq> [] \<or> stream_alive m"
    using that by (cases "rm_ctx m") (auto simp: refs_ok_def references_def)
  show ?thesis
  proof (cases "rm_ctx m")
    case None
    with alive have "items m = []" "\<not> stream_alive m" by auto
    then show ?thesis by (cases e) (simp_all add: at_item_def)
  next
    case (Some c)
    have "finish_receive fs c \<noteq> Inl UseAfterFree" for fs
      using finish_receive_error by blast
    with Some show ?thesis
      by (cases e) (auto simp: at_item_def split: sum.splits prod.splits write_outcome.splits)
  qed
qed

theorem server_context_never_dangles_witness:
  "receive_step (WriteItem 0) (started example_fs (new_context\<lparr>RefCount := 1\<rparr>)) \<noteq> Some (Inl UseAfterFree)"
  by (rule server_context_never_dangles) (rule reachable_start, fastforce)

text \<open>
  A receive whose worker cannot open the temporary file leaks the context: the worker returns
  without dropping its reference, so the context outlives the stream.
\<close>

theorem open_failure_leaks_context:
  assumes "fs_open_trunc (TempDestinationPath c) fs = None" and "FileWriteStream c = None"
    and "length bufs \<le> 2" and "RefCount c = 1"
  shows "\<exists>m c'. receive_run [Indicate bufs fin, WriteItem 0, EndStream] (started fs c) = Some (Inr m) \<and>
    \<not> stream_alive m \<and> items m = [] \<and> rm_ctx m = Some c' \<and> RefCount c' = 1"
  using assms by (simp add: started_def at_item_def write_received_def drop_item_def dereference_def)

theorem open_failure_leaks_context_witness:
  "\<exists>m c'. receive_run [Indicate [[1]] True, WriteItem 0, EndStream]
      (started example_fs (new_context\<lparr>RefCount := 1, TempDestinationPath := abs_path [''x'', ''y'']\<rparr>)) = Some (Inr m) \<and>
    \<not> stream_alive m \<and> items m = [] \<and> rm_ctx m = Some c' \<and> RefCount c' = 1"
  by (rule open_failure_leaks_context)
    (simp_all add: fs_open_trunc_def example_fs_def resolve_def walk.simps(2) node_at_def new_context_def
      dot_def dotdot_def)

text \<open>
  The callback copies the buffer descriptors into an array of two: a receive with more of them
  writes outside of it, and one with at most two is copied as it is.
\<close>

theorem receive_buffers_overflow_iff:
  "QSyncServerDataStreamCallback c (DataReceive bufs fin) = Inl OutOfBoundsWrite \<longleftrightarrow> 2 < length bufs"
  by simp

section \<open>Receiving a file\<close>

definition no_write_faults :: "fsys \<Rightarrow> bool" where
  "no_write_faults fs \<longleftrightarrow> write_fault fs = (\<lambda>_ _. False)"

lemma no_write_faults_put [simp]: "no_write_faults (put_node l n fs) = no_write_faults fs"
  by (simp add: no_write_faults_def)

lemma write_buffers_ok:
  assumes "plain_fs fs" and "leaf_place fs l" and "no_write_faults fs" and "node_at fs l = Some (Regular c t)"
  shows "\<exists>fs' t'. write_buffers p l False bs fs n = (True, fs', n + length (concat bs)) \<and>
    plain_fs fs' \<and> leaf_place fs' l \<and> no_write_faults fs' \<and> node_at fs' l = Some (Regular (c @ concat bs) t') \<and>
    (\<forall>l'. l' \<noteq> l \<longrightarrow> node_at fs' l' = node_at fs l')"
  using assms
proof (induction bs arbitrary: fs c t n)
  case Nil
  then show ?case by simp
next
  case (Cons b bs)
  let ?fs = "put_node l (Regular (c @ b) (now fs)) fs"
  have "stream_write p l b fs = Some ?fs"
    using Cons.prems by (simp add: stream_write_def no_write_faults_def)
  moreover have "plain_fs ?fs" using Cons.prems by (intro plain_put) simp_all
  moreover have "leaf_place ?fs l" using Cons.prems by (intro leaf_place_put) simp_all
  moreover have "node_at ?fs l = Some (Regular (c @ b) (now fs))" by simp
  ultimately obtain fs' t' where
    "write_buffers p l False bs ?fs (n + length b) = (True, fs', n + length b + length (concat bs))"
    "plain_fs fs'" "leaf_place fs' l" "no_write_faults fs'" "node_at fs' l = Some (Regular ((c @ b) @ concat bs) t')"
    "\<forall>l'. l' \<noteq> l \<longrightarrow> node_at fs' l' = node_at ?fs l'"
    using Cons.IH [of ?fs "c @ b" "now fs" "n + length b"] Cons.prems(3) by auto
  with \<open>stream_write p l b fs = Some ?fs\<close> show ?case by (simp add: fs_nodes.look_put add.assoc)
qed

text \<open>
  The situation while a file is received: the temporary file at \<open>T\<close> holds what has come, and
  nothing else has changed since the start \<open>fs0\<close>. \<open>c0\<close> is the context at the start.
\<close>

definition receiving :: "fsys \<Rightarrow> receive_context \<Rightarrow> loc \<Rightarrow> bytes \<Rightarrow> fsys \<Rightarrow> receive_context \<Rightarrow> bool" where
  "receiving fs0 c0 T content fs c \<longleftrightarrow>
     plain_fs fs \<and> no_write_faults fs \<and> leaf_place fs T \<and> (\<forall>l. l \<noteq> T \<longrightarrow> node_at fs l = node_at fs0 l) \<and>
     (case FileWriteStream c of
        None \<Rightarrow> content = [] \<and> file_place fs T
      | Some l \<Rightarrow> l = T \<and> (\<exists>t. node_at fs T = Some (Regular content t))) \<and>
     \<not> write_failed c \<and> BytesWritten c = length content mod 2 ^ 64 \<and> RefCount c = RefCount c0 \<and>
     TempDestinationPath c = abs_path T \<and> DestinationPath c = DestinationPath c0 \<and>
     FileTime c = FileTime c0 \<and> NewFileSize c = NewFileSize c0 \<and> FileExists c = FileExists c0 \<and>
     SnapshotDestSize c = SnapshotDestSize c0 \<and> SnapshotDestModTime c = SnapshotDestModTime c0"

lemma receiving_write:
  assumes rcv: "receiving fs0 c0 T content fs c" and "length bufs \<le> 2"
  shows "\<exists>fs' c'. write_received fs (c\<lparr>FinalReceive := fin, Buffers := bufs, RefCount := Suc (RefCount c)\<rparr>) =
      (Written (length (concat bufs)), fs', c') \<and>
    receiving fs0 (c0\<lparr>RefCount := Suc (RefCount c0)\<rparr>) T (content @ concat bufs) fs' c' \<and>
    FinalReceive c' = fin \<and> FileWriteStream c' = Some T"
proof -
  let ?c = "c\<lparr>FinalReceive := fin, Buffers := bufs, RefCount := Suc (RefCount c)\<rparr>"
  have "\<exists>fs1. (case FileWriteStream ?c of Some l \<Rightarrow> Some (l, fs, write_failed ?c)
        | None \<Rightarrow> (case fs_open_trunc (TempDestinationPath ?c) fs of None \<Rightarrow> None
            | Some (l, fs') \<Rightarrow> Some (l, fs', False))) = Some (T, fs1, False) \<and>
      plain_fs fs1 \<and> leaf_place fs1 T \<and> no_write_faults fs1 \<and> (\<exists>t. node_at fs1 T = Some (Regular content t)) \<and>
      (\<forall>l. l \<noteq> T \<longrightarrow> node_at fs1 l = node_at fs l)"
  proof (cases "FileWriteStream c")
    case None
    with rcv have place: "plain_fs fs" "file_place fs T" "leaf_place fs T" "content = []" "no_write_faults fs"
      "TempDestinationPath c = abs_path T" by (simp_all add: receiving_def)
    let ?fs1 = "put_node T (Regular [] (now fs)) fs"
    have "plain_fs ?fs1" using place by (intro plain_put) simp_all
    moreover have "leaf_place ?fs1 T" using place by (intro leaf_place_put) simp_all
    ultimately show ?thesis using None plain_open_trunc [OF place(1,2)] place
      by (intro exI [of _ ?fs1]) (simp add: fs_nodes.look_put)
  next
    case (Some l)
    with rcv show ?thesis by (auto simp: receiving_def)
  qed
  then obtain fs1 t where opened: "(case FileWriteStream ?c of Some l \<Rightarrow> Some (l, fs, write_failed ?c)
        | None \<Rightarrow> (case fs_open_trunc (TempDestinationPath ?c) fs of None \<Rightarrow> None
            | Some (l, fs') \<Rightarrow> Some (l, fs', False))) = Some (T, fs1, False)"
    and fs1: "plain_fs fs1" "leaf_place fs1 T" "no_write_faults fs1" "node_at fs1 T = Some (Regular content t)"
      "\<forall>l. l \<noteq> T \<longrightarrow> node_at fs1 l = node_at fs l" by blast
  from write_buffers_ok [OF fs1(1-4), of "abs_path T" bufs 0] obtain fs2 t2 where
    fs2: "write_buffers (abs_path T) T False bufs fs1 0 = (True, fs2, length (concat bufs))"
      "plain_fs fs2" "leaf_place fs2 T" "no_write_faults fs2" "node_at fs2 T = Some (Regular (content @ concat bufs) t2)"
      "\<forall>l. l \<noteq> T \<longrightarrow> node_at fs2 l = node_at fs1 l" by auto
  let ?c2 = "?c\<lparr>FileWriteStream := Some T, write_failed := False,
      BytesWritten := (BytesWritten c + length (concat bufs)) mod 2 ^ 64\<rparr>"
  have "write_received fs ?c = (Written (length (concat bufs)), fs2, ?c2)"
    using opened fs2(1) rcv unfolding write_received_def by (simp add: receiving_def)
  moreover have "receiving fs0 (c0\<lparr>RefCount := Suc (RefCount c0)\<rparr>) T (content @ concat bufs) fs2 ?c2"
    using rcv fs1(5) fs2 by (auto simp: receiving_def mod_add_left_eq)
  ultimately show ?thesis by (intro exI conjI) auto
qed


lemma receiving_dirs:
  assumes "receiving fs0 c0 T content fs c" and "file_place fs0 T" and "FileWriteStream c = Some T"
  shows "is_dir fs l \<longleftrightarrow> is_dir fs0 l"
  using assms by (cases "l = T") (auto simp: receiving_def is_dir_def file_place_def leaf_place_def)

lemma receiving_install:
  assumes rcv: "receiving fs0 c0 T content fs c" and stream: "FileWriteStream c = Some T"
    and T: "file_place fs0 T" and D: "file_place fs0 D" "D \<noteq> T" "DestinationPath c0 = abs_path D"
    and size: "NewFileSize c0 = length content mod 2 ^ 64"
    and snap: "FileExists c0 \<Longrightarrow> \<exists>old t. node_at fs0 D = Some (Regular old t) \<and>
      SnapshotDestSize c0 = length old \<and> SnapshotDestModTime c0 = t"
  shows "\<exists>fs'. install_file (c\<lparr>FileWriteStream := None\<rparr>) fs = Inr fs' \<and> plain_fs fs' \<and>
    (\<forall>l. node_at fs' l = (if l = D then Some (Regular content (FileTime c0)) else if l = T then None else node_at fs0 l))"
proof -
  note dirs = receiving_dirs [OF rcv T stream]
  from rcv stream obtain t where fs: "plain_fs fs" "leaf_place fs T" "node_at fs T = Some (Regular content t)"
    and same: "\<And>l. l \<noteq> T \<Longrightarrow> node_at fs l = node_at fs0 l" by (auto simp: receiving_def)
  from rcv D(3) size have c: "BytesWritten c = NewFileSize c" "TempDestinationPath c = abs_path T"
    "DestinationPath c = abs_path D" "FileTime c = FileTime c0" "FileExists c = FileExists c0"
    "SnapshotDestSize c = SnapshotDestSize c0" "SnapshotDestModTime c = SnapshotDestModTime c0"
    by (simp_all add: receiving_def)
  have place: "file_place fs D" using D same dirs by (simp add: file_place_def leaf_place_def)
  have unchanged: "destination_unchanged (c\<lparr>FileWriteStream := None\<rparr>) fs" if "FileExists c"
  proof -
    from snap that c obtain old t' where "node_at fs D = Some (Regular old t')"
      "SnapshotDestSize c = length old" "SnapshotDestModTime c = t'" using same D(2) by auto
    then show ?thesis using plain_stat [OF fs(1)] plain_no_fault [OF fs(1)] c
      by (simp add: destination_unchanged_def fs_file_size_def fs_last_write_time_def)
  qed
  let ?fs1 = "put_node D (Regular content t) (del_node T fs)"
  have "leaf_place (del_node T fs) D" using place fs(2) by (auto simp: file_place_def leaf_place_def is_dir_del)
  then have plain1: "plain_fs ?fs1" using plain_del [OF fs(1,2)] by (intro plain_put) simp_all
  have rename: "fs_rename (abs_path T) (abs_path D) fs = Some ?fs1" by (rule plain_rename [OF fs place])
  have D1: "node_at ?fs1 D = Some (Regular content t)" by simp
  let ?fs2 = "put_node D (Regular content (FileTime c0)) ?fs1"
  have "install_file (c\<lparr>FileWriteStream := None\<rparr>) fs = Inr ?fs2"
    using unchanged c rename plain_set_last_write_time [OF plain1 D1, of "FileTime c0"]
    by (cases "FileExists c0") (simp_all add: install_file_def Let_def)
  moreover have "plain_fs ?fs2" using plain_set_time [OF plain1 D1, of "FileTime c0"] by simp
  moreover have "node_at ?fs2 l = (if l = D then Some (Regular content (FileTime c0)) else if l = T then None else node_at fs0 l)" for l
    using same by (simp add: fs_nodes.look_put fs_nodes.look_del)
  ultimately show ?thesis by blast
qed

lemma receive_file_pieces:
  assumes T: "file_place fs0 T" and D: "file_place fs0 D" "D \<noteq> T" "DestinationPath c0 = abs_path D" and ref: "RefCount c0 = 1"
    and snap: "FileExists c0 \<Longrightarrow> \<exists>old t. node_at fs0 D = Some (Regular old t) \<and>
      SnapshotDestSize c0 = length old \<and> SnapshotDestModTime c0 = t"
  shows "receiving fs0 c0 T content fs c \<Longrightarrow> \<forall>b \<in> set (bs @ [b]). length b \<le> 2 \<Longrightarrow>
    NewFileSize c0 = length (content @ concat (concat (bs @ [b]))) mod 2 ^ 64 \<Longrightarrow>
    \<exists>fs' c'. receive_file fs c (map (\<lambda>b. (b, False)) bs @ [(b, True)]) = Inr (fs', Some c') \<and> RefCount c' = 1 \<and>
      plain_fs fs' \<and> (\<forall>l. node_at fs' l = (if l = D then Some (Regular (content @ concat (concat (bs @ [b]))) (FileTime c0))
        else if l = T then None else node_at fs0 l))"
proof (induction bs arbitrary: content fs c)
  case Nil
  from receiving_write [OF Nil.prems(1), of b True] Nil.prems(2) obtain fs1 c1 where
    w: "write_received fs (c\<lparr>FinalReceive := True, Buffers := b, RefCount := Suc (RefCount c)\<rparr>) =
        (Written (length (concat b)), fs1, c1)"
      "receiving fs0 (c0\<lparr>RefCount := Suc (RefCount c0)\<rparr>) T (content @ concat b) fs1 c1" "FinalReceive c1"
      "FileWriteStream c1 = Some T" by auto
  let ?c0 = "c0\<lparr>RefCount := Suc (RefCount c0)\<rparr>"
  have "DestinationPath ?c0 = abs_path D" "NewFileSize ?c0 = length (content @ concat b) mod 2 ^ 64"
    using D(3) Nil.prems(3) by simp_all
  note install = receiving_install [OF w(2,4) T D(1,2) this]
  have "\<exists>fs2. install_file (c1\<lparr>FileWriteStream := None\<rparr>) fs1 = Inr fs2 \<and> plain_fs fs2 \<and>
      (\<forall>l. node_at fs2 l = (if l = D then Some (Regular (content @ concat b) (FileTime ?c0)) else if l = T then None else node_at fs0 l))"
    by (rule install) (use snap in simp)
  then obtain fs2 where
    fs2: "install_file (c1\<lparr>FileWriteStream := None\<rparr>) fs1 = Inr fs2" "plain_fs fs2"
      "\<forall>l. node_at fs2 l = (if l = D then Some (Regular (content @ concat b) (FileTime c0)) else if l = T then None else node_at fs0 l)"
    by auto
  from w(2) ref have refs: "RefCount c1 = 2" by (simp add: receiving_def)
  have "FileIoWorker fs (c\<lparr>FinalReceive := True, Buffers := b, RefCount := Suc (RefCount c)\<rparr>) =
      Inr (Written (length (concat b)), fs2, Some (c1\<lparr>FileWriteStream := None, RefCount := 1\<rparr>))"
    using w(1,3) fs2(1) refs by (simp add: FileIoWorker_def finish_receive_def dereference_def)
  then have "receive_file fs c [(b, True)] = Inr (fs2, Some (c1\<lparr>FileWriteStream := None, RefCount := 1\<rparr>))"
    using Nil.prems(2) by simp
  with fs2(2,3) show ?case by (simp del: receive_file.simps)
next
  case (Cons b1 bs)
  from receiving_write [OF Cons.prems(1), of b1 False] Cons.prems(2) obtain fs1 c1 where
    w: "write_received fs (c\<lparr>FinalReceive := False, Buffers := b1, RefCount := Suc (RefCount c)\<rparr>) =
        (Written (length (concat b1)), fs1, c1)"
      "receiving fs0 (c0\<lparr>RefCount := Suc (RefCount c0)\<rparr>) T (content @ concat b1) fs1 c1" "\<not> FinalReceive c1" by auto
  from w(2) ref have refs: "RefCount c1 = 2" by (simp add: receiving_def)
  with w(2) ref have next1: "receiving fs0 c0 T (content @ concat b1) fs1 (c1\<lparr>RefCount := 1\<rparr>)"
    by (simp add: receiving_def)
  have "FileIoWorker fs (c\<lparr>FinalReceive := False, Buffers := b1, RefCount := Suc (RefCount c)\<rparr>) =
      Inr (Written (length (concat b1)), fs1, Some (c1\<lparr>RefCount := 1\<rparr>))"
    using w refs by (simp add: FileIoWorker_def finish_receive_def dereference_def)
  then have step: "receive_file fs c (map (\<lambda>b. (b, False)) (b1 # bs) @ [(b, True)]) =
      receive_file fs1 (c1\<lparr>RefCount := 1\<rparr>) (map (\<lambda>b. (b, False)) bs @ [(b, True)])"
    using Cons.prems(2) by simp
  have all: "content @ concat (concat ((b1 # bs) @ [b])) = (content @ concat b1) @ concat (concat (bs @ [b]))" by simp
  from Cons.prems(2) have "\<forall>b \<in> set (bs @ [b]). length b \<le> 2" by simp
  from Cons.IH [OF next1 this] Cons.prems(3) show ?case unfolding step all by blast
qed


section \<open>Properties of a received file\<close>

definition temp_loc :: "loc \<Rightarrow> loc" where
  "temp_loc l = butlast l @ [last l @ ''.qsync'']"

lemma temp_loc_neq: "temp_loc l \<noteq> l"
proof
  assume "temp_loc l = l"
  then have "last (temp_loc l) = last l" by simp
  then show False by (simp add: temp_loc_def)
qed

lemma context_receiving:
  assumes "file_context env File fs = Some c" and "destination env File = abs_path D"
    and "plain_fs fs" and "no_write_faults fs" and "file_place fs D" and "file_place fs (temp_loc D)"
  shows "receiving fs (c\<lparr>RefCount := 1\<rparr>) (temp_loc D) [] fs (c\<lparr>RefCount := 1\<rparr>)"
    and "DestinationPath c = abs_path D" and "NewFileSize c = unat (getSize File)"
    and "FileTime c = new_file_time env File"
    and "FileExists c \<Longrightarrow> \<exists>old t. node_at fs D = Some (Regular old t) \<and> SnapshotDestSize c = length old \<and> SnapshotDestModTime c = t"
proof -
  have D: "D \<noteq> []" "proper D" "is_dir fs (butlast D)" using assms(5) by (simp_all add: file_place_def leaf_place_def)
  from file_context_plain [OF assms(3) D assms(2)] assms(1) have c:
    "DestinationPath c = abs_path D" "TempDestinationPath c = abs_path (temp_loc D)"
    "NewFileSize c = unat (getSize File)" "FileTime c = new_file_time env File" "BytesWritten c = 0" "FileWriteStream c = None"
    "case node_at fs D of None \<Rightarrow> \<not> FileExists c
     | Some n \<Rightarrow> FileExists c \<and> SnapshotDestModTime c = time_of n \<and> (\<forall>x t. n = Regular x t \<longrightarrow> SnapshotDestSize c = length x)"
    by (simp_all add: temp_loc_def)
  show "DestinationPath c = abs_path D" and "NewFileSize c = unat (getSize File)"
    and "FileTime c = new_file_time env File" by (fact c)+
  have "\<not> write_failed c" using assms(1)
    by (auto simp: file_context_def Let_def new_context_def split: if_splits option.splits)
  with c assms(3-6) show "receiving fs (c\<lparr>RefCount := 1\<rparr>) (temp_loc D) [] fs (c\<lparr>RefCount := 1\<rparr>)"
    by (simp add: receiving_def file_place_def)
  assume "FileExists c"
  with c(7) obtain n where n: "node_at fs D = Some n" by (cases "node_at fs D") auto
  with assms(5) obtain old t where "n = Regular old t" by (cases n) (auto simp: file_place_def)
  with n c(7) show "\<exists>old t. node_at fs D = Some (Regular old t) \<and> SnapshotDestSize c = length old \<and> SnapshotDestModTime c = t"
    by simp
qed

lemma file_received:
  assumes "file_context env File fs = Some c" and "destination env File = abs_path D" and "getType File = FILE"
    and "plain_fs fs" and "no_write_faults fs" and "file_place fs D" and "file_place fs (temp_loc D)"
    and "\<forall>b \<in> set (bs @ [b]). length b \<le> 2" and "length (concat (concat (bs @ [b]))) = unat (getSize File)"
  shows "\<exists>fs' c'. receive_file fs (c\<lparr>RefCount := 1\<rparr>) (map (\<lambda>b. (b, False)) bs @ [(b, True)]) = Inr (fs', Some c') \<and>
    RefCount c' = 1 \<and>
    (\<forall>l. node_at fs' l =
       (if l = D then Some (Regular (concat (concat (bs @ [b]))) (new_file_time env File))
        else if l = temp_loc D then None else node_at fs l)) \<and>
    \<not> DoesFileNeedUpdate (server_clock env) fs' (BasePath env) File"
proof -
  let ?c = "c\<lparr>RefCount := 1\<rparr>" and ?all = "concat (concat (bs @ [b]))"
  note start = context_receiving [OF assms(1,2,4-7)]
  have size: "NewFileSize ?c = length ([] @ ?all) mod 2 ^ 64"
    using start(3) assms(9) unat_u64_less [of "getSize File"] by simp
  have dest: "DestinationPath ?c = abs_path D" "RefCount ?c = 1" using start(2) by simp_all
  have "\<exists>fs' c'. receive_file fs ?c (map (\<lambda>b. (b, False)) bs @ [(b, True)]) = Inr (fs', Some c') \<and> RefCount c' = 1 \<and>
      plain_fs fs' \<and> (\<forall>l. node_at fs' l = (if l = D then Some (Regular ([] @ ?all) (FileTime ?c))
        else if l = temp_loc D then None else node_at fs l))"
    by (rule receive_file_pieces [OF assms(7,6) temp_loc_neq [symmetric] dest _ start(1) assms(8) size])
      (use start(5) in simp)
  then obtain fs' c' where fs': "receive_file fs ?c (map (\<lambda>b. (b, False)) bs @ [(b, True)]) = Inr (fs', Some c')"
    "RefCount c' = 1" "plain_fs fs'"
    "\<forall>l. node_at fs' l = (if l = D then Some (Regular ?all (new_file_time env File)) else if l = temp_loc D then None else node_at fs l)"
    by (auto simp: start(4) simp del: receive_file.simps)
  have path: "path_append (BasePath env) (path_of (c_str (getPath File))) = abs_path D"
    using assms(2) by (simp add: destination_def)
  have "proper D" using assms(6) by (simp add: file_place_def leaf_place_def)
  from plain_update [OF fs'(3) this path] fs'(4) assms(9)
  have "\<not> DoesFileNeedUpdate (server_clock env) fs' (BasePath env) File"
    by (simp add: new_file_time_def)
  with fs' show ?thesis by blast
qed

text \<open>
  A file whose receives are handled one after the other arrives whole: from the context the worker
  callback prepares, the destination ends with exactly the received bytes and the time of the info,
  the temporary file is gone, nothing else has changed, the stream's reference is the only one
  left, and the same info asks for no further update.
\<close>

theorem received_file_converges:
  assumes "file_context env File fs = Some c" and "destination env File = abs_path D" and "getType File = FILE"
    and "plain_fs fs" and "no_write_faults fs" and "file_place fs D" and "file_place fs (temp_loc D)"
    and "\<forall>b \<in> set (bs @ [b]). length b \<le> 2" and "length (concat (concat (bs @ [b]))) = unat (getSize File)"
  shows "\<exists>fs' c'. receive_file fs (c\<lparr>RefCount := 1\<rparr>) (map (\<lambda>b. (b, False)) bs @ [(b, True)]) = Inr (fs', Some c') \<and>
    RefCount c' = 1 \<and>
    (\<forall>l. node_at fs' l =
       (if l = D then Some (Regular (concat (concat (bs @ [b]))) (new_file_time env File))
        else if l = temp_loc D then None else node_at fs l)) \<and>
    \<not> DoesFileNeedUpdate (server_clock env) fs' (BasePath env) File"
  using assms by (rule file_received)

lemma example_file:
  "destination (example_server\<lparr>BasePath := abs_path []\<rparr>) (initRoot\<lparr>getPath := ''s/a'', getSize := 3\<rparr>) = abs_path [''s'', ''a'']"
  "file_place example_fs [''s'', ''a'']" "file_place example_fs (temp_loc [''s'', ''a''])" "no_write_faults example_fs"
  by (simp_all add: destination_def example_server_def path_of_def c_str_def slash_def path_append_def
      has_filename_def abs_path_def file_place_def leaf_place_def temp_loc_def no_write_faults_def
      is_dir_def node_at_def example_fs_def proper_name_def dot_def dotdot_def)

theorem received_file_converges_witness:
  "\<exists>c fs' c'. receive_file example_fs c [([[7], [8]], False), ([[9]], True)] = Inr (fs', Some c') \<and>
    node_at fs' [''s'', ''a''] = Some (Regular [7, 8, 9] 0)"
proof -
  let ?env = "example_server\<lparr>BasePath := abs_path []\<rparr>" and ?File = "initRoot\<lparr>getPath := ''s/a'', getSize := 3\<rparr>"
  have "is_dir example_fs (butlast [''s'', ''a''])" "proper [''s'', ''a'']"
    using example_file(2) by (simp_all add: file_place_def leaf_place_def)
  with file_context_plain [OF example_fs(1) _ _ _ example_file(1)]
  obtain c where c: "file_context ?env ?File example_fs = Some c" by auto
  have "\<exists>fs' c'. receive_file example_fs (c\<lparr>RefCount := 1\<rparr>) (map (\<lambda>b. (b, False)) [[[7], [8]]] @ [([[9]], True)]) = Inr (fs', Some c') \<and>
      RefCount c' = 1 \<and> (\<forall>l. node_at fs' l = (if l = [''s'', ''a''] then Some (Regular (concat (concat ([[[7], [8]]] @ [[[9]]]))) (new_file_time ?env ?File))
        else if l = temp_loc [''s'', ''a''] then None else node_at example_fs l)) \<and>
      \<not> DoesFileNeedUpdate (server_clock ?env) fs' (BasePath ?env) ?File"
    by (rule received_file_converges [OF c example_file(1) _ example_fs(1) example_file(4,2,3)]) (simp_all add: initRoot_def)
  moreover have "new_file_time ?env ?File = 0"
    by (simp add: new_file_time_def message_time_def initRoot_def from_utc_def utc_to_sys_def example_server_def example_clock_def)
  ultimately show ?thesis by (intro exI [of _ "c\<lparr>RefCount := 1\<rparr>"]) (auto simp del: receive_file.simps)
qed


section \<open>Installing a file\<close>

definition conflicts :: "receive_context \<Rightarrow> fsys \<Rightarrow> loc \<Rightarrow> bool" where
  "conflicts c fs D \<longleftrightarrow> FileExists c \<and>
     (\<exists>old t. node_at fs D = Some (Regular old t) \<and>
        (length old \<noteq> SnapshotDestSize c \<or> t \<noteq> SnapshotDestModTime c))"



lemmas receive_eval = started_def at_item_def drop_item_def write_received_def fs_open_trunc_def resolve_def walk.simps(2)
  node_at_def put_node_def del_node_def stream_write_def finish_receive_def install_file_def remove_temp_def
  destination_unchanged_def fs_exists_def fs_file_size_def fs_last_write_time_def stat_def fs_rename_def
  fs_set_last_write_time_def dereference_def new_context_def example_fs_def abs_path_def dot_def dotdot_def max_links_def

text \<open>
  Two receives may overlap, and then a transfer in which no call fails installs a wrong file. The
  worker calls \<open>ReceiveComplete\<close> before it looks at \<open>FinalReceive\<close>; when MsQuic indicates the
  final receive in between, the worker of the first receive closes the file, the second one opens
  it again and truncates it, the counted bytes still add up, and the destination holds only the
  last receive.
\<close>

theorem overlapping_receives_corrupt_file:
  "\<exists>m. receive_run
      [Indicate [[1, 2]] False, WriteItem 0, CompleteItem 0, Indicate [[3]] True, FinishItem 0, DerefItem 0,
       WriteItem 0, CompleteItem 0, FinishItem 0, DerefItem 0]
      (started example_fs (new_context\<lparr>RefCount := 1, NewFileSize := 3, FileTime := 5,
         DestinationPath := abs_path [''s'', ''n''], TempDestinationPath := abs_path [''s'', ''n.qsync'']\<rparr>)) = Some (Inr m) \<and>
    node_at (rm_fs m) [''s'', ''n''] = Some (Regular [3] 5)"
  by (simp add: receive_eval)

section \<open>The machine and the functions\<close>

text \<open>The steps of the machine that make up one receive, by how its item ends.\<close>

fun receive_steps :: "bytes list \<Rightarrow> bool \<Rightarrow> write_outcome \<Rightarrow> receive_event list" where
  "receive_steps bufs fin OpenFailed = [Indicate bufs fin, WriteItem 0]"
| "receive_steps bufs fin WriteFailed = [Indicate bufs fin, WriteItem 0, DerefItem 0]"
| "receive_steps bufs fin (Written n) = [Indicate bufs fin, WriteItem 0, CompleteItem 0, FinishItem 0, DerefItem 0]"




end
