(* ===== verification/FileTransfer.thy ===== *)
theory FileTransfer
  imports ClientData ServerData
begin

text \<open>
  One file on its way: the client's machine (\<open>ClientData\<close>) and the server's machine (\<open>ServerData\<close>)
  at the two ends of a data stream, with the stream between them as MsQuic keeps it: what the client
  has sent arrives in order and in arbitrary pieces. Meanwhile other threads change other places of the
  server's file system. In every run in which no two receives overlap and no send is refused, the
  destination holds its old contents until it holds the whole file: the invariant of this theory. What
  follows for whole runs is in \<open>TransferRuns\<close>.
\<close>

section \<open>The machine\<close>

text \<open>
  \<open>wire\<close> is what the client's MsQuic has accepted, \<open>delivered\<close> the number of bytes of it that the
  server's has indicated, \<open>finished\<close> whether it has indicated the end of the stream.
\<close>

record transfer =
  client_end :: send_machine
  wire :: "(bytes \<times> bool) list"
  delivered :: nat
  finished :: bool
  server_end :: receive_machine

datatype transfer_event =
    OnClient send_event
  | Deliver "bytes list" bool            \<comment> \<open>the buffers of a receive and its \<open>FIN\<close> flag\<close>
  | OnServer receive_event
  | Elsewhere fsys                       \<comment> \<open>another thread of the server has worked\<close>

abbreviation wire_bytes :: "transfer \<Rightarrow> bytes" where
  "wire_bytes t \<equiv> concat (map fst (wire t))"

abbreviation server_files :: "transfer \<Rightarrow> fsys" where
  "server_files t \<equiv> rm_fs (server_end t)"

definition sends_of :: "send_event \<Rightarrow> send_machine \<Rightarrow> (bytes \<times> bool) list" where
  "sends_of e m = (if e = SendChunk True then pending_chunks (worker_at m) else [])"

text \<open>A receive has data or ends the stream, and ends it only behind its last byte; MsQuic gives two buffers at most.\<close>

definition deliverable :: "transfer \<Rightarrow> bytes list \<Rightarrow> bool \<Rightarrow> bool" where
  "deliverable t bufs fin \<longleftrightarrow>
     \<not> finished t \<and> length bufs \<le> 2 \<and> (fin \<or> concat bufs \<noteq> []) \<and>
     take (length (concat bufs)) (drop (delivered t) (wire_bytes t)) = concat bufs \<and>
     (fin \<longrightarrow> list_ex snd (wire t) \<and> delivered t + length (concat bufs) = length (wire_bytes t))"

definition elsewhere :: "loc \<Rightarrow> fsys \<Rightarrow> fsys \<Rightarrow> bool" where
  "elsewhere D fs fs' \<longleftrightarrow> plain_fs fs' \<and> no_write_faults fs' \<and>
     (\<forall>l \<in> {D, temp_loc D}. leaf_place fs' l \<and> node_at fs' l = node_at fs l)"

fun transfer_step :: "loc \<Rightarrow> transfer_event \<Rightarrow> transfer \<Rightarrow> (ub + transfer) option" where
  "transfer_step D (OnClient e) t =
     (case send_step e (client_end t) of
        None \<Rightarrow> None
      | Some (Inl u) \<Rightarrow> Some (Inl u)
      | Some (Inr m) \<Rightarrow> Some (Inr (t\<lparr>client_end := m, wire := wire t @ sends_of e (client_end t)\<rparr>)))"
| "transfer_step D (Deliver bufs fin) t =
     (if deliverable t bufs fin then
        (case receive_step (Indicate bufs fin) (server_end t) of
           None \<Rightarrow> None
         | Some (Inl u) \<Rightarrow> Some (Inl u)
         | Some (Inr m) \<Rightarrow> Some (Inr (t\<lparr>server_end := m, delivered := delivered t + length (concat bufs), finished := fin\<rparr>)))
      else None)"
| "transfer_step D (OnServer e) t =
     (case e of
        Indicate bufs fin \<Rightarrow> None
      | _ \<Rightarrow>
          (case receive_step e (server_end t) of
             None \<Rightarrow> None
           | Some (Inl u) \<Rightarrow> Some (Inl u)
           | Some (Inr m) \<Rightarrow> Some (Inr (t\<lparr>server_end := m\<rparr>))))"
| "transfer_step D (Elsewhere fs) t =
     (if elsewhere D (server_files t) fs then Some (Inr (t\<lparr>server_end := (server_end t)\<lparr>rm_fs := fs\<rparr>\<rparr>)) else None)"

text \<open>The file has been opened on the client, the context made on the server, and nothing has been sent.\<close>

definition established :: "bytes \<Rightarrow> fsys \<Rightarrow> receive_context \<Rightarrow> transfer" where
  "established file fs c = \<lparr>client_end = opened file, wire = [], delivered = 0, finished = False, server_end = started fs c\<rparr>"

text \<open>
  The runs looked at: no send is refused, and a receive is indicated only when no item stands between
  its call of \<open>ReceiveComplete\<close> and its look at \<open>FinalReceive\<close>.
\<close>

fun orderly :: "transfer_event \<Rightarrow> transfer \<Rightarrow> bool" where
  "orderly (OnClient e) t \<longleftrightarrow> e \<noteq> SendChunk False"
| "orderly (Deliver bufs fin) t \<longleftrightarrow> ItemFinishing \<notin> set (items (server_end t))"
| "orderly (OnServer e) t \<longleftrightarrow> True"
| "orderly (Elsewhere fs) t \<longleftrightarrow> True"

inductive orderly_run :: "loc \<Rightarrow> transfer \<Rightarrow> transfer_event list \<Rightarrow> transfer \<Rightarrow> bool"
  for D :: loc and t0 :: transfer where
  run_start: "orderly_run D t0 [] t0"
| run_step: "orderly_run D t0 es t \<Longrightarrow> orderly e t \<Longrightarrow> transfer_step D e t = Some (Inr t') \<Longrightarrow>
    orderly_run D t0 (es @ [e]) t'"

inductive_cases run_startE [elim!]: "orderly_run D t0 [] t"
inductive_cases run_stepE: "orderly_run D t0 (es @ [e]) t"

section \<open>The client's end and the stream\<close>

text \<open>
  What is on the wire is the file from its beginning, and all of it once the stream is closed; as long
  as the client's context exists, the wire is what it has sent.
\<close>

definition wire_inv :: "bytes \<Rightarrow> transfer \<Rightarrow> bool" where
  "wire_inv file t \<longleftrightarrow>
     content_inv file (client_end t) \<and> progress_inv (client_end t) \<and>
     (\<forall>d. strm (client_end t) = Some d \<longrightarrow> wire t = sent d) \<and>
     (\<exists>tail. file = wire_bytes t @ tail) \<and> (list_ex snd (wire t) \<longrightarrow> wire_bytes t = file) \<and>
     delivered t \<le> length (wire_bytes t) \<and> (finished t \<longrightarrow> list_ex snd (wire t) \<and> delivered t = length (wire_bytes t))"

lemma wire_inv_delivered: "wire_inv file t \<Longrightarrow> delivered t \<le> length file"
proof -
  assume "wire_inv file t"
  then obtain tail where "file = wire_bytes t @ tail" "delivered t \<le> length (wire_bytes t)" by (auto simp: wire_inv_def)
  then show ?thesis by (metis length_append trans_le_add1)
qed

lemma wire_inv_start: "wire_inv file (established file fs c)"
  by (simp add: wire_inv_def established_def content_inv_start progress_inv_start)
    (simp add: opened_def new_stream_def)

lemma wire_of_chunks:
  assumes "chunks_ok file (cs @ ps) eof rest"
  shows "(\<exists>tail. file = concat (map fst cs) @ tail) \<and> (list_ex snd cs \<longrightarrow> concat (map fst cs) = file)"
proof -
  have "concat (map fst cs) = file" if "list_ex snd cs"
  proof -
    from that obtain i where "i < length cs" "snd (cs ! i)" by (auto simp: list_ex_iff in_set_conv_nth)
    with chunks_prefix(3) [OF assms] show ?thesis by blast
  qed
  with chunks_prefix(1) [OF assms] show ?thesis by blast
qed

text \<open>A step of the client keeps the context's sends on the wire.\<close>

lemma send_step_wire:
  assumes "send_step e m = Some (Inr m')" and "e \<noteq> SendChunk False" and "strm m' = Some d'"
  shows "\<exists>d. strm m = Some d \<and> sent d' = sent d @ sends_of e m"
  using assms
  by (cases e; cases "strm m"; cases "worker_at m")
    (auto simp: on_stream_def sends_of_def complete_send_def read_chunk_def Let_def split: if_splits)

lemma send_step_deleted:
  assumes "send_step e m = Some (Inr m')" and "strm m' = None"
  shows "sends_of e m = []"
  using assms
  by (cases e; cases "strm m"; cases "worker_at m") (auto simp: on_stream_def sends_of_def read_chunk_def Let_def split: if_splits)

lemma wire_inv_client:
  assumes inv: "wire_inv file t" and e: "e \<noteq> SendChunk False" and step: "send_step e (client_end t) = Some (Inr m)"
  shows "wire_inv file (t\<lparr>client_end := m, wire := wire t @ sends_of e (client_end t)\<rparr>)"
proof -
  let ?t = "t\<lparr>client_end := m, wire := wire t @ sends_of e (client_end t)\<rparr>"
  from inv have old: "content_inv file (client_end t)" "progress_inv (client_end t)"
    "\<And>d. strm (client_end t) = Some d \<Longrightarrow> wire t = sent d"
    "delivered t \<le> length (wire_bytes t)" "finished t \<Longrightarrow> list_ex snd (wire t) \<and> delivered t = length (wire_bytes t)"
    "\<exists>tail. file = wire_bytes t @ tail" "list_ex snd (wire t) \<Longrightarrow> wire_bytes t = file"
    by (auto simp: wire_inv_def)
  have new: "content_inv file m" "progress_inv m"
    using content_inv_event [OF e old(1) step] progress_inv_event [OF e old(2) step] by simp_all
  show ?thesis
  proof (cases "strm m")
    case None
    with send_step_deleted [OF step None] new inv show ?thesis by (simp add: wire_inv_def)
  next
    case (Some d')
    with send_step_wire [OF step e] old(3) have w: "wire ?t = sent d'" by auto
    have "chunks_ok file (sent d' @ pending_chunks (worker_at m)) (EndOfFile d') (unread d')"
      using new(1) Some by (simp add: content_inv_def)
    note all = wire_of_chunks [OF this, folded w]
    have "list_ex snd (wire ?t) \<and> delivered t = length (wire_bytes ?t)" if "finished t"
    proof -
      from old(5) [OF that] old(7) have "wire_bytes t = file" "list_ex snd (wire ?t)" by (auto simp: list_ex_iff)
      with all old(5) [OF that] show ?thesis by auto
    qed
    moreover have "delivered t \<le> length (wire_bytes ?t)" using old(4) by (simp add: trans_le_add1)
    ultimately show ?thesis using new all Some w by (simp add: wire_inv_def)
  qed
qed

lemma wire_inv_deliver:
  assumes "wire_inv file t" and "deliverable t bufs fin"
  shows "wire_inv file (t\<lparr>server_end := m, delivered := delivered t + length (concat bufs), finished := fin\<rparr>) \<and>
    take (delivered t + length (concat bufs)) file = take (delivered t) file @ concat bufs"
proof -
  from assms have w: "\<exists>tail. file = wire_bytes t @ tail" "delivered t \<le> length (wire_bytes t)"
    and b: "take (length (concat bufs)) (drop (delivered t) (wire_bytes t)) = concat bufs"
    by (simp_all add: wire_inv_def deliverable_def)
  from b have "length (concat bufs) \<le> length (wire_bytes t) - delivered t"
    by (metis length_drop length_take min.absorb_iff2 min.commute)
  then have len: "delivered t + length (concat bufs) \<le> length (wire_bytes t)" using w(2) by linarith
  obtain tail where whole: "file = wire_bytes t @ tail" using w(1) by blast
  have "take (delivered t + length (concat bufs)) file = take (delivered t + length (concat bufs)) (wire_bytes t)"
    using len by (simp add: whole del: length_concat)
  also have "\<dots> = take (delivered t) (wire_bytes t) @ concat bufs" by (simp only: take_add b)
  also have "take (delivered t) (wire_bytes t) = take (delivered t) file" using w(2) by (simp add: whole)
  finally show ?thesis using assms len by (auto simp: wire_inv_def deliverable_def)
qed

section \<open>The server's end\<close>

text \<open>
  What a transfer is about: the client's file, the destination, what was there at the start, and the
  context at the start.
\<close>

record job =
  job_file :: bytes
  job_dest :: loc
  job_old :: "node option"
  job_ctx :: receive_context

definition job_ok :: "job \<Rightarrow> bool" where
  "job_ok j \<longleftrightarrow> DestinationPath (job_ctx j) = abs_path (job_dest j) \<and>
     NewFileSize (job_ctx j) = length (job_file j) mod 2 ^ 64 \<and>
     (FileExists (job_ctx j) \<longrightarrow> (\<exists>old time. job_old j = Some (Regular old time) \<and>
        SnapshotDestSize (job_ctx j) = length old \<and> SnapshotDestModTime (job_ctx j) = time))"

abbreviation job_temp :: "job \<Rightarrow> loc" where
  "job_temp j \<equiv> temp_loc (job_dest j)"

abbreviation job_done :: "job \<Rightarrow> node option" where
  "job_done j \<equiv> Some (Regular (job_file j) (FileTime (job_ctx j)))"

text \<open>The file system around the transfer is in order.\<close>

definition around :: "job \<Rightarrow> fsys \<Rightarrow> bool" where
  "around j fs \<longleftrightarrow> plain_fs fs \<and> no_write_faults fs \<and> file_place fs (job_dest j) \<and> leaf_place fs (job_temp j)"

text \<open>
  The file is arriving, with \<open>content\<close> in the temporary file and the destination as it was; or it is
  installed.
\<close>

definition arriving :: "job \<Rightarrow> bytes \<Rightarrow> fsys \<Rightarrow> receive_context \<Rightarrow> bool" where
  "arriving j content fs c \<longleftrightarrow>
     receiving fs ((job_ctx j)\<lparr>RefCount := RefCount c\<rparr>) (job_temp j) content fs c \<and> node_at fs (job_dest j) = job_old j"

definition installed :: "job \<Rightarrow> fsys \<Rightarrow> bool" where
  "installed j fs \<longleftrightarrow> node_at fs (job_dest j) = job_done j \<and> node_at fs (job_temp j) = None"

lemma arriving_cong:
  "arriving j content fs (c\<lparr>FinalReceive := fin, Buffers := bufs, RefCount := n\<rparr>) = arriving j content fs c"
  "arriving j content fs (c\<lparr>FinalReceive := fin, Buffers := bufs\<rparr>) = arriving j content fs c"
  "arriving j content fs (c\<lparr>RefCount := n\<rparr>) = arriving j content fs c"
  by (simp_all add: arriving_def receiving_def cong: option.case_cong)

lemma temp_place:
  assumes "around j fs" and "arriving j content fs c"
  shows "file_place fs (job_temp j)"
  using assms by (auto simp: around_def arriving_def receiving_def file_place_def split: option.splits)

lemma arriving_write:
  assumes "around j fs" and "arriving j content fs c" and "length (Buffers c) \<le> 2" and "0 < RefCount c"
  shows "\<exists>n fs' c'. write_received fs c = (Written n, fs', c') \<and> around j fs' \<and>
    arriving j (content @ concat (Buffers c)) fs' c' \<and> FileWriteStream c' = Some (job_temp j) \<and>
    RefCount c' = RefCount c \<and> FinalReceive c' = FinalReceive c \<and>
    (\<forall>l. l \<noteq> job_temp j \<longrightarrow> node_at fs' l = node_at fs l)"
proof -
  let ?c = "c\<lparr>RefCount := RefCount c - 1\<rparr>"
  let ?start = "(job_ctx j)\<lparr>RefCount := RefCount c - 1\<rparr>"
  have same_c: "?c\<lparr>FinalReceive := FinalReceive c, Buffers := Buffers c, RefCount := Suc (RefCount ?c)\<rparr> = c"
    using assms(4) by (cases c) simp
  have "receiving fs ?start (job_temp j) content fs ?c"
    using assms(2) by (simp add: arriving_def receiving_def cong: option.case_cong)
  from receiving_write [OF this assms(3), of "FinalReceive c"] obtain fs' c' where
    w: "write_received fs c = (Written (length (concat (Buffers c))), fs', c')"
      "receiving fs (?start\<lparr>RefCount := Suc (RefCount ?start)\<rparr>) (job_temp j) (content @ concat (Buffers c)) fs' c'"
      "FinalReceive c' = FinalReceive c" "FileWriteStream c' = Some (job_temp j)"
    unfolding same_c by blast
  then have rc: "RefCount c' = RefCount c" using assms(4) by (simp add: receiving_def)
  from w(2) have same: "\<forall>l. l \<noteq> job_temp j \<longrightarrow> node_at fs' l = node_at fs l" by (simp add: receiving_def)
  note dirs = receiving_dirs [OF w(2) temp_place [OF assms(1,2)] w(4)]
  have dest: "node_at fs' (job_dest j) = node_at fs (job_dest j)" using same temp_loc_neq [of "job_dest j"] by metis
  have "around j fs'"
    using assms(1) w(2) by (simp add: around_def receiving_def file_place_def leaf_place_def dirs dest)
  moreover have "arriving j (content @ concat (Buffers c)) fs' c'"
    using w(2) assms(2,4) dest rc by (auto simp: arriving_def receiving_def)
  ultimately show ?thesis using w rc same by blast
qed

lemma install_keeps_faults: "install_file c fs = Inr fs' \<Longrightarrow> write_fault fs' = write_fault fs"
  by (auto simp: install_file_def Let_def remove_temp_def fs_remove_def fs_rename_def fs_set_last_write_time_def
      split: if_splits option.splits walk_result.splits node.splits)

lemma arriving_install:
  assumes "around j fs" and "arriving j (job_file j) fs c" and "FileWriteStream c = Some (job_temp j)" and "job_ok j"
  shows "\<exists>fs'. install_file (c\<lparr>FileWriteStream := None\<rparr>) fs = Inr fs' \<and> around j fs' \<and> installed j fs' \<and>
    (\<forall>l. l \<noteq> job_temp j \<and> l \<noteq> job_dest j \<longrightarrow> node_at fs' l = node_at fs l)"
proof -
  let ?start = "(job_ctx j)\<lparr>RefCount := RefCount c\<rparr>"
  note T = temp_place [OF assms(1,2)]
  from assms(1,2) have r: "receiving fs ?start (job_temp j) (job_file j) fs c" and D: "file_place fs (job_dest j)"
    and old: "node_at fs (job_dest j) = job_old j" by (simp_all add: arriving_def around_def)
  have dest: "DestinationPath ?start = abs_path (job_dest j)" "NewFileSize ?start = length (job_file j) mod 2 ^ 64"
    using assms(4) by (simp_all add: job_ok_def)
  have "\<exists>fs'. install_file (c\<lparr>FileWriteStream := None\<rparr>) fs = Inr fs' \<and> plain_fs fs' \<and>
      (\<forall>l. node_at fs' l = (if l = job_dest j then Some (Regular (job_file j) (FileTime ?start))
        else if l = job_temp j then None else node_at fs l))"
    by (rule receiving_install [OF r assms(3) T D temp_loc_neq [symmetric] dest])
      (use assms(4) old in \<open>auto simp: job_ok_def\<close>)
  then obtain fs' where fs': "install_file (c\<lparr>FileWriteStream := None\<rparr>) fs = Inr fs'" "plain_fs fs'"
    "\<And>l. node_at fs' l = (if l = job_dest j then job_done j else if l = job_temp j then None else node_at fs l)"
    by auto
  have "is_dir fs' l = is_dir fs l" for l
    using fs'(3) D T by (auto simp: is_dir_def file_place_def leaf_place_def)
  moreover have "no_write_faults fs'" using install_keeps_faults [OF fs'(1)] assms(1) by (simp add: around_def no_write_faults_def)
  ultimately have "around j fs'"
    using assms(1) fs'(2,3) by (auto simp: around_def file_place_def leaf_place_def)
  with fs' temp_loc_neq [of "job_dest j"] show ?thesis by (auto simp: installed_def)
qed

section \<open>The items in hand\<close>

text \<open>The items that have not yet come to the label \<open>Deref\<close>; in an orderly run there is one at most.\<close>

definition in_hand :: "item_phase list \<Rightarrow> item_phase list" where
  "in_hand = filter (\<lambda>p. p \<noteq> ItemDereferencing)"

lemma in_hand_simps [simp]:
  "in_hand [] = []" "in_hand (xs @ ys) = in_hand xs @ in_hand ys"
  "in_hand (p # xs) = (if p = ItemDereferencing then in_hand xs else p # in_hand xs)"
  by (simp_all add: in_hand_def)

lemma in_hand_at:
  assumes "i < length is"
  shows "in_hand is = in_hand (take i is) @ in_hand [is ! i] @ in_hand (drop (Suc i) is)"
proof -
  have "is = take i is @ [is ! i] @ drop (Suc i) is" using id_take_nth_drop [OF assms] by simp
  then show ?thesis by (metis in_hand_simps(2))
qed

lemma in_hand_update:
  "i < length is \<Longrightarrow> in_hand (is[i := p]) = in_hand (take i is) @ in_hand [p] @ in_hand (drop (Suc i) is)"
  by (simp add: upd_conv_take_nth_drop)

lemma in_hand_drop:
  "in_hand (drop_item i is) = in_hand (take i is) @ in_hand (drop (Suc i) is)"
  by (simp add: drop_item_def)

lemma only_item:
  assumes "i < length is" and "is ! i = p" and "p \<noteq> ItemDereferencing" and "length (in_hand is) \<le> 1"
  shows "in_hand is = [p]" and "in_hand (is[i := q]) = in_hand [q]"
proof -
  from in_hand_at [OF assms(1)] assms(2-4) have "in_hand (take i is) = []" "in_hand (drop (Suc i) is) = []"
    by auto
  then show "in_hand is = [p]" and "in_hand (is[i := q]) = in_hand [q]"
    using in_hand_at [OF assms(1)] assms(2,3) by (simp_all add: in_hand_update [OF assms(1)])
qed

lemma set_in_hand: "p \<noteq> ItemDereferencing \<Longrightarrow> p \<in> set is \<longleftrightarrow> p \<in> set (in_hand is)"
  by (simp add: in_hand_def)

section \<open>The invariant of the server's end\<close>

text \<open>\<open>got\<close> is what has been indicated so far, \<open>fin\<close> says that it ended the stream.\<close>

fun phase_ok :: "job \<Rightarrow> bytes \<Rightarrow> bool \<Rightarrow> item_phase list \<Rightarrow> fsys \<Rightarrow> receive_context \<Rightarrow> bool" where
  "phase_ok j got fin [] fs c \<longleftrightarrow> (if fin then installed j fs else arriving j got fs c)"
| "phase_ok j got fin [ItemQueued] fs c \<longleftrightarrow> length (Buffers c) \<le> 2 \<and> FinalReceive c = fin \<and>
     (\<exists>content. arriving j content fs c \<and> content @ concat (Buffers c) = got)"
| "phase_ok j got fin [p] fs c \<longleftrightarrow>
     arriving j got fs c \<and> FileWriteStream c = Some (job_temp j) \<and> FinalReceive c = fin"
| "phase_ok j got fin (p # ps) fs c \<longleftrightarrow> False"

lemma phase_ok_length: "phase_ok j got fin ps fs c \<Longrightarrow> length ps \<le> 1"
  by (induction j got fin ps fs c rule: phase_ok.induct) auto

lemma phase_ok_refs [simp]: "phase_ok j got fin ps fs (c\<lparr>RefCount := n\<rparr>) = phase_ok j got fin ps fs c"
  by (induction j got fin ps fs c rule: phase_ok.induct) (auto simp: arriving_cong)

lemma phase_ok_destination:
  "phase_ok j got fin ps fs c \<Longrightarrow>
   node_at fs (job_dest j) = job_old j \<or> fin \<and> node_at fs (job_dest j) = job_done j"
  by (induction j got fin ps fs c rule: phase_ok.induct) (auto simp: arriving_def installed_def split: if_splits)

definition server_inv :: "job \<Rightarrow> bytes \<Rightarrow> bool \<Rightarrow> receive_machine \<Rightarrow> bool" where
  "server_inv j got fin m \<longleftrightarrow> around j (rm_fs m) \<and> (fin \<longrightarrow> got = job_file j) \<and>
     (case rm_ctx m of
        None \<Rightarrow> references m = 0 \<and> (if fin then installed j (rm_fs m) else node_at (rm_fs m) (job_dest j) = job_old j)
      | Some c \<Rightarrow> RefCount c = references m \<and> 0 < references m \<and>
          (receive_open m \<longleftrightarrow> in_hand (items m) = [] \<or> in_hand (items m) = [ItemFinishing]) \<and>
          phase_ok j got fin (in_hand (items m)) (rm_fs m) c)"

lemma server_inv_destination:
  assumes "server_inv j got fin m"
  shows "node_at (rm_fs m) (job_dest j) = job_old j \<or> fin \<and> node_at (rm_fs m) (job_dest j) = job_done j"
proof (cases "rm_ctx m")
  case None
  with assms show ?thesis by (auto simp: server_inv_def installed_def split: if_splits)
next
  case (Some c)
  with assms have "phase_ok j got fin (in_hand (items m)) (rm_fs m) c" by (simp add: server_inv_def)
  then show ?thesis by (rule phase_ok_destination)
qed

text \<open>The places the transfer changes.\<close>

definition only_here :: "job \<Rightarrow> fsys \<Rightarrow> fsys \<Rightarrow> bool" where
  "only_here j fs fs' \<longleftrightarrow> (\<forall>l. l \<noteq> job_temp j \<and> l \<noteq> job_dest j \<longrightarrow> node_at fs' l = node_at fs l)"

text \<open>What a step does to the references: they count items and stream exactly.\<close>

lemma server_inv_deref:
  assumes inv: "server_inv j got fin m" and c: "rm_ctx m = Some c"
    and refs: "Suc (references m') = references m"
    and same: "rm_fs m' = rm_fs m" "receive_open m' = receive_open m" "in_hand (items m') = in_hand (items m)"
    and ctx: "rm_ctx m' = dereference c" and none: "references m' = 0 \<Longrightarrow> items m' = []"
  shows "server_inv j got fin m'"
proof -
  from inv c have old: "around j (rm_fs m)" "fin \<Longrightarrow> got = job_file j" "RefCount c = references m"
    "receive_open m \<longleftrightarrow> in_hand (items m) = [] \<or> in_hand (items m) = [ItemFinishing]"
    "phase_ok j got fin (in_hand (items m)) (rm_fs m) c" by (simp_all add: server_inv_def)
  show ?thesis
  proof (cases "references m' = 0")
    case True
    with none same(3) have "in_hand (items m) = []" by simp
    with old True refs ctx same show ?thesis
      by (auto simp: server_inv_def dereference_def arriving_def split: if_splits)
  next
    case False
    with old refs ctx same show ?thesis by (auto simp: server_inv_def dereference_def)
  qed
qed

lemma server_inv_ctx:
  assumes "server_inv j got fin m" and "items m \<noteq> [] \<or> stream_alive m"
  obtains c where "rm_ctx m = Some c"
  using assms by (cases "rm_ctx m") (auto simp: server_inv_def references_def)

lemma server_inv_parts:
  assumes "server_inv j got fin m" and "rm_ctx m = Some c"
  shows "around j (rm_fs m)" and "fin \<Longrightarrow> got = job_file j" and "RefCount c = references m" and "0 < references m"
    and "receive_open m \<longleftrightarrow> in_hand (items m) = [] \<or> in_hand (items m) = [ItemFinishing]"
    and "phase_ok j got fin (in_hand (items m)) (rm_fs m) c" and "length (in_hand (items m)) \<le> 1"
  using assms phase_ok_length by (auto simp: server_inv_def)

lemma references_update [simp]: "references (m\<lparr>rm_fs := fs, rm_ctx := c, items := (items m)[i := p]\<rparr>) = references m"
  by (simp add: references_def)

text \<open>A receive is written.\<close>

lemma server_inv_write:
  assumes inv: "server_inv j got fin m" and step: "receive_step (WriteItem i) m = Some r"
  shows "\<exists>m'. r = Inr m' \<and> server_inv j got fin m' \<and> only_here j (rm_fs m) (rm_fs m')"
proof -
  from step have i: "i < length (items m)" "items m ! i = ItemQueued" by (auto simp: at_item_def split: if_splits)
  then obtain c where c: "rm_ctx m = Some c" using server_inv_ctx [OF inv] by fastforce
  note parts = server_inv_parts [OF inv c]
  note one = only_item(1) [OF i _ parts(7)] only_item(2) [OF i _ parts(7), of ItemCompleting]
  from parts(6) one(1) obtain content where ph: "length (Buffers c) \<le> 2" "FinalReceive c = fin"
    "arriving j content (rm_fs m) c" "content @ concat (Buffers c) = got" by auto
  from arriving_write [OF parts(1) ph(3,1)] parts(3,4) obtain n fs' c' where
    w: "write_received (rm_fs m) c = (Written n, fs', c')" "around j fs'" "arriving j got fs' c'"
      "FileWriteStream c' = Some (job_temp j)" "RefCount c' = RefCount c" "FinalReceive c' = FinalReceive c"
      "\<forall>l. l \<noteq> job_temp j \<longrightarrow> node_at fs' l = node_at (rm_fs m) l"
    using ph(4) by auto
  let ?m = "m\<lparr>rm_fs := fs', rm_ctx := Some c', items := (items m)[i := ItemCompleting]\<rparr>"
  have "server_inv j got fin ?m" using w(2-6) parts(2-5) one ph(2) by (simp add: server_inv_def)
  moreover have "r = Inr ?m" using step i c w(1) by (simp add: at_item_def)
  ultimately show ?thesis using w(7) by (simp add: only_here_def)
qed

text \<open>Its bytes are given back to MsQuic.\<close>

lemma server_inv_complete:
  assumes inv: "server_inv j got fin m" and step: "receive_step (CompleteItem i) m = Some r"
  shows "\<exists>m'. r = Inr m' \<and> server_inv j got fin m' \<and> only_here j (rm_fs m) (rm_fs m')"
proof -
  from step have i: "i < length (items m)" "items m ! i = ItemCompleting" by (auto simp: at_item_def split: if_splits)
  then obtain c where c: "rm_ctx m = Some c" using server_inv_ctx [OF inv] by fastforce
  note parts = server_inv_parts [OF inv c]
  note one = only_item(1) [OF i _ parts(7)] only_item(2) [OF i _ parts(7), of ItemFinishing]
  let ?m = "m\<lparr>items := (items m)[i := ItemFinishing], receive_open := True\<rparr>"
  have "references ?m = references m" by (simp add: references_def)
  then have "server_inv j got fin ?m" using parts one c by (simp add: server_inv_def)
  moreover have "r = Inr ?m" using step i c by (simp add: at_item_def)
  ultimately show ?thesis by (simp add: only_here_def)
qed

text \<open>The last receive installs the file; another one has nothing to do.\<close>

lemma server_inv_finish:
  assumes j: "job_ok j" and inv: "server_inv j got fin m" and step: "receive_step (FinishItem i) m = Some r"
  shows "\<exists>m'. r = Inr m' \<and> server_inv j got fin m' \<and> only_here j (rm_fs m) (rm_fs m')"
proof -
  from step have i: "i < length (items m)" "items m ! i = ItemFinishing" by (auto simp: at_item_def split: if_splits)
  then obtain c where c: "rm_ctx m = Some c" using server_inv_ctx [OF inv] by fastforce
  note parts = server_inv_parts [OF inv c]
  note one = only_item(1) [OF i _ parts(7)] only_item(2) [OF i _ parts(7), of ItemDereferencing]
  from parts(6) one(1) have ph: "arriving j got (rm_fs m) c" "FileWriteStream c = Some (job_temp j)" "FinalReceive c = fin"
    by simp_all
  show ?thesis
  proof (cases fin)
    case True
    with parts(2) ph(1) have "arriving j (job_file j) (rm_fs m) c" by simp
    from arriving_install [OF parts(1) this ph(2) j] obtain fs' where
      fs': "install_file (c\<lparr>FileWriteStream := None\<rparr>) (rm_fs m) = Inr fs'" "around j fs'" "installed j fs'"
        "only_here j (rm_fs m) fs'" by (auto simp: only_here_def)
    let ?m = "m\<lparr>rm_fs := fs', rm_ctx := Some (c\<lparr>FileWriteStream := None\<rparr>), items := (items m)[i := ItemDereferencing]\<rparr>"
    have "server_inv j got fin ?m" using fs'(2,3) True parts(2-5) one by (simp add: server_inv_def)
    moreover have "r = Inr ?m" using step i c fs'(1) ph(3) True by (simp add: at_item_def finish_receive_def)
    ultimately show ?thesis using fs'(4) by simp
  next
    case False
    let ?m = "m\<lparr>rm_fs := rm_fs m, rm_ctx := Some c, items := (items m)[i := ItemDereferencing]\<rparr>"
    have "references ?m = references m" by (rule references_update)
    then have "server_inv j got fin ?m" using False parts one ph(1) by (simp add: server_inv_def)
    moreover have "r = Inr ?m" using step i c ph(3) False by (simp add: at_item_def finish_receive_def)
    ultimately show ?thesis by (simp add: only_here_def)
  qed
qed

text \<open>References are dropped.\<close>

lemma server_inv_drop:
  assumes inv: "server_inv j got fin m" and step: "receive_step (DerefItem i) m = Some r"
  shows "\<exists>m'. r = Inr m' \<and> server_inv j got fin m' \<and> only_here j (rm_fs m) (rm_fs m')"
proof -
  from step have i: "i < length (items m)" "items m ! i = ItemDereferencing" by (auto simp: at_item_def split: if_splits)
  then obtain c where c: "rm_ctx m = Some c" using server_inv_ctx [OF inv] by fastforce
  let ?m = "m\<lparr>rm_ctx := dereference c, items := drop_item i (items m)\<rparr>"
  have "in_hand (drop_item i (items m)) = in_hand (items m)"
    using in_hand_at [OF i(1)] i(2) by (simp add: in_hand_drop)
  moreover have "Suc (references ?m) = references m" using i(1) by (simp add: references_def) 
  ultimately have "server_inv j got fin ?m"
    by (intro server_inv_deref [OF inv c]) (auto simp: references_def)
  moreover have "r = Inr ?m" using step i c by (simp add: at_item_def)
  ultimately show ?thesis by (simp add: only_here_def)
qed

lemma server_inv_end:
  assumes inv: "server_inv j got fin m" and step: "receive_step EndStream m = Some r"
  shows "\<exists>m'. r = Inr m' \<and> server_inv j got fin m' \<and> only_here j (rm_fs m) (rm_fs m')"
proof -
  from step have alive: "stream_alive m" by (simp split: if_splits)
  then obtain c where c: "rm_ctx m = Some c" using server_inv_ctx [OF inv] by blast
  let ?m = "m\<lparr>rm_ctx := dereference c, stream_alive := False\<rparr>"
  have "server_inv j got fin ?m"
    by (rule server_inv_deref [OF inv c]) (use alive in \<open>auto simp: references_def\<close>)
  moreover have "r = Inr ?m" using step alive c by simp
  ultimately show ?thesis by (simp add: only_here_def)
qed

text \<open>A receive is indicated.\<close>

lemma server_inv_indicate:
  assumes inv: "server_inv j got False m" and step: "receive_step (Indicate bufs fin) m = Some r"
    and orderly: "ItemFinishing \<notin> set (items m)" and bufs: "length bufs \<le> 2" and fin: "fin \<Longrightarrow> got @ concat bufs = job_file j"
  shows "\<exists>m'. r = Inr m' \<and> server_inv j (got @ concat bufs) fin m' \<and> rm_fs m' = rm_fs m"
proof -
  from step have alive: "stream_alive m" and opn: "receive_open m" by (auto split: if_splits)
  from alive obtain c where c: "rm_ctx m = Some c" using server_inv_ctx [OF inv] by blast
  note parts = server_inv_parts [OF inv c]
  from parts(5) opn orderly have none: "in_hand (items m) = []" using set_in_hand [of ItemFinishing "items m"] by auto
  with parts(6) have arr: "arriving j got (rm_fs m) c" by simp
  let ?c = "c\<lparr>FinalReceive := fin, Buffers := bufs, RefCount := Suc (RefCount c)\<rparr>"
  let ?m = "m\<lparr>rm_ctx := Some ?c, items := items m @ [ItemQueued], receive_open := False\<rparr>"
  have "references ?m = Suc (references m)" by (simp add: references_def)
  then have "server_inv j (got @ concat bufs) fin ?m"
    using parts(1,3) none arr bufs fin by (auto simp: server_inv_def arriving_cong)
  moreover have "r = Inr ?m" using step alive opn c bufs by simp
  ultimately show ?thesis by auto
qed

text \<open>Another thread works elsewhere.\<close>

lemma server_inv_elsewhere:
  assumes inv: "server_inv j got fin m" and fs: "elsewhere (job_dest j) (rm_fs m) fs"
  shows "server_inv j got fin (m\<lparr>rm_fs := fs\<rparr>)"
proof -
  let ?m = "m\<lparr>rm_fs := fs\<rparr>"
  have same: "node_at fs l = node_at (rm_fs m) l" if "l = job_dest j \<or> l = job_temp j" for l
    using fs that by (auto simp: elsewhere_def)
  from inv fs have around: "around j fs" by (auto simp: server_inv_def around_def elsewhere_def file_place_def)
  have arr: "arriving j content fs c" if "arriving j content (rm_fs m) c" for content c
    using that fs same by (auto simp: arriving_def receiving_def elsewhere_def file_place_def split: option.splits)
  have inst: "installed j fs" if "installed j (rm_fs m)" using that same by (simp add: installed_def)
  have ph: "phase_ok j got fin ps (rm_fs m) c \<Longrightarrow> phase_ok j got fin ps fs c" for ps c
    using arr inst by (induction j got fin ps fs c rule: phase_ok.induct) auto
  have refs: "references ?m = references m" by (simp add: references_def)
  show ?thesis
  proof (cases "rm_ctx m")
    case None
    with inv around inst same refs show ?thesis by (auto simp: server_inv_def)
  next
    case (Some c)
    with inv around ph refs show ?thesis by (auto simp: server_inv_def)
  qed
qed

lemmas server_inv_steps = server_inv_write server_inv_complete server_inv_finish server_inv_drop server_inv_end

lemma server_inv_step:
  assumes "job_ok j" and "server_inv j got fin m" and "receive_step e m = Some r" and "\<And>b f. e \<noteq> Indicate b f"
  shows "\<exists>m'. r = Inr m' \<and> server_inv j got fin m' \<and> only_here j (rm_fs m) (rm_fs m')"
  using assms server_inv_steps by (cases e) metis+

section \<open>Both ends\<close>

definition transfer_inv :: "job \<Rightarrow> transfer \<Rightarrow> bool" where
  "transfer_inv j t \<longleftrightarrow> wire_inv (job_file j) t \<and>
     server_inv j (take (delivered t) (job_file j)) (finished t) (server_end t)"

lemma wire_inv_server [simp]: "wire_inv content (t\<lparr>server_end := m\<rparr>) = wire_inv content t"
  by (simp add: wire_inv_def)

lemma transfer_inv_deliver:
  assumes inv: "transfer_inv j t" and orderly: "orderly (Deliver bufs fin) t"
    and step: "transfer_step D (Deliver bufs fin) t = Some r"
  shows "\<exists>t'. r = Inr t' \<and> transfer_inv j t' \<and> server_files t' = server_files t"
proof -
  from step have d: "deliverable t bufs fin" by (simp split: if_splits)
  with step obtain r' where r': "receive_step (Indicate bufs fin) (server_end t) = Some r'"
    by (cases "receive_step (Indicate bufs fin) (server_end t)") (auto simp del: receive_step.simps)
  from inv d have w: "wire_inv (job_file j) t" and s: "server_inv j (take (delivered t) (job_file j)) False (server_end t)"
    by (auto simp: transfer_inv_def deliverable_def)
  note pieces = wire_inv_deliver [OF w d]
  have whole: "take (delivered t) (job_file j) @ concat bufs = job_file j" if fin
    using d w pieces that by (auto simp: deliverable_def wire_inv_def simp del: length_concat)
  from server_inv_indicate [OF s r' _ _ whole] orderly d obtain m where
    "r' = Inr m" "server_inv j (take (delivered t) (job_file j) @ concat bufs) fin m" "rm_fs m = server_files t"
    by (auto simp: deliverable_def)
  with d r' step pieces show ?thesis by (auto simp: transfer_inv_def simp del: receive_step.simps length_concat)
qed

lemma transfer_inv_server:
  assumes j: "job_ok j" and inv: "transfer_inv j t" and step: "transfer_step D (OnServer e) t = Some r"
  shows "\<exists>t'. r = Inr t' \<and> transfer_inv j t' \<and> only_here j (server_files t) (server_files t')"
proof -
  from step have e: "\<And>b f. e \<noteq> Indicate b f" by auto
  with step obtain r' where r': "receive_step e (server_end t) = Some r'"
    by (cases "receive_step e (server_end t)") (auto split: receive_event.splits simp del: receive_step.simps)
  from inv have "server_inv j (take (delivered t) (job_file j)) (finished t) (server_end t)" by (simp add: transfer_inv_def)
  from server_inv_step [OF j this r' e] obtain m where
    m: "r' = Inr m" "server_inv j (take (delivered t) (job_file j)) (finished t) m" "only_here j (server_files t) (rm_fs m)"
    by blast
  have "r = Inr (t\<lparr>server_end := m\<rparr>)"
    using step e r' m(1) by (cases e) (auto simp del: receive_step.simps)
  with m inv show ?thesis by (auto simp: transfer_inv_def)
qed

text \<open>A step keeps the invariant; only the client's own machine can fail.\<close>

lemma transfer_inv_step:
  assumes j: "job_ok j" and inv: "transfer_inv j t" and orderly: "orderly e t"
    and step: "transfer_step (job_dest j) e t = Some r"
  shows "case r of
      Inl u \<Rightarrow> \<exists>s. e = OnClient s
    | Inr t' \<Rightarrow> transfer_inv j t' \<and> ((\<exists>fs. e = Elsewhere fs) \<or> only_here j (server_files t) (server_files t'))"
proof (cases e)
  case (OnClient s)
  then obtain r' where r': "send_step s (client_end t) = Some r'" using step by (cases "send_step s (client_end t)") auto
  show ?thesis
  proof (cases r')
    case (Inl u)
    with step OnClient r' show ?thesis by auto
  next
    case (Inr m)
    let ?t = "t\<lparr>client_end := m, wire := wire t @ sends_of s (client_end t)\<rparr>"
    have "r = Inr ?t" using step OnClient r' Inr by auto
    moreover have "wire_inv (job_file j) ?t"
      using wire_inv_client [of "job_file j" t s m] inv orderly OnClient r' Inr by (simp add: transfer_inv_def)
    ultimately show ?thesis using inv by (auto simp: transfer_inv_def only_here_def)
  qed
next
  case (Deliver bufs fin)
  with transfer_inv_deliver [of j t bufs fin] inv orderly step show ?thesis by (fastforce simp: only_here_def)
next
  case (OnServer s)
  with transfer_inv_server [OF j inv, of _ s] step show ?thesis by fastforce
next
  case (Elsewhere fs)
  with step have fs: "elsewhere (job_dest j) (server_files t) fs" and
    r: "r = Inr (t\<lparr>server_end := (server_end t)\<lparr>rm_fs := fs\<rparr>\<rparr>)" by (auto split: if_splits)
  with inv server_inv_elsewhere [OF _ fs] Elsewhere show ?thesis by (auto simp: transfer_inv_def)
qed

lemma run_inv:
  assumes "orderly_run (job_dest j) t0 es t" and "job_ok j" and "transfer_inv j t0"
  shows "transfer_inv j t"
  using assms
proof (induction rule: orderly_run.induct)
  case run_start
  then show ?case by simp
next
  case (run_step es t e t')
  then show ?case using transfer_inv_step [of j t e "Inr t'"] by simp
qed

section \<open>The start\<close>

definition job_of :: "bytes \<Rightarrow> loc \<Rightarrow> fsys \<Rightarrow> receive_context \<Rightarrow> job" where
  "job_of file D fs c = \<lparr>job_file = file, job_dest = D, job_old = node_at fs D, job_ctx = c\<lparr>RefCount := 1\<rparr>\<rparr>"

lemma job_start:
  assumes "file_context env File fs = Some c" and "destination env File = abs_path D"
    and "plain_fs fs" and "no_write_faults fs" and "file_place fs D" and "file_place fs (temp_loc D)"
    and "length content = unat (getSize File)"
  shows "job_ok (job_of content D fs c)"
    and "transfer_inv (job_of content D fs c) (established content fs (c\<lparr>RefCount := 1\<rparr>))"
proof -
  note start = context_receiving [OF assms(1-6)]
  show "job_ok (job_of content D fs c)"
    using start(2,3,5) assms(7) unat_u64_less [of "getSize File"] by (auto simp: job_ok_def job_of_def)
  have "receiving fs c (temp_loc D) [] fs c"
    using start(1) by (simp add: receiving_def cong: option.case_cong)
  then have "server_inv (job_of content D fs c) [] False (started fs (c\<lparr>RefCount := 1\<rparr>))"
    using assms(3-6)
    by (simp add: server_inv_def started_def references_def around_def arriving_def job_of_def file_place_def)
  then show "transfer_inv (job_of content D fs c) (established content fs (c\<lparr>RefCount := 1\<rparr>))"
    using wire_inv_start [of content fs "c\<lparr>RefCount := 1\<rparr>"]
    by (simp add: transfer_inv_def job_of_def established_def)
qed

end
