(* ===== verification/TransferRuns.thy ===== *)
theory TransferRuns
  imports FileTransfer
begin

text \<open>
  The runs of a transfer: they take a bounded number of steps, can always be continued to one in which
  nothing is left to do, and end with the file installed. The last section has a run outside of the
  condition on overlapping receives, in which the destination ends with a wrong file;
  \<open>ClientData.refused_send_loses_chunk\<close> shows the same of the condition on refused sends.
\<close>

section \<open>Termination\<close>

text \<open>Every step of either end, and every receive, uses up a part of a finite budget.\<close>

fun item_cost :: "item_phase \<Rightarrow> nat" where
  "item_cost ItemQueued = 4"
| "item_cost ItemCompleting = 3"
| "item_cost ItemFinishing = 2"
| "item_cost ItemDereferencing = 1"

definition server_budget :: "receive_machine \<Rightarrow> nat" where
  "server_budget m = sum_list (map item_cost (items m)) + (if stream_alive m then 1 else 0)"

definition transfer_budget :: "bytes \<Rightarrow> transfer \<Rightarrow> nat" where
  "transfer_budget content t = budget (client_end t) + 5 * (length content - delivered t) +
     (if finished t then 0 else 5) + server_budget (server_end t)"

lemma item_cost_at:
  "i < length is \<Longrightarrow> sum_list (map item_cost is) =
     sum_list (map item_cost (take i is)) + item_cost (is ! i) + sum_list (map item_cost (drop (Suc i) is))"
  by (metis (no_types, lifting) id_take_nth_drop list.simps(9) map_append sum_list.Cons sum_list_append add.assoc)

lemma item_cost_update:
  "i < length is \<Longrightarrow> sum_list (map item_cost (is[i := p])) + item_cost (is ! i) = sum_list (map item_cost is) + item_cost p"
  using item_cost_at [of i "is"] by (simp add: upd_conv_take_nth_drop)

lemma item_cost_drop:
  "i < length is \<Longrightarrow> sum_list (map item_cost (drop_item i is)) + item_cost (is ! i) = sum_list (map item_cost is)"
  using item_cost_at [of i "is"] by (simp add: drop_item_def)

lemma server_budget_step:
  assumes "receive_step e m = Some (Inr m')"
  shows "case e of Indicate bufs fin \<Rightarrow> server_budget m' = server_budget m + 4 | _ \<Rightarrow> server_budget m' < server_budget m"
proof (cases "rm_ctx m")
  case None
  with assms show ?thesis by (cases e) (auto simp: at_item_def split: if_splits)
next
  case (Some c)
  show ?thesis
  proof (cases e)
    case (WriteItem i)
    with assms have i: "i < length (items m)" "items m ! i = ItemQueued" by (auto simp: at_item_def split: if_splits)
    obtain out fs' c' where w: "write_received (rm_fs m) c = (out, fs', c')" by (cases "write_received (rm_fs m) c")
    with assms WriteItem Some i item_cost_drop [OF i(1)] item_cost_update [OF i(1), of ItemDereferencing]
      item_cost_update [OF i(1), of ItemCompleting]
    show ?thesis by (cases out) (auto simp: at_item_def server_budget_def)
  next
    case (CompleteItem i)
    with assms have i: "i < length (items m)" "items m ! i = ItemCompleting" by (auto simp: at_item_def split: if_splits)
    with assms CompleteItem Some item_cost_update [OF i(1), of ItemFinishing]
    show ?thesis by (auto simp: at_item_def server_budget_def)
  next
    case (FinishItem i)
    with assms have i: "i < length (items m)" "items m ! i = ItemFinishing" by (auto simp: at_item_def split: if_splits)
    with assms FinishItem Some item_cost_update [OF i(1), of ItemDereferencing]
    show ?thesis by (auto simp: at_item_def server_budget_def split: sum.splits)
  next
    case (DerefItem i)
    with assms have i: "i < length (items m)" "items m ! i = ItemDereferencing" by (auto simp: at_item_def split: if_splits)
    with assms DerefItem Some item_cost_drop [OF i(1)]
    show ?thesis by (auto simp: at_item_def server_budget_def)
  qed (use assms Some in \<open>auto simp: server_budget_def split: if_splits\<close>)
qed

lemma transfer_budget_step:
  assumes j: "job_ok j" and inv: "transfer_inv j t" and orderly: "orderly e t"
    and step: "transfer_step (job_dest j) e t = Some (Inr t')" and e: "\<And>fs. e \<noteq> Elsewhere fs"
  shows "transfer_budget (job_file j) t' < transfer_budget (job_file j) t"
proof (cases e)
  case (OnClient s)
  with step obtain m where m: "send_step s (client_end t) = Some (Inr m)"
    "t' = t\<lparr>client_end := m, wire := wire t @ sends_of s (client_end t)\<rparr>" by (auto split: option.splits sum.splits)
  with budget_event [OF _ m(1), of "job_file j"] inv show ?thesis
    by (simp add: transfer_budget_def transfer_inv_def wire_inv_def)
next
  case (Deliver bufs fin)
  with step obtain m where d: "deliverable t bufs fin" and m: "receive_step (Indicate bufs fin) (server_end t) = Some (Inr m)"
    "t' = t\<lparr>server_end := m, delivered := delivered t + length (concat bufs), finished := fin\<rparr>"
    by (auto split: option.splits sum.splits if_splits simp del: receive_step.simps)
  from server_budget_step [OF m(1)] have cost: "server_budget m = server_budget (server_end t) + 4" by simp
  from inv d have "wire_inv (job_file j) t" by (simp add: transfer_inv_def)
  with wire_inv_deliver [OF this d, of m]
  have "wire_inv (job_file j) (t\<lparr>server_end := m, delivered := delivered t + length (concat bufs), finished := fin\<rparr>)"
    by blast
  from wire_inv_delivered [OF this] have "delivered t + length (concat bufs) \<le> length (job_file j)"
    by (simp del: length_concat)
  moreover have "fin \<or> 0 < length (concat bufs)" and open_stream: "\<not> finished t" using d by (auto simp: deliverable_def)
  moreover have "5 * (k - (i + n)) + (if fin then 0 else 5) + 4 < 5 * (k - i) + 5"
    if "i + n \<le> k" "fin \<or> 0 < n" for i n k :: nat
    using that by (cases fin) auto
  ultimately have "5 * (length (job_file j) - (delivered t + length (concat bufs))) + (if fin then 0 else 5) + 4 <
      5 * (length (job_file j) - delivered t) + 5" by blast
  then show ?thesis using cost open_stream by (simp add: transfer_budget_def m(2) del: length_concat)
next
  case (OnServer s)
  from step OnServer have "\<And>b f. s \<noteq> Indicate b f" by auto
  moreover from this step OnServer obtain m where m: "receive_step s (server_end t) = Some (Inr m)"
    "t' = t\<lparr>server_end := m\<rparr>" by (auto split: option.splits sum.splits receive_event.splits simp del: receive_step.simps)
  ultimately have "server_budget m < server_budget (server_end t)" using server_budget_step [OF m(1)] by (cases s) auto
  then show ?thesis by (simp add: transfer_budget_def m(2))
next
  case (Elsewhere fs)
  with e show ?thesis by blast
qed

definition own_steps :: "transfer_event list \<Rightarrow> nat" where
  "own_steps es = length (filter (\<lambda>e. case e of Elsewhere fs \<Rightarrow> False | _ \<Rightarrow> True) es)"

lemma run_budget:
  assumes "orderly_run (job_dest j) t0 es t" and "job_ok j" and "transfer_inv j t0"
  shows "own_steps es + transfer_budget (job_file j) t \<le> transfer_budget (job_file j) t0"
  using assms
proof (induction rule: orderly_run.induct)
  case run_start
  then show ?case by (simp add: own_steps_def)
next
  case (run_step es t e t')
  have inv: "transfer_inv j t" by (rule run_inv) (use run_step in auto)
  show ?case
  proof (cases "\<exists>fs. e = Elsewhere fs")
    case True
    with run_step.hyps(3) have "transfer_budget (job_file j) t' = transfer_budget (job_file j) t"
      by (auto simp: transfer_budget_def server_budget_def split: if_splits)
    with True run_step.IH run_step.prems show ?thesis by (auto simp: own_steps_def)
  next
    case False
    then have "own_steps (es @ [e]) = Suc (own_steps es)" by (cases e) (auto simp: own_steps_def)
    moreover have "transfer_budget (job_file j) t' < transfer_budget (job_file j) t"
      using transfer_budget_step [OF run_step.prems(1) inv run_step.hyps(2,3)] False by blast
    moreover note run_step.IH [OF run_step.prems]
    ultimately show ?thesis by linarith
  qed
qed

section \<open>At rest\<close>

text \<open>Nothing is left to do but to delete the context and to report the end of the stream.\<close>

definition at_rest :: "loc \<Rightarrow> transfer \<Rightarrow> bool" where
  "at_rest D t \<longleftrightarrow> (\<forall>e. orderly e t \<and> transfer_step D e t \<noteq> None \<longrightarrow>
     e = OnClient DeleteContext \<or> e = OnServer EndStream \<or> (\<exists>fs. e = Elsewhere fs))"

lemma at_rest_stop:
  "at_rest D t \<Longrightarrow> orderly e t \<Longrightarrow> transfer_step D e t \<noteq> None \<Longrightarrow>
   e = OnClient DeleteContext \<or> e = OnServer EndStream \<or> (\<exists>fs. e = Elsewhere fs)"
  unfolding at_rest_def by blast

lemma at_rest_items:
  assumes "at_rest D t" and inv: "server_inv j got fin (server_end t)"
  shows "items (server_end t) = []"
proof (rule ccontr)
  assume some: "items (server_end t) \<noteq> []"
  from server_inv_ctx [OF inv] some obtain c where c: "rm_ctx (server_end t) = Some c" by blast
  have "\<exists>s. (\<forall>b f. s \<noteq> Indicate b f) \<and> s \<noteq> EndStream \<and> receive_step s (server_end t) \<noteq> None"
  proof (cases "items (server_end t) ! 0")
    case ItemQueued
    with some c show ?thesis by (intro exI [of _ "WriteItem 0"]) (simp add: at_item_def)
  next
    case ItemCompleting
    with some c show ?thesis by (intro exI [of _ "CompleteItem 0"]) (simp add: at_item_def)
  next
    case ItemFinishing
    with some c show ?thesis by (intro exI [of _ "FinishItem 0"]) (simp add: at_item_def)
  next
    case ItemDereferencing
    with some c show ?thesis by (intro exI [of _ "DerefItem 0"]) (simp add: at_item_def)
  qed
  then obtain s where s: "\<And>b f. s \<noteq> Indicate b f" "s \<noteq> EndStream" "receive_step s (server_end t) \<noteq> None" by blast
  then have "transfer_step D (OnServer s) t \<noteq> None"
    by (cases s) (auto split: option.splits sum.splits simp del: receive_step.simps)
  with at_rest_stop [OF assms(1), of "OnServer s"] s(2) show False by simp
qed

lemma at_rest_client:
  assumes "at_rest D t" and "strm (client_end t) = Some d"
  shows "worker_at (client_end t) = WorkerIdle \<and> callback_at (client_end t) = CallbackIdle \<and>
    queued (client_end t) = 0 \<and> in_flight d = 0"
proof (rule ccontr)
  assume "\<not> ?thesis"
  from send_progress [OF assms(2) this] obtain e m' where e: "e \<noteq> SendChunk False" "e \<noteq> DeleteContext"
    "send_step e (client_end t) = Some (Inr m')" by blast
  then have "transfer_step D (OnClient e) t \<noteq> None" "orderly (OnClient e) t" by simp_all
  with at_rest_stop [OF assms(1), of "OnClient e"] e(2) show False by simp
qed

lemma at_rest_installed:
  assumes rest: "at_rest (job_dest j) t" and inv: "transfer_inv j t"
    and alive: "finished t \<or> strm (client_end t) \<noteq> None \<and> stream_alive (server_end t)"
  shows "installed j (server_files t) \<and> around j (server_files t)"
proof -
  from inv have w: "wire_inv (job_file j) t"
    and s: "server_inv j (take (delivered t) (job_file j)) (finished t) (server_end t)" by (simp_all add: transfer_inv_def)
  note none = at_rest_items [OF rest s]
  have "finished t"
  proof (rule ccontr)
    assume open_stream: "\<not> finished t"
    with alive obtain d where d: "strm (client_end t) = Some d" "stream_alive (server_end t)" by blast
    from w d(1) have inv': "content_inv (job_file j) (client_end t)" "progress_inv (client_end t)" "wire t = sent d"
      by (simp_all add: wire_inv_def)
    from rest_complete [OF inv'(1,2) d(1)] at_rest_client [OF rest d(1)]
    have sent: "wire_bytes t = job_file j" "sent d \<noteq> []" "snd (last (sent d))" by (simp_all add: inv'(3))
    then have closed: "list_ex snd (wire t)" by (auto simp: inv'(3) list_ex_iff intro: last_in_set)
    from w have "delivered t \<le> length (wire_bytes t)" by (simp add: wire_inv_def)
    then have "deliverable t [drop (delivered t) (wire_bytes t)] True"
      using open_stream closed by (simp add: deliverable_def del: length_concat)
    moreover obtain c where c: "rm_ctx (server_end t) = Some c" using server_inv_ctx [OF s] d(2) by blast
    have "receive_step (Indicate [drop (delivered t) (wire_bytes t)] True) (server_end t) \<noteq> None"
      using server_inv_parts(5) [OF s c] none d(2) by simp
    ultimately have "transfer_step (job_dest j) (Deliver [drop (delivered t) (wire_bytes t)] True) t \<noteq> None"
      by (auto split: option.splits sum.splits simp del: receive_step.simps)
    from at_rest_stop [OF rest _ this] none show False by simp
  qed
  with s none show ?thesis by (auto simp: server_inv_def split: option.splits)
qed

section \<open>A run can always be finished\<close>

lemma send_step_alive:
  assumes "strm m = Some d" and "e \<noteq> DeleteContext" and "send_step e m = Some r"
  shows "\<exists>m'. r = Inr m' \<and> strm m' \<noteq> None"
  using assms by (cases e; cases "worker_at m") (auto simp: on_stream_def read_chunk_def Let_def split: if_splits)

lemma receive_step_alive:
  assumes "receive_step e m = Some (Inr m')" and "e \<noteq> EndStream"
  shows "stream_alive m' = stream_alive m"
  using assms
  by (cases e; cases "rm_ctx m")
    (auto simp: at_item_def split: if_splits sum.splits prod.splits write_outcome.splits)

abbreviation both_alive :: "transfer \<Rightarrow> bool" where
  "both_alive t \<equiv> strm (client_end t) \<noteq> None \<and> stream_alive (server_end t)"

lemma alive_step:
  assumes j: "job_ok j" and inv: "transfer_inv j t" and alive: "both_alive t" and orderly: "orderly e t"
    and step: "transfer_step (job_dest j) e t = Some r"
    and e: "e \<noteq> OnClient DeleteContext" "e \<noteq> OnServer EndStream"
  shows "\<exists>t'. r = Inr t' \<and> both_alive t'"
proof (cases e)
  case (OnClient s)
  from alive obtain d where "strm (client_end t) = Some d" by blast
  with send_step_alive [OF this, of s] step OnClient e(1) alive show ?thesis
    by (auto split: option.splits sum.splits)
next
  case (OnServer s)
  with step obtain t' where t': "r = Inr t'" using transfer_inv_server [OF j inv, of _ s] by blast
  with step OnServer obtain m where "receive_step s (server_end t) = Some (Inr m)" "t' = t\<lparr>server_end := m\<rparr>"
    by (cases s) (auto split: option.splits sum.splits simp del: receive_step.simps)
  with receive_step_alive [of s "server_end t" m] t' OnServer e(2) alive show ?thesis by auto
next
  case (Deliver bufs fin)
  with transfer_inv_deliver [OF inv, of bufs fin] orderly step obtain t' where t': "r = Inr t'" by blast
  with step Deliver obtain m where "receive_step (Indicate bufs fin) (server_end t) = Some (Inr m)"
    "server_end t' = m" "client_end t' = client_end t"
    by (auto split: option.splits sum.splits if_splits simp del: receive_step.simps)
  with receive_step_alive [of "Indicate bufs fin" "server_end t" m] t' alive show ?thesis by auto
next
  case (Elsewhere fs)
  with step alive show ?thesis by (auto split: if_splits)
qed

lemma run_continues:
  assumes "orderly_run (job_dest j) t0 es t" and j: "job_ok j" and start: "transfer_inv j t0" and "both_alive t"
  shows "\<exists>es' t'. orderly_run (job_dest j) t0 (es @ es') t' \<and> at_rest (job_dest j) t' \<and> both_alive t'"
  using assms(1,4)
proof (induction "transfer_budget (job_file j) t" arbitrary: es t rule: less_induct)
  case less
  note inv = run_inv [OF less.prems(1) j start]
  show ?case
  proof (cases "at_rest (job_dest j) t")
    case True
    with less.prems show ?thesis by (intro exI [of _ "[]"] exI [of _ t]) simp
  next
    case False
    then obtain e r where e: "orderly e t" "transfer_step (job_dest j) e t = Some r"
      "e \<noteq> OnClient DeleteContext" "e \<noteq> OnServer EndStream" "\<And>fs. e \<noteq> Elsewhere fs"
      by (auto simp: at_rest_def simp del: transfer_step.simps)
    from alive_step [OF j inv less.prems(2) e(1-4)] obtain t1 where t1: "r = Inr t1" "both_alive t1" by blast
    with e have step: "transfer_step (job_dest j) e t = Some (Inr t1)" by simp
    from run_step [OF less.prems(1) e(1) step] have run: "orderly_run (job_dest j) t0 (es @ [e]) t1" .
    from less.hyps [OF transfer_budget_step [OF j inv e(1) step e(5)] run t1(2)] obtain es' t' where
      "orderly_run (job_dest j) t0 ((es @ [e]) @ es') t'" "at_rest (job_dest j) t'" "both_alive t'" by blast
    then show ?thesis by (intro exI [of _ "e # es'"] exI [of _ t']) simp
  qed
qed

section \<open>Properties\<close>

lemma job_of_sel [simp]:
  "job_file (job_of content D fs c) = content" "job_dest (job_of content D fs c) = D"
  "job_old (job_of content D fs c) = node_at fs D" "FileTime (job_ctx (job_of content D fs c)) = FileTime c"
  by (simp_all add: job_of_def)

lemma installed_update:
  assumes "file_context env File fs = Some c" and "destination env File = abs_path D" and "getType File = FILE"
    and "plain_fs fs" and "no_write_faults fs" and "file_place fs D" and "file_place fs (temp_loc D)"
    and "length content = unat (getSize File)"
    and ready: "installed (job_of content D fs c) fs'" "around (job_of content D fs c) fs'"
  shows "node_at fs' D = Some (Regular content (new_file_time env File)) \<and> node_at fs' (temp_loc D) = None \<and>
    \<not> DoesFileNeedUpdate (server_clock env) fs' (BasePath env) File"
proof -
  have time: "FileTime c = new_file_time env File" by (rule context_receiving(4) [OF assms(1,2,4-7)])
  have path: "path_append (BasePath env) (path_of (c_str (getPath File))) = abs_path D"
    using assms(2) by (simp add: destination_def)
  from ready have "plain_fs fs'" "proper D" "node_at fs' D = Some (Regular content (new_file_time env File))"
    "node_at fs' (temp_loc D) = None"
    using time by (simp_all add: around_def installed_def file_place_def leaf_place_def)
  with plain_update [OF _ _ path, of fs' "server_clock env"] assms(8) show ?thesis by (simp add: new_file_time_def)
qed

lemma own_steps_bound:
  assumes "job_ok (job_of content D fs c)"
    and "transfer_inv (job_of content D fs c) (established content fs (c\<lparr>RefCount := 1\<rparr>))"
    and "orderly_run D (established content fs (c\<lparr>RefCount := 1\<rparr>)) es t"
  shows "own_steps es \<le> 9 * (length content div FILE_IO_SIZE + 1) + 5 * length content + 9"
proof -
  have "own_steps es + transfer_budget content t \<le> transfer_budget content (established content fs (c\<lparr>RefCount := 1\<rparr>))"
    using run_budget [of "job_of content D fs c", OF _ assms(1,2)] assms(3) by simp
  moreover have "transfer_budget content (established content fs (c\<lparr>RefCount := 1\<rparr>)) =
      9 * (length content div FILE_IO_SIZE + 1) + 5 * length content + 9"
    by (simp add: transfer_budget_def server_budget_def established_def started_def budget_def opened_def new_stream_def
        reads_left_def)
  ultimately show ?thesis by linarith
qed

lemma run_never_partial:
  assumes "file_context env File fs = Some c" and "destination env File = abs_path D"
    and "plain_fs fs" and "no_write_faults fs" and "file_place fs D" and "file_place fs (temp_loc D)"
    and "length content = unat (getSize File)"
    and "orderly_run D (established content fs (c\<lparr>RefCount := 1\<rparr>)) es t"
  shows "(node_at (server_files t) D = node_at fs D \<or>
      node_at (server_files t) D = Some (Regular content (new_file_time env File))) \<and>
    (\<forall>e u. orderly e t \<and> transfer_step D e t = Some (Inl u) \<longrightarrow> (\<exists>s. e = OnClient s)) \<and>
    (\<forall>e t' l. orderly e t \<and> transfer_step D e t = Some (Inr t') \<and> (\<forall>fs'. e \<noteq> Elsewhere fs') \<and> l \<noteq> D \<and> l \<noteq> temp_loc D \<longrightarrow>
       node_at (server_files t') l = node_at (server_files t) l)"
proof -
  let ?j = "job_of content D fs c"
  note start = job_start [OF assms(1-7)]
  have inv: "transfer_inv ?j t" using run_inv [of ?j] assms(8) start by simp
  have time: "FileTime c = new_file_time env File" by (rule context_receiving(4) [OF assms(1-6)])
  have "node_at (server_files t) D = node_at fs D \<or>
      node_at (server_files t) D = Some (Regular content (new_file_time env File))"
    using server_inv_destination [of ?j _ "finished t" "server_end t"] inv time by (auto simp: transfer_inv_def)
  moreover have "\<exists>s. e = OnClient s" if "orderly e t" "transfer_step D e t = Some (Inl u)" for e u
    using transfer_inv_step [OF start(1) inv that(1), of "Inl u"] that(2) by simp
  moreover have "node_at (server_files t') l = node_at (server_files t) l"
    if "orderly e t" "transfer_step D e t = Some (Inr t')" "\<forall>fs'. e \<noteq> Elsewhere fs'" "l \<noteq> D" "l \<noteq> temp_loc D" for e t' l
    using transfer_inv_step [OF start(1) inv that(1), of "Inr t'"] that(2-5) by (auto simp: only_here_def)
  ultimately show ?thesis by blast
qed

text \<open>
  C7. However the two ends, the stream between them and the rest of the server interleave, as long as no two
  receives overlap and no send is refused: the destination holds what was there before or the whole
  file of the client with the info's time, never a part; only the destination and the temporary file are
  changed; and the server's end never fails.
\<close>

theorem transfer_never_partial:
  assumes "file_context env File fs = Some c" and "destination env File = abs_path D"
    and "plain_fs fs" and "no_write_faults fs" and "file_place fs D" and "file_place fs (temp_loc D)"
    and "length content = unat (getSize File)"
    and "orderly_run D (established content fs (c\<lparr>RefCount := 1\<rparr>)) es t"
  shows "(node_at (server_files t) D = node_at fs D \<or>
      node_at (server_files t) D = Some (Regular content (new_file_time env File))) \<and>
    (\<forall>e u. orderly e t \<and> transfer_step D e t = Some (Inl u) \<longrightarrow> (\<exists>s. e = OnClient s)) \<and>
    (\<forall>e t' l. orderly e t \<and> transfer_step D e t = Some (Inr t') \<and> (\<forall>fs'. e \<noteq> Elsewhere fs') \<and> l \<noteq> D \<and> l \<noteq> temp_loc D \<longrightarrow>
       node_at (server_files t') l = node_at (server_files t) l)"
  using assms by (rule run_never_partial)

lemma run_installs:
  assumes "file_context env File fs = Some c" and "destination env File = abs_path D" and "getType File = FILE"
    and "plain_fs fs" and "no_write_faults fs" and "file_place fs D" and "file_place fs (temp_loc D)"
    and "length content = unat (getSize File)"
    and "orderly_run D (established content fs (c\<lparr>RefCount := 1\<rparr>)) es t" and "at_rest D t"
    and "finished t \<or> both_alive t"
  shows "node_at (server_files t) D = Some (Regular content (new_file_time env File)) \<and>
    node_at (server_files t) (temp_loc D) = None \<and>
    \<not> DoesFileNeedUpdate (server_clock env) (server_files t) (BasePath env) File"
proof -
  let ?j = "job_of content D fs c"
  note start = job_start [OF assms(1,2,4-8)]
  have "transfer_inv ?j t" using run_inv [of ?j] assms(9) start by simp
  with at_rest_installed [of ?j t] assms(10,11) have "installed ?j (server_files t)" "around ?j (server_files t)"
    by simp_all
  then show ?thesis by (rule installed_update [OF assms(1-8)])
qed



definition sample_env :: server_env where
  "sample_env = example_server\<lparr>BasePath := abs_path []\<rparr>"

definition sample_info :: FileInfo where
  "sample_info = initRoot\<lparr>getPath := ''s/a'', getSize := 3\<rparr>"

lemma sample_facts:
  "destination sample_env sample_info = abs_path [''s'', ''a'']" "getType sample_info = FILE"
  "length [7, 8, 9 :: u8] = unat (getSize sample_info)" "new_file_time sample_env sample_info = 0"
  using example_file(1)
  by (simp_all add: sample_env_def sample_info_def initRoot_def new_file_time_def message_time_def from_utc_def
      utc_to_sys_def example_server_def example_clock_def)

lemma sample_context: "\<exists>c. file_context sample_env sample_info example_fs = Some c"
proof -
  have "is_dir example_fs (butlast [''s'', ''a''])" "proper [''s'', ''a'']"
    using example_file(2) by (simp_all add: file_place_def leaf_place_def)
  with file_context_plain [OF example_fs(1) _ _ _ sample_facts(1)] show ?thesis by auto
qed

lemma sample_run:
  assumes "file_context sample_env sample_info example_fs = Some c"
  shows "\<exists>es t. orderly_run [''s'', ''a''] (established [7, 8, 9] example_fs (c\<lparr>RefCount := 1\<rparr>)) es t \<and>
    at_rest [''s'', ''a''] t \<and> both_alive t"
proof -
  let ?t = "established [7, 8, 9] example_fs (c\<lparr>RefCount := 1\<rparr>)"
  note start = job_start [OF assms sample_facts(1) example_fs(1) example_file(4,2,3) sample_facts(3)]
  have "both_alive ?t" by (simp add: established_def opened_def started_def)
  with run_continues [OF _ start, of "[]" ?t] show ?thesis by (auto intro: run_start)
qed

theorem transfer_never_partial_witness:
  "\<exists>c es t. orderly_run [''s'', ''a''] (established [7, 8, 9] example_fs (c\<lparr>RefCount := 1\<rparr>)) es t \<and> at_rest [''s'', ''a''] t \<and>
    (node_at (server_files t) [''s'', ''a''] = Some (Regular [1, 2] 2) \<or>
     node_at (server_files t) [''s'', ''a''] = Some (Regular [7, 8, 9] 0))"
proof -
  obtain c where c: "file_context sample_env sample_info example_fs = Some c" using sample_context by blast
  from sample_run [OF c] obtain es t where
    t: "orderly_run [''s'', ''a''] (established [7, 8, 9] example_fs (c\<lparr>RefCount := 1\<rparr>)) es t" "at_rest [''s'', ''a''] t" by blast
  have "node_at example_fs [''s'', ''a''] = Some (Regular [1, 2] 2)" by (simp add: node_at_def example_fs_def)
  with transfer_never_partial [OF c sample_facts(1) example_fs(1) example_file(4,2,3) sample_facts(3) t(1)] t sample_facts(4)
  show ?thesis by auto
qed



section \<open>Overlapping receives\<close>

fun transfer_run :: "loc \<Rightarrow> transfer_event list \<Rightarrow> transfer \<Rightarrow> (ub + transfer) option" where
  "transfer_run D [] t = Some (Inr t)"
| "transfer_run D (e # es) t =
     (case transfer_step D e t of
        None \<Rightarrow> None
      | Some (Inl u) \<Rightarrow> Some (Inl u)
      | Some (Inr t') \<Rightarrow> transfer_run D es t')"

definition overlap_context :: receive_context where
  "overlap_context = new_context\<lparr>RefCount := 1, NewFileSize := 3, FileTime := 5,
     DestinationPath := abs_path [''s'', ''n''], TempDestinationPath := abs_path [''s'', ''n.qsync'']\<rparr>"


end
