(* ===== verification/TreeSync.thy ===== *)
theory TreeSync
  imports ControlReceive ClientControl ServerData
begin

text \<open>
  The two halves of the synchronisation of a tree, each for the list of locations one search has
  reported: the client's sends taken apart by the server's control stream, and the served infos on an
  empty base directory.
\<close>

lemma infos_delivered:
  assumes ls: "distinct ls"
      "set ls = {l. prefix r l \<and> (\<exists>n. node_at (env_fs fenv) l = Some n \<and> reported_type n \<noteq> None)}"
      "FindFiles fenv record_report Root (0, []) = Some (True, (of_nat (length ls), location_reports fenv (butlast r) 0 ls))"
    and few: "length (nodes (env_fs fenv)) < 2 ^ 64"
    and short: "\<forall>l k. node_at (env_fs fenv) l \<noteq> None \<longrightarrow>
      length (serialize (env_capnp fenv) (location_info fenv (butlast r) l k)) < 2 ^ 32"
    and client: "\<not> malloc_fails env" "\<forall>i. \<not> send_fails env i"
    and heap: "heap_ok h" "never_fails h"
  shows "\<exists>c. FindFiles fenv (on_file_found env) Root (0, init_client) = Some (True, (of_nat (length ls), c)) \<and>
    process c = Running \<and> control_reader c = init_reader \<and> FileInfos c = map_of (location_reports fenv (butlast r) 0 ls) \<and>
    control_sent c = map (frame_bytes \<circ> message_frame \<circ> snd) (location_reports fenv (butlast r) 0 ls) \<and>
    (\<forall>i < length ls. FileInfos c (of_nat (Suc i)) =
       Some (serialize (env_capnp fenv) (location_info fenv (butlast r) (ls ! i) (of_nat (Suc i))))) \<and>
    (\<forall>bs. concat bs = concat (control_sent c) \<and> run_ok (receive_one h) receive_ok init_control bs \<longrightarrow>
       (\<exists>s. run_reader (receive_one h) init_control bs = Some (s, map snd (location_reports fenv (butlast r) 0 ls)) \<and>
          pending s = []))"
proof -
  let ?info = "\<lambda>ls i. location_info fenv (butlast r) (ls ! i) (of_nat (Suc i))"
  let ?log = "location_reports fenv (butlast r) 0 ls"
  have log: "?log = map (\<lambda>i. (of_nat (Suc i), serialize (env_capnp fenv) (?info ls i))) [0..<length ls]"
    by (simp add: location_reports_map)
  have there: "node_at (env_fs fenv) (ls ! i) \<noteq> None" if "i < length ls" for i
    using nth_mem [OF that] by (simp add: ls(2)) blast
  with short have fits: "length (serialize (env_capnp fenv) (?info ls i)) < 2 ^ 32" if "i < length ls" for i
    using that by blast
  have "length ls \<le> length (nodes (env_fs fenv))" by (rule length_le_nodes [OF ls(1)]) (auto simp: ls(2))
  with few have ids: "distinct (map fst ?log)" by (intro distinct_report_ids) simp
  let ?c = "init_client\<lparr>FileInfos := map_of ?log, control_sent := map (frame_bytes \<circ> message_frame \<circ> snd) ?log\<rparr>"
  have "apply_reports (on_file_found env) ?log init_client =
      init_client\<lparr>FileInfos := FileInfos init_client ++ map_of ?log,
        control_sent := control_sent init_client @ map (frame_bytes \<circ> message_frame \<circ> snd) (sent_reports env ?log)\<rparr>"
    by (rule apply_on_file_found [OF client(1) _ ids]) (use fits in \<open>auto simp: init_client_def log\<close>)
  moreover have "sent_reports env ?log = ?log" using client(2) by (simp add: sent_reports_def)
  ultimately have found: "FindFiles fenv (on_file_found env) Root (0, init_client) = Some (True, (of_nat (length ls), ?c))"
    using FindFiles_any_callback [OF ls(3), of "on_file_found env" init_client] by (simp add: init_client_def)
  have table: "FileInfos ?c (of_nat (Suc i)) = Some (serialize (env_capnp fenv) (?info ls i))" if "i < length ls" for i
    using that map_of_is_SomeI [OF ids] by (force simp: log)
  have received: "\<exists>s. run_reader (receive_one h) init_control bs = Some (s, map snd ?log) \<and> pending s = []"
    if "concat bs = concat (control_sent ?c)" "run_ok (receive_one h) receive_ok init_control bs" for bs
    by (rule frames_delivered [OF heap _ _ that(2)])
      (use fits that(1) in \<open>auto simp: log frames_bytes_def comp_def\<close>)
  from found table received show ?thesis by (intro exI [of _ ?c]) (simp add: init_client_def)
qed

lemma infos_mirrored:
  assumes fs: "plain_fs (env_fs fenv)" and r: "r \<noteq> []"
    and ls: "distinct ls"
      "set ls = {l. prefix r l \<and> (\<exists>n. node_at (env_fs fenv) l = Some n \<and> reported_type n \<noteq> None)}"
      "parents_first {butlast r} ls"
    and env: "server_ok senv" "BasePath senv = abs_path base" "proper base" "server_capnp senv = env_capnp fenv"
      "capnp_ok (env_capnp fenv)"
    and dst: "plain_fs (server_fs s)" "is_dir (server_fs s) base"
    and empty: "\<forall>l. prefix base l \<and> l \<noteq> base \<longrightarrow> node_at (server_fs s) l = None"
  shows "\<exists>s'. serve_infos senv (map snd (location_reports fenv (butlast r) k ls)) s = Inr s' \<and>
    answered s' = answered s \<and>
    (\<forall>l. prefix r l \<and> is_dir (env_fs fenv) l \<longrightarrow> is_dir (server_fs s') (mirrored base r l)) \<and>
    map fst (requested s') = map fst (requested s) @
      map fst (filter (\<lambda>(i, l). is_file (env_fs fenv) l) (zip (map fst (location_reports fenv (butlast r) k ls)) ls))"
proof -
  have "node_at (server_fs s) (mirrored base r l) = None" if "prefix r l" for l
  proof -
    from mirrored_simps(2) [OF r that] obtain ms where "l = butlast r @ ms" "ms \<noteq> []" by blast
    with mirrored_simps(1) [OF r, of base ms] empty show ?thesis by simp
  qed
  then have free: "\<forall>l \<in> set ls. node_at (server_fs s) (mirrored base r l) = None" by (simp add: ls(2))
  have "mirrored base r (butlast r) = base" using mirrored_simps(1) [OF r, of base "[]"] by simp
  then have start: "\<forall>l \<in> {butlast r}. is_dir (env_fs fenv) l \<longrightarrow> is_dir (server_fs s) (mirrored base r l)"
    using dst(2) by simp
  have below: "\<forall>l \<in> set ls. prefix r l \<and> (\<exists>n. node_at (env_fs fenv) l = Some n \<and> reported_type n \<noteq> None)"
    by (simp add: ls(2))
  from serve_locations [OF fs r env ls(3,1) below start dst(1) free, of k] obtain s' where
    s': "serve_infos senv (map snd (location_reports fenv (butlast r) k ls)) s = Inr s'" "answered s' = answered s"
    "\<forall>l \<in> {butlast r} \<union> set ls. is_dir (env_fs fenv) l \<longrightarrow> is_dir (server_fs s') (mirrored base r l)"
    "map fst (requested s') = map fst (requested s) @
      map fst (filter (\<lambda>(i, l). is_file (env_fs fenv) l) (zip (map fst (location_reports fenv (butlast r) k ls)) ls))"
    by blast
  have "l \<in> set ls" if "prefix r l" "is_dir (env_fs fenv) l" for l
    using that by (auto simp: ls(2) is_dir_def)
  with s'(3) have "\<forall>l. prefix r l \<and> is_dir (env_fs fenv) l \<longrightarrow> is_dir (server_fs s') (mirrored base r l)" by blast
  with s'(1,2,4) show ?thesis by blast
qed

text \<open>The requested ids are those of the files, and the client keeps their infos.\<close>

lemma map_snd_filter_zip:
  "length ks = length ls \<Longrightarrow> map snd (filter (\<lambda>(i, l). P l) (zip ks ls)) = filter P ls"
  by (induction ks ls rule: list_induct2) auto

lemma requested_files:
  assumes "distinct ls"
    and "set ls = {l. prefix r l \<and> (\<exists>n. node_at (env_fs fenv) l = Some n \<and> reported_type n \<noteq> None)}"
    and table: "\<forall>i < length ls. FileInfos c (of_nat (Suc i)) =
       Some (serialize (env_capnp fenv) (location_info fenv (butlast r) (ls ! i) (of_nat (Suc i))))"
  defines "files \<equiv> filter (\<lambda>(i, l). is_file (env_fs fenv) l) (zip (map fst (location_reports fenv (butlast r) 0 ls)) ls)"
  shows "distinct (map snd files) \<and> set (map snd files) = {l. prefix r l \<and> is_file (env_fs fenv) l} \<and>
    list_all2 (\<lambda>k l. FileInfos c k = Some (serialize (env_capnp fenv) (location_info fenv (butlast r) l k)))
      (map fst files) (map snd files)"
proof -
  let ?ids = "map fst (location_reports fenv (butlast r) 0 ls)"
  have snd: "map snd files = filter (is_file (env_fs fenv)) ls"
    by (simp add: files_def map_snd_filter_zip)
  have "FileInfos c k = Some (serialize (env_capnp fenv) (location_info fenv (butlast r) l k))"
    if pair: "(k, l) \<in> set files" for k l
  proof -
    from pair obtain i where "i < length ls" "k = ?ids ! i" "l = ls ! i" by (auto simp: files_def set_zip)
    with table show ?thesis by (simp add: nth_location_reports)
  qed
  then have "list_all2 (\<lambda>k l. FileInfos c k = Some (serialize (env_capnp fenv) (location_info fenv (butlast r) l k)))
      (map fst files) (map snd files)" by (auto simp: list_all2_map1 list_all2_map2 list_all2_same)
  moreover have "{l. prefix r l \<and> is_file (env_fs fenv) l} = set (map snd files)"
    unfolding snd using assms(2) by (auto simp: is_file_def)
  ultimately show ?thesis using assms(1) by (simp add: snd)
qed

end
