(* ===== verification/TreeMachine.thy ===== *)
theory TreeMachine
  imports TransferRuns TreeSync
begin

text \<open>
  The whole program at work on the infos of one tree: the thread of \<open>Pool\<close> serves the messages of the
  control stream one after the other (\<open>QSyncServerWorkerCallback\<close>), the client receives the ids the server
  returns (\<open>QSyncClientControlStreamCallback\<close>) and opens the files it is asked for
  (\<open>QSyncClientDataStreamCallback\<close>), and any number of data streams carry files at the same time
  (\<open>FileTransfer\<close>), all on one file system. The invariant says how far each entry of the tree has come.
\<close>

section \<open>The machine\<close>

text \<open>
  \<open>waiting\<close> are the messages in the pool, \<open>worker\<close> is the server with its file system, \<open>peer\<close> the
  client; of the ids the server has returned the client has received \<open>returned\<close>; \<open>running\<close> has the
  transfers whose files the client has opened, by id.
\<close>

record sync =
  waiting :: "bytes list"
  worker :: server_state
  peer :: client
  returned :: nat
  running :: "u64 \<rightharpoonup> transfer"

datatype sync_event =
    Serve                          \<comment> \<open>the worker serves the next message\<close>
  | Return                         \<comment> \<open>the client receives the next id on its control stream\<close>
  | OpenFile u64                   \<comment> \<open>the client receives the id on its data stream\<close>
  | Move u64 transfer_event        \<comment> \<open>a step of a transfer\<close>

abbreviation sync_files :: "sync \<Rightarrow> fsys" where
  "sync_files x \<equiv> server_fs (worker x)"

text \<open>All transfers work on the same file system.\<close>

definition with_files :: "fsys \<Rightarrow> transfer \<Rightarrow> transfer" where
  "with_files fs t = t\<lparr>server_end := (server_end t)\<lparr>rm_fs := fs\<rparr>\<rparr>"

definition share :: "fsys \<Rightarrow> (u64 \<rightharpoonup> transfer) \<Rightarrow> (u64 \<rightharpoonup> transfer)" where
  "share fs run = (\<lambda>k. map_option (with_files fs) (run k))"

fun sync_step :: "server_env \<Rightarrow> data_env \<Rightarrow> sync_event \<Rightarrow> sync \<Rightarrow> (ub + sync) option" where
  "sync_step senv denv Serve x =
     (case waiting x of
        [] \<Rightarrow> None
      | m # ms \<Rightarrow>
          (case QSyncServerWorkerCallback senv m (worker x) of
             Inl u \<Rightarrow> Some (Inl u)
           | Inr w \<Rightarrow> Some (Inr (x\<lparr>waiting := ms, worker := w, running := share (server_fs w) (running x)\<rparr>))))"
| "sync_step senv denv Return x =
     (if returned x < length (answered (worker x)) then
        (case QSyncClientControlStreamCallback (peer x) (ClientReceive [enc_u64 (answered (worker x) ! returned x)]) of
           Inl u \<Rightarrow> Some (Inl u)
         | Inr c \<Rightarrow> Some (Inr (x\<lparr>peer := c, returned := Suc (returned x)\<rparr>)))
      else None)"
| "sync_step senv denv (OpenFile k) x =
     (case map_of (requested (worker x)) k of
        None \<Rightarrow> None
      | Some ctx \<Rightarrow>
          if running x k \<noteq> None then None
          else
            (case QSyncClientDataStreamCallback denv (peer x, new_stream) (ClientReceive [enc_u64 k]) of
               Inl u \<Rightarrow> Some (Inl u)
             | Inr (c, None) \<Rightarrow> Some (Inr (x\<lparr>peer := c\<rparr>))
             | Inr (c, Some d) \<Rightarrow>
                 Some (Inr (if work d = 0 then x\<lparr>peer := c\<rparr>
                   else x\<lparr>peer := c, running := (running x)(k \<mapsto> established (unread d) (sync_files x) ctx)\<rparr>))))"
| "sync_step senv denv (Move k e) x =
     (case running x k of
        None \<Rightarrow> None
      | Some t \<Rightarrow>
          (case e of
             Elsewhere fs \<Rightarrow> None
           | _ \<Rightarrow>
               (case transfer_step [] e t of
                  None \<Rightarrow> None
                | Some (Inl u) \<Rightarrow> Some (Inl u)
                | Some (Inr t') \<Rightarrow>
                    Some (Inr (x\<lparr>worker := (worker x)\<lparr>server_fs := server_files t'\<rparr>,
                      running := (share (server_files t') (running x))(k \<mapsto> t')\<rparr>)))))"

declare sync_step.simps(2,3) [simp del]

lemmas return_step = sync_step.simps(2) and open_step = sync_step.simps(3)

text \<open>The runs looked at are those in which every transfer is orderly.\<close>

fun sync_orderly :: "sync_event \<Rightarrow> sync \<Rightarrow> bool" where
  "sync_orderly (Move k e) x = (\<forall>t. running x k = Some t \<longrightarrow> orderly e t)"
| "sync_orderly _ x = True"

inductive sync_run :: "server_env \<Rightarrow> data_env \<Rightarrow> sync \<Rightarrow> sync_event list \<Rightarrow> sync \<Rightarrow> bool"
  for senv :: server_env and denv :: data_env and x0 :: sync where
  sync_start: "sync_run senv denv x0 [] x0"
| sync_next: "sync_run senv denv x0 es x \<Longrightarrow> sync_orderly e x \<Longrightarrow> sync_step senv denv e x = Some (Inr x') \<Longrightarrow>
    sync_run senv denv x0 (es @ [e]) x'"

inductive_cases sync_startE [elim!]: "sync_run senv denv x0 [] x"

section \<open>A tree\<close>

text \<open>
  What the theorems ask of the tree and of the two sides. The last condition is about the names the server
  gives to temporary files: no entry beside a file is called like it with \<open>.qsync\<close> behind.
\<close>

definition tree_ok :: "files_env \<Rightarrow> server_env \<Rightarrow> data_env \<Rightarrow> loc \<Rightarrow> loc \<Rightarrow> loc list \<Rightarrow> bool" where
  "tree_ok fenv senv denv base r ls \<longleftrightarrow>
     plain_fs (env_fs fenv) \<and> capnp_ok (env_capnp fenv) \<and> r \<noteq> [] \<and> proper r \<and> length ls < 2 ^ 64 \<and>
     distinct ls \<and> parents_first {butlast r} ls \<and>
     set ls = {l. prefix r l \<and> (\<exists>n. node_at (env_fs fenv) l = Some n \<and> reported_type n \<noteq> None)} \<and>
     (\<forall>l c t. prefix r l \<longrightarrow> node_at (env_fs fenv) l = Some (Regular c t) \<longrightarrow> length c < 2 ^ 64) \<and>
     path_of (SyncPath denv) = abs_path r \<and> data_fs denv = env_fs fenv \<and> data_capnp denv = env_capnp fenv \<and>
     server_ok senv \<and> BasePath senv = abs_path base \<and> proper base \<and> server_capnp senv = env_capnp fenv \<and>
     (\<forall>l \<in> set ls. is_file (env_fs fenv) l \<longrightarrow> temp_loc l \<notin> set ls)"

definition file_id :: "nat \<Rightarrow> u64" where
  "file_id i = of_nat (Suc i)"

definition info_at :: "files_env \<Rightarrow> loc \<Rightarrow> loc list \<Rightarrow> nat \<Rightarrow> FileInfo" where
  "info_at fenv r ls i = location_info fenv (butlast r) (ls ! i) (file_id i)"

definition message_at :: "files_env \<Rightarrow> loc \<Rightarrow> loc list \<Rightarrow> nat \<Rightarrow> bytes" where
  "message_at fenv r ls i = serialize (env_capnp fenv) (info_at fenv r ls i)"

definition place_at :: "loc \<Rightarrow> loc \<Rightarrow> loc list \<Rightarrow> nat \<Rightarrow> loc" where
  "place_at base r ls i = mirrored base r (ls ! i)"

fun contents :: "node option \<Rightarrow> bytes" where
  "contents (Some (Regular c t)) = c"
| "contents _ = []"

text \<open>Whether the server, with the files \<open>fs\<close>, will ask for the entry.\<close>

definition outdated :: "files_env \<Rightarrow> server_env \<Rightarrow> loc \<Rightarrow> loc list \<Rightarrow> fsys \<Rightarrow> nat \<Rightarrow> bool" where
  "outdated fenv senv r ls fs i \<longleftrightarrow> DoesFileNeedUpdate (server_clock senv) fs (BasePath senv) (info_at fenv r ls i)"

definition file_job :: "files_env \<Rightarrow> loc \<Rightarrow> loc \<Rightarrow> loc list \<Rightarrow> fsys \<Rightarrow> nat \<Rightarrow> receive_context \<Rightarrow> job" where
  "file_job fenv base r ls fs i ctx = \<lparr>job_file = contents (node_at (env_fs fenv) (ls ! i)),
     job_dest = place_at base r ls i, job_old = node_at fs (place_at base r ls i), job_ctx = ctx\<rparr>"

text \<open>A context as the worker makes it.\<close>

definition fresh_context :: "job \<Rightarrow> bool" where
  "fresh_context j \<longleftrightarrow> job_ok j \<and> TempDestinationPath (job_ctx j) = abs_path (job_temp j) \<and>
     FileWriteStream (job_ctx j) = None \<and> \<not> write_failed (job_ctx j) \<and> BytesWritten (job_ctx j) = 0 \<and>
     RefCount (job_ctx j) = 1"

lemma fresh_start:
  assumes "fresh_context j" and "plain_fs fs" and "no_write_faults fs" and "file_place fs (job_dest j)"
    and "file_place fs (job_temp j)" and "node_at fs (job_dest j) = job_old j"
  shows "transfer_inv j (established (job_file j) fs (job_ctx j))"
proof -
  have "arriving j [] fs (job_ctx j)"
    using assms by (simp add: arriving_def receiving_def fresh_context_def file_place_def)
  then have "server_inv j [] False (started fs (job_ctx j))"
    using assms by (simp add: server_inv_def started_def references_def around_def fresh_context_def file_place_def)
  then show ?thesis using wire_inv_start [of "job_file j" fs "job_ctx j"] by (simp add: transfer_inv_def established_def)
qed

section \<open>Places\<close>

lemma tree_okD:
  assumes "tree_ok fenv senv denv base r ls"
  shows "plain_fs (env_fs fenv)" and "capnp_ok (env_capnp fenv)" and "r \<noteq> []" and "proper r" and "length ls < 2 ^ 64"
    and "distinct ls" and "parents_first {butlast r} ls"
    and "l \<in> set ls \<longleftrightarrow> prefix r l \<and> (\<exists>n. node_at (env_fs fenv) l = Some n \<and> reported_type n \<noteq> None)"
    and "prefix r l \<Longrightarrow> node_at (env_fs fenv) l = Some (Regular c t) \<Longrightarrow> length c < 2 ^ 64"
    and "path_of (SyncPath denv) = abs_path r" and "data_fs denv = env_fs fenv" and "data_capnp denv = env_capnp fenv"
    and "server_ok senv" and "BasePath senv = abs_path base" and "proper base" and "server_capnp senv = env_capnp fenv"
    and "l \<in> set ls \<Longrightarrow> is_file (env_fs fenv) l \<Longrightarrow> temp_loc l \<notin> set ls"
  using assms unfolding tree_ok_def by blast+

lemma temp_loc_append: "ms \<noteq> [] \<Longrightarrow> temp_loc (xs @ ms) = xs @ temp_loc ms"
  by (simp add: temp_loc_def butlast_append)

lemma temp_loc_inj:
  assumes "temp_loc l = temp_loc l'" and "l \<noteq> []" and "l' \<noteq> []"
  shows "l = l'"
proof -
  from assms(1) have "butlast l = butlast l'" "last l = last l'" by (simp_all add: temp_loc_def)
  with assms(2,3) show ?thesis by (metis append_butlast_last_id)
qed

lemma proper_temp: "l \<noteq> [] \<Longrightarrow> proper l \<Longrightarrow> proper (temp_loc l)"
proof -
  assume l: "l \<noteq> []" "proper l"
  then have "proper (butlast l @ [last l])" by simp
  then have "proper (butlast l)" "proper_name (last l)" by simp_all
  then show ?thesis by (auto simp: temp_loc_def proper_name_def slash_def dot_def dotdot_def)
qed

lemma entry_at:
  assumes ok: "tree_ok fenv senv denv base r ls" and i: "i < length ls"
  obtains ms n where "ls ! i = butlast r @ ms" "ms \<noteq> []" "place_at base r ls i = base @ ms" "proper (base @ ms)"
    "proper (butlast r @ ms)" "node_at (env_fs fenv) (ls ! i) = Some n" "reported_type n \<noteq> None" "prefix r (ls ! i)"
proof -
  from tree_okD(8) [OF ok, of "ls ! i"] nth_mem [OF i] obtain n where
    n: "prefix r (ls ! i)" "node_at (env_fs fenv) (ls ! i) = Some n" "reported_type n \<noteq> None" by auto
  obtain ms where ms: "ls ! i = butlast r @ ms" "ms \<noteq> []" using mirrored_simps(2) [OF tree_okD(3) [OF ok] n(1)] by blast
  moreover have "place_at base r ls i = base @ ms"
    using mirrored_simps(1) [OF tree_okD(3) [OF ok]] ms(1) by (simp add: place_at_def)
  moreover have "proper (butlast r @ ms)" using tree_okD(1) [OF ok] n(2) ms(1) by (auto simp: plain_fs_def dest: fs_wf_node)
  ultimately show ?thesis using that n tree_okD(15) [OF ok] by simp
qed

lemma place_inj:
  assumes ok: "tree_ok fenv senv denv base r ls" and "i < length ls" and "i' < length ls"
  shows "place_at base r ls i = place_at base r ls i' \<longleftrightarrow> i = i'"
proof -
  from entry_at [OF ok assms(2)] obtain ms where "ls ! i = butlast r @ ms" "place_at base r ls i = base @ ms" by metis
  moreover from entry_at [OF ok assms(3)] obtain ms' where "ls ! i' = butlast r @ ms'" "place_at base r ls i' = base @ ms'" by metis
  ultimately show ?thesis using nth_eq_iff_index_eq [OF tree_okD(6) [OF ok] assms(2,3)] by auto
qed

text \<open>
  The places of a file are its destination and its temporary file; no other entry has a part in them. A
  directory has its own place only.
\<close>

definition file_places :: "loc \<Rightarrow> loc \<Rightarrow> loc list \<Rightarrow> nat \<Rightarrow> loc set" where
  "file_places base r ls i = {place_at base r ls i, temp_loc (place_at base r ls i)}"

definition entry_places :: "files_env \<Rightarrow> loc \<Rightarrow> loc \<Rightarrow> loc list \<Rightarrow> nat \<Rightarrow> loc set" where
  "entry_places fenv base r ls i = (if is_file (env_fs fenv) (ls ! i) then file_places base r ls i else {place_at base r ls i})"

lemma place_in_entry [simp]: "place_at base r ls i \<in> entry_places fenv base r ls i"
  by (simp add: entry_places_def file_places_def)

lemma temp_not_place:
  assumes ok: "tree_ok fenv senv denv base r ls" and "i < length ls" and "i' < length ls" and "is_file (env_fs fenv) (ls ! i)"
  shows "temp_loc (place_at base r ls i) \<noteq> place_at base r ls i'"
proof
  assume same: "temp_loc (place_at base r ls i) = place_at base r ls i'"
  from entry_at [OF ok assms(2)] obtain ms where ms: "ls ! i = butlast r @ ms" "place_at base r ls i = base @ ms" "ms \<noteq> []" by metis
  from entry_at [OF ok assms(3)] obtain ms' where ms': "ls ! i' = butlast r @ ms'" "place_at base r ls i' = base @ ms'" by metis
  from same ms ms' have "temp_loc (ls ! i) = ls ! i'" by (simp add: temp_loc_append)
  with tree_okD(17) [OF ok, of "ls ! i"] assms(2-4) show False by (metis nth_mem)
qed

lemma temps_differ:
  assumes ok: "tree_ok fenv senv denv base r ls" and "i < length ls" and "i' < length ls" and "i \<noteq> i'"
  shows "temp_loc (place_at base r ls i) \<noteq> temp_loc (place_at base r ls i')"
proof
  assume same: "temp_loc (place_at base r ls i) = temp_loc (place_at base r ls i')"
  have "place_at base r ls k \<noteq> []" if "k < length ls" for k using entry_at [OF ok that] by (metis append_is_Nil_conv)
  with temp_loc_inj [OF same] assms(2-4) place_inj [OF ok assms(2,3)] show False by blast
qed

lemma places_disjoint:
  assumes ok: "tree_ok fenv senv denv base r ls" and i: "i < length ls" "is_file (env_fs fenv) (ls ! i)"
    and i': "i' < length ls" "i \<noteq> i'"
  shows "place_at base r ls i' \<notin> file_places base r ls i"
    and "is_file (env_fs fenv) (ls ! i') \<Longrightarrow> file_places base r ls i \<inter> file_places base r ls i' = {}"
  using place_inj [OF ok i(1) i'(1)] temp_not_place [OF ok i(1) i'(1) i(2)] temp_not_place [OF ok i'(1) i(1)]
    temps_differ [OF ok i(1) i'(1) i'(2)] i'(2)
  by (auto simp: file_places_def)

text \<open>The directory of an entry is the root's or that of an entry before it.\<close>

lemma parents_first_nth: "parents_first P ls \<Longrightarrow> i < length ls \<Longrightarrow> butlast (ls ! i) \<in> P \<union> set (take i ls)"
proof (induction ls arbitrary: P i)
  case (Cons l ls)
  then show ?case by (cases i) (fastforce)+
qed simp

lemma parent_at:
  assumes ok: "tree_ok fenv senv denv base r ls" and i: "i < length ls"
  shows "butlast (place_at base r ls i) = base \<or>
    (\<exists>i' < i. butlast (place_at base r ls i) = place_at base r ls i' \<and> is_dir (env_fs fenv) (ls ! i'))"
proof -
  from entry_at [OF ok i] obtain ms n where ms: "ls ! i = butlast r @ ms" "ms \<noteq> []" "place_at base r ls i = base @ ms"
    and n: "node_at (env_fs fenv) (ls ! i) = Some n" by metis
  have "ls ! i \<noteq> []" using ms by simp
  then have dir: "is_dir (env_fs fenv) (butlast (ls ! i))" using tree_okD(1) [OF ok] n by (auto simp: plain_fs_def dest: fs_wf_node)
  from parents_first_nth [OF tree_okD(7) [OF ok] i] consider "butlast (ls ! i) = butlast r"
    | i' where "i' < i" "butlast (ls ! i) = ls ! i'" by (auto simp: in_set_conv_nth)
  then show ?thesis
  proof cases
    case 1
    with ms show ?thesis by (simp add: butlast_append)
  next
    case 2
    then have i': "i' < length ls" using i by simp
    from entry_at [OF ok i'] obtain ms' where "ls ! i' = butlast r @ ms'" "place_at base r ls i' = base @ ms'" by metis
    with 2 ms dir show ?thesis by (auto simp: butlast_append)
  qed
qed

section \<open>Serving an entry\<close>

lemma update_directory_faults [simp]: "write_fault (update_directory p t fs) = write_fault fs"
  by (auto simp: update_directory_def set_directory_time_def fs_set_last_write_time_def fs_create_directory_def
      split: option.splits bool.splits walk_result.splits if_splits)

lemma message_read: "tree_ok fenv senv denv base r ls \<Longrightarrow>
  unpack (env_capnp fenv) (message_at fenv r ls i) = Some (info_at fenv r ls i)"
  using unpack_serialize [OF tree_okD(2)] by (simp add: message_at_def)

lemma info_destination:
  assumes ok: "tree_ok fenv senv denv base r ls" and i: "i < length ls"
  shows "destination senv (info_at fenv r ls i) = abs_path (place_at base r ls i)"
proof -
  from entry_at [OF ok i] obtain ms n where e: "ls ! i = butlast r @ ms" "ms \<noteq> []" "place_at base r ls i = base @ ms"
    "proper (butlast r @ ms)" "node_at (env_fs fenv) (ls ! i) = Some n" by metis
  from reported_path_place [OF e(4) tree_okD(15) [OF ok] e(2), of fenv n "file_id i"] e tree_okD(14) [OF ok] show ?thesis
    by (simp add: destination_def info_at_def)
qed

text \<open>
  What may be at the places of an entry: something of the same kind at its own, and a regular file (one
  that was left behind) at that of its temporary file.
\<close>

definition kinds_ok :: "files_env \<Rightarrow> loc \<Rightarrow> loc \<Rightarrow> loc list \<Rightarrow> fsys \<Rightarrow> nat \<Rightarrow> bool" where
  "kinds_ok fenv base r ls fs i \<longleftrightarrow>
     (\<forall>n n'. node_at (env_fs fenv) (ls ! i) = Some n \<longrightarrow> node_at fs (place_at base r ls i) = Some n' \<longrightarrow>
        reported_type n' = reported_type n) \<and>
     (is_file (env_fs fenv) (ls ! i) \<longrightarrow>
        (\<forall>n'. node_at fs (temp_loc (place_at base r ls i)) = Some n' \<longrightarrow> type_of n' = FtRegular))"

lemma reported_kind [simp]:
  "reported_type n = Some DIR \<longleftrightarrow> (\<exists>t. n = Directory t)" "reported_type n = Some FILE \<longleftrightarrow> (\<exists>c t. n = Regular c t)"
  by (cases n; simp)+

lemma info_path:
  assumes ok: "tree_ok fenv senv denv base r ls" and i: "i < length ls"
  shows "path_append (BasePath senv) (path_of (c_str (getPath (info_at fenv r ls i)))) = abs_path (place_at base r ls i)"
  using info_destination [OF assms] by (simp add: destination_def)

lemma outdated_cong:
  assumes ok: "tree_ok fenv senv denv base r ls" and i: "i < length ls" and fs: "plain_fs fs" "plain_fs fs'"
    and same: "node_at fs (place_at base r ls i) = node_at fs' (place_at base r ls i)"
  shows "outdated fenv senv r ls fs i = outdated fenv senv r ls fs' i"
proof -
  have "proper (place_at base r ls i)" using entry_at [OF ok i] by metis
  from plain_update [OF fs(1) this info_path [OF ok i]] plain_update [OF fs(2) this info_path [OF ok i]] same
  show ?thesis by (simp add: outdated_def)
qed

lemma outdated_missing:
  assumes ok: "tree_ok fenv senv denv base r ls" and i: "i < length ls" and fs: "plain_fs fs"
    and none: "node_at fs (place_at base r ls i) = None"
  shows "outdated fenv senv r ls fs i"
proof -
  have "proper (place_at base r ls i)" using entry_at [OF ok i] by metis
  from plain_update [OF fs this info_path [OF ok i]] none show ?thesis by (simp add: outdated_def)
qed

lemma entry_kind:
  assumes ok: "tree_ok fenv senv denv base r ls" and i: "i < length ls"
  shows "is_dir (env_fs fenv) (ls ! i) \<longleftrightarrow> \<not> is_file (env_fs fenv) (ls ! i)"
proof -
  from entry_at [OF ok i] obtain n where n: "node_at (env_fs fenv) (ls ! i) = Some n" "reported_type n \<noteq> None" by metis
  then show ?thesis by (cases n) (simp_all add: is_dir_def is_file_def)
qed

lemma dir_place:
  assumes "kinds_ok fenv base r ls fs i" and "is_dir (env_fs fenv) (ls ! i)"
  shows "node_at fs (place_at base r ls i) = None \<or> is_dir fs (place_at base r ls i)"
  using assms by (cases "node_at fs (place_at base r ls i)") (auto simp: kinds_ok_def is_dir_def)

lemma regular_place:
  assumes "kinds_ok fenv base r ls fs i" and "is_file (env_fs fenv) (ls ! i)" and "node_at fs (place_at base r ls i) = Some n'"
  shows "\<exists>c t. n' = Regular c t"
  using assms by (cases n') (auto simp: kinds_ok_def is_file_def)

lemma serve_entry:
  assumes ok: "tree_ok fenv senv denv base r ls" and i: "i < length ls"
    and fs: "plain_fs (server_fs s)" "no_write_faults (server_fs s)" and kinds: "kinds_ok fenv base r ls (server_fs s) i"
    and parent: "is_dir (server_fs s) (butlast (place_at base r ls i))"
  shows "\<exists>s'. QSyncServerWorkerCallback senv (message_at fenv r ls i) s = Inr s' \<and>
    (if \<not> outdated fenv senv r ls (server_fs s) i then s' = s\<lparr>answered := answered s @ [file_id i]\<rparr>
     else if is_file (env_fs fenv) (ls ! i)
     then \<exists>ctx. s' = s\<lparr>requested := requested s @ [(file_id i, ctx)]\<rparr> \<and>
       fresh_context (file_job fenv base r ls (server_fs s) i ctx) \<and> FileTime ctx = new_file_time senv (info_at fenv r ls i)
     else answered s' = answered s \<and> requested s' = requested s \<and> plain_fs (server_fs s') \<and> no_write_faults (server_fs s') \<and>
       (\<forall>l. node_at (server_fs s') l = (if l = place_at base r ls i
          then Some (Directory (new_file_time senv (info_at fenv r ls i))) else node_at (server_fs s) l)))"
proof -
  let ?File = "info_at fenv r ls i" and ?D = "place_at base r ls i"
  from entry_at [OF ok i] obtain ms n where e: "?D = base @ ms" "ms \<noteq> []" "proper ?D" "prefix r (ls ! i)"
    and n: "node_at (env_fs fenv) (ls ! i) = Some n" "reported_type n \<noteq> None" by metis
  have D: "?D \<noteq> []" using e by simp
  note dest = info_destination [OF ok i] and sel = location_info_sel [OF n(1), of "butlast r" "file_id i", folded info_at_def]
  note read = message_read [OF ok, of i] and env = tree_okD(13,16) [OF ok]
  show ?thesis
  proof (cases "outdated fenv senv r ls (server_fs s) i")
    case False
    then show ?thesis using env read sel(3) by (simp add: QSyncServerWorkerCallback_def server_ok_def outdated_def)
  next
    case needed: True
    from n(2) consider (dir) t where "n = Directory t" | (regular) c t where "n = Regular c t" by (cases n) auto
    then show ?thesis
    proof cases
      case dir
      let ?fs = "update_directory (abs_path ?D) (new_file_time senv ?File) (server_fs s)"
      have "QSyncServerWorkerCallback senv (message_at fenv r ls i) s = Inr (s\<lparr>server_fs := ?fs\<rparr>)"
        using env needed read dest sel(2) by (simp add: QSyncServerWorkerCallback_def server_ok_def Let_def dir outdated_def)
      moreover have "node_at (server_fs s) ?D = None \<or> is_dir (server_fs s) ?D"
        by (rule dir_place [OF kinds]) (simp add: is_dir_def n(1) dir)
      ultimately show ?thesis
        using update_directory_plain [OF fs(1) D e(3) parent, of "new_file_time senv ?File"] needed n fs(2) dir
        by (simp add: is_file_def no_write_faults_def)
    next
      case regular
      have regular_file: "is_file (env_fs fenv) (ls ! i)" using n regular by (simp add: is_file_def)
      from file_context_plain [OF fs(1) D e(3) parent dest] obtain ctx where
        ctx: "file_context senv ?File (server_fs s) = Some ctx" "DestinationPath ctx = abs_path ?D"
          "TempDestinationPath ctx = abs_path (temp_loc ?D)" "NewFileSize ctx = unat (getSize ?File)"
          "FileTime ctx = new_file_time senv ?File" "BytesWritten ctx = 0" "FileWriteStream ctx = None"
        and snap: "case node_at (server_fs s) ?D of
           None \<Rightarrow> \<not> FileExists ctx
         | Some n \<Rightarrow> FileExists ctx \<and> SnapshotDestModTime ctx = time_of n \<and>
             (\<forall>c t. n = Regular c t \<longrightarrow> SnapshotDestSize ctx = length c)"
        by (auto simp: temp_loc_def)
      have "\<not> write_failed ctx" using ctx(1)
        by (auto simp: file_context_def Let_def new_context_def split: if_splits option.splits)
      moreover have "length c < 2 ^ 64" using tree_okD(9) [OF ok e(4)] n(1) regular by blast
      then have "unat (getSize ?File) = length c"
        using sel(4) regular by (simp add: unat_of_nat take_bit_nat_eq_self)
      moreover have "\<exists>old time. node_at (server_fs s) ?D = Some (Regular old time) \<and>
          SnapshotDestSize ctx = length old \<and> SnapshotDestModTime ctx = time" if "FileExists ctx"
        using snap that regular_place [OF kinds regular_file] by (auto split: option.splits)
      ultimately have "fresh_context (file_job fenv base r ls (server_fs s) i (ctx\<lparr>RefCount := 1\<rparr>))"
        using ctx n regular \<open>length c < 2 ^ 64\<close> by (simp add: fresh_context_def job_ok_def file_job_def)
      moreover have "QSyncServerWorkerCallback senv (message_at fenv r ls i) s =
          Inr (s\<lparr>requested := requested s @ [(file_id i, ctx\<lparr>RefCount := 1\<rparr>)]\<rparr>)"
        using env needed read sel(2,3) ctx(1)
        by (simp add: QSyncServerWorkerCallback_def request_file_def server_ok_def Let_def regular outdated_def)
      ultimately show ?thesis using needed regular_file ctx(5) by (auto intro!: exI [of _ "ctx\<lparr>RefCount := 1\<rparr>"])
    qed
  qed
qed

section \<open>Opening a file\<close>

lemma open_entry:
  assumes ok: "tree_ok fenv senv denv base r ls" and i: "i < length ls" and regular: "is_file (env_fs fenv) (ls ! i)"
    and known: "FileInfos c (file_id i) = Some (message_at fenv r ls i)"
  shows "\<exists>c' d. QSyncClientDataStreamCallback denv (c, new_stream) (ClientReceive [enc_u64 (file_id i)]) = Inr (c', Some d) \<and>
    FileInfos c' = (FileInfos c)(file_id i := None) \<and> control_reader c' = control_reader c \<and> work d = 1 \<and> unread d = contents (node_at (env_fs fenv) (ls ! i))"
proof -
  from entry_at [OF ok i] obtain ms where e: "ls ! i = butlast r @ ms" "ms \<noteq> []" "proper (butlast r @ ms)" by metis
  from regular obtain content t where n: "node_at (env_fs fenv) (butlast r @ ms) = Some (Regular content t)"
    using e(1) by (auto simp: is_file_def)
  have info: "info_at fenv r ls i = location_info fenv (butlast r) (butlast r @ ms) (file_id i)" by (simp add: info_at_def e(1))
  have "source_path denv (info_at fenv r ls i) = abs_path (butlast r @ ms)"
    unfolding info by (rule source_path_reported [OF tree_okD(10,3) [OF ok] e(3) tree_okD(4) [OF ok] e(2) n])
  then have "fs_read_file (data_fs denv) (source_path denv (info_at fenv r ls i)) = Some content"
    using plain_stat [OF tree_okD(1) [OF ok] n] tree_okD(1) [OF ok] tree_okD(11) [OF ok]
    by (simp add: fs_read_file_def plain_fs_def)
  with request_opens_file [of denv c "file_id i"] known message_read [OF ok, of i] tree_okD(12) [OF ok] n e(1)
  show ?thesis by auto
qed

section \<open>The invariant\<close>

lemma file_id_inj:
  assumes ok: "tree_ok fenv senv denv base r ls" and "i < length ls" and "i' < length ls"
  shows "file_id i = file_id i' \<longleftrightarrow> i = i'"
proof -
  have small: "Suc k < 2 ^ LENGTH(64)" if "k < length ls" for k using that tree_okD(5) [OF ok] by simp
  have "unat (file_id k) = Suc k" if "k < length ls" for k
    unfolding file_id_def unat_of_nat by (rule mod_less [OF small [OF that]])
  with assms(2,3) show ?thesis by (metis nat.inject)
qed

text \<open>
  Where the synchronisation of the tree stands when \<open>n\<close> entries are served, compared to the start \<open>x0\<close>: these
  directories exist, with the time of the info if they were outdated; these files are requested, with a
  context made for what was at the destination; the ids of the others are answered; a file that was not
  opened has at its places what was there; a transfer that was opened is in its own invariant; the client
  knows what it knew but for the ids it was returned and the files it has opened; and nothing but the
  places of the tree has changed.
\<close>

definition waiting_ok :: "files_env \<Rightarrow> loc \<Rightarrow> loc list \<Rightarrow> nat \<Rightarrow> sync \<Rightarrow> bool" where
  "waiting_ok fenv r ls n x \<longleftrightarrow> n \<le> length ls \<and> waiting x = map (message_at fenv r ls) [n..<length ls]"

definition files_ok :: "files_env \<Rightarrow> server_env \<Rightarrow> loc \<Rightarrow> loc \<Rightarrow> loc list \<Rightarrow> fsys \<Rightarrow> nat \<Rightarrow> fsys \<Rightarrow> bool" where
  "files_ok fenv senv base r ls fs0 n fs \<longleftrightarrow>
     plain_fs fs \<and> no_write_faults fs \<and> is_dir fs base \<and>
     (\<forall>i < n. is_dir (env_fs fenv) (ls ! i) \<and> outdated fenv senv r ls fs0 i \<longrightarrow>
        node_at fs (place_at base r ls i) = Some (Directory (new_file_time senv (info_at fenv r ls i)))) \<and>
     (\<forall>i < length ls. n \<le> i \<or> \<not> outdated fenv senv r ls fs0 i \<longrightarrow>
        node_at fs (place_at base r ls i) = node_at fs0 (place_at base r ls i)) \<and>
     (\<forall>l. (\<forall>i < length ls. l \<notin> entry_places fenv base r ls i) \<longrightarrow> node_at fs l = node_at fs0 l)"

definition unopened_ok :: "files_env \<Rightarrow> loc \<Rightarrow> loc \<Rightarrow> loc list \<Rightarrow> fsys \<Rightarrow> sync \<Rightarrow> bool" where
  "unopened_ok fenv base r ls fs0 x \<longleftrightarrow>
     (\<forall>i < length ls. is_file (env_fs fenv) (ls ! i) \<and> running x (file_id i) = None \<longrightarrow>
        (\<forall>l \<in> file_places base r ls i. node_at (sync_files x) l = node_at fs0 l))"

definition requested_ok :: "files_env \<Rightarrow> server_env \<Rightarrow> loc \<Rightarrow> loc \<Rightarrow> loc list \<Rightarrow> fsys \<Rightarrow> nat \<Rightarrow> sync \<Rightarrow> bool" where
  "requested_ok fenv senv base r ls fs0 n x \<longleftrightarrow>
     (\<forall>i < n. is_file (env_fs fenv) (ls ! i) \<and> outdated fenv senv r ls fs0 i \<longrightarrow>
        (\<exists>ctx. map_of (requested (worker x)) (file_id i) = Some ctx \<and> fresh_context (file_job fenv base r ls fs0 i ctx) \<and>
           FileTime ctx = new_file_time senv (info_at fenv r ls i))) \<and>
     (\<forall>k. map_of (requested (worker x)) k \<noteq> None \<longrightarrow>
        (\<exists>i < n. k = file_id i \<and> is_file (env_fs fenv) (ls ! i) \<and> outdated fenv senv r ls fs0 i))"

definition running_ok :: "files_env \<Rightarrow> loc \<Rightarrow> loc \<Rightarrow> loc list \<Rightarrow> fsys \<Rightarrow> nat \<Rightarrow> sync \<Rightarrow> bool" where
  "running_ok fenv base r ls fs0 n x \<longleftrightarrow>
     (\<forall>k t. running x k = Some t \<longrightarrow>
        (\<exists>i < n. \<exists>ctx. k = file_id i \<and> is_file (env_fs fenv) (ls ! i) \<and> map_of (requested (worker x)) k = Some ctx \<and>
           transfer_inv (file_job fenv base r ls fs0 i ctx) t \<and> server_files t = sync_files x))"

definition answered_ok :: "files_env \<Rightarrow> server_env \<Rightarrow> loc \<Rightarrow> loc list \<Rightarrow> fsys \<Rightarrow> nat \<Rightarrow> sync \<Rightarrow> bool" where
  "answered_ok fenv senv r ls fs0 n x \<longleftrightarrow>
     answered (worker x) = map file_id (filter (\<lambda>i. \<not> outdated fenv senv r ls fs0 i) [0..<n])"

definition peer_ok :: "client \<Rightarrow> sync \<Rightarrow> bool" where
  "peer_ok c0 x \<longleftrightarrow>
     reader_wf (control_reader (peer x)) \<and> id_pending (control_reader (peer x)) = [] \<and>
     returned x \<le> length (answered (worker x)) \<and>
     (\<forall>k. FileInfos (peer x) k =
        (if running x k \<noteq> None \<or> k \<in> set (take (returned x) (answered (worker x))) then None else FileInfos c0 k))"

definition sync_inv :: "files_env \<Rightarrow> server_env \<Rightarrow> loc \<Rightarrow> loc \<Rightarrow> loc list \<Rightarrow> sync \<Rightarrow> nat \<Rightarrow> sync \<Rightarrow> bool" where
  "sync_inv fenv senv base r ls x0 n x \<longleftrightarrow>
     waiting_ok fenv r ls n x \<and> files_ok fenv senv base r ls (sync_files x0) n (sync_files x) \<and>
     unopened_ok fenv base r ls (sync_files x0) x \<and> requested_ok fenv senv base r ls (sync_files x0) n x \<and>
     running_ok fenv base r ls (sync_files x0) n x \<and> answered_ok fenv senv r ls (sync_files x0) n x \<and>
     peer_ok (peer x0) x"

lemma files_okD:
  assumes "files_ok fenv senv base r ls fs0 n fs"
  shows "plain_fs fs" and "no_write_faults fs" and "is_dir fs base"
    and "i < n \<Longrightarrow> is_dir (env_fs fenv) (ls ! i) \<Longrightarrow> outdated fenv senv r ls fs0 i \<Longrightarrow>
      node_at fs (place_at base r ls i) = Some (Directory (new_file_time senv (info_at fenv r ls i)))"
    and "i < length ls \<Longrightarrow> n \<le> i \<or> \<not> outdated fenv senv r ls fs0 i \<Longrightarrow>
      node_at fs (place_at base r ls i) = node_at fs0 (place_at base r ls i)"
    and "(\<And>i. i < length ls \<Longrightarrow> l \<notin> entry_places fenv base r ls i) \<Longrightarrow> node_at fs l = node_at fs0 l"
  using assms unfolding files_ok_def by blast+

text \<open>What is asked of the start.\<close>

definition origin_ok :: "files_env \<Rightarrow> loc \<Rightarrow> loc \<Rightarrow> loc list \<Rightarrow> sync \<Rightarrow> bool" where
  "origin_ok fenv base r ls x0 \<longleftrightarrow>
     plain_fs (sync_files x0) \<and> (\<forall>i < length ls. kinds_ok fenv base r ls (sync_files x0) i) \<and>
     (\<forall>i < length ls. FileInfos (peer x0) (file_id i) = Some (message_at fenv r ls i))"

lemma sync_invD:
  assumes "sync_inv fenv senv base r ls x0 n x"
  shows "waiting_ok fenv r ls n x" and "files_ok fenv senv base r ls (sync_files x0) n (sync_files x)"
    and "unopened_ok fenv base r ls (sync_files x0) x" and "requested_ok fenv senv base r ls (sync_files x0) n x"
    and "running_ok fenv base r ls (sync_files x0) n x" and "answered_ok fenv senv r ls (sync_files x0) n x"
    and "peer_ok (peer x0) x" and "n \<le> length ls"
  using assms by (simp_all add: sync_inv_def waiting_ok_def)

lemma with_files_sel [simp]:
  "server_files (with_files fs t) = fs" "client_end (with_files fs t) = client_end t" "wire (with_files fs t) = wire t"
  "delivered (with_files fs t) = delivered t" "finished (with_files fs t) = finished t"
  by (simp_all add: with_files_def)

lemma with_files_same: "server_files t = fs \<Longrightarrow> with_files fs t = t"
  by (auto simp: with_files_def)

lemma share_Some [simp]: "share fs run k = Some t \<longleftrightarrow> (\<exists>t'. run k = Some t' \<and> t = with_files fs t')"
  by (auto simp: share_def)

lemma share_None [simp]: "share fs run k = None \<longleftrightarrow> run k = None"
  by (simp add: share_def)

lemma share_same: "(\<And>k t. run k = Some t \<Longrightarrow> server_files t = fs) \<Longrightarrow> share fs run = run"
proof
  fix k
  assume "\<And>k t. run k = Some t \<Longrightarrow> server_files t = fs"
  then show "share fs run k = run k" by (cases "run k") (simp_all add: share_def with_files_same)
qed

text \<open>A change of the file system that leaves the places of a transfer alone, and all directories.\<close>

lemma transfer_inv_elsewhere:
  assumes inv: "transfer_inv j t" and fs: "plain_fs fs'" "no_write_faults fs'"
    and dirs: "\<And>l. is_dir (server_files t) l \<Longrightarrow> is_dir fs' l"
    and same: "node_at fs' (job_dest j) = node_at (server_files t) (job_dest j)"
      "node_at fs' (job_temp j) = node_at (server_files t) (job_temp j)"
  shows "transfer_inv j (with_files fs' t)"
proof -
  have "around j (server_files t)" using inv by (simp add: transfer_inv_def server_inv_def)
  with fs dirs same have "elsewhere (job_dest j) (server_files t) fs'"
    by (auto simp: elsewhere_def around_def file_place_def leaf_place_def is_dir_def)
  with server_inv_elsewhere inv show ?thesis by (simp add: transfer_inv_def with_files_def)
qed

lemma file_job_sel [simp]:
  "job_dest (file_job fenv base r ls fs0 i ctx) = place_at base r ls i"
  "job_old (file_job fenv base r ls fs0 i ctx) = node_at fs0 (place_at base r ls i)"
  "job_ctx (file_job fenv base r ls fs0 i ctx) = ctx"
  "job_file (file_job fenv base r ls fs0 i ctx) = contents (node_at (env_fs fenv) (ls ! i))"
  by (simp_all add: file_job_def)

text \<open>Transfers keep their invariant when something else has changed.\<close>

lemma running_elsewhere:
  assumes run: "running_ok fenv base r ls fs0 n x" and fs: "plain_fs fs'" "no_write_faults fs'"
    and dirs: "\<And>l. is_dir (sync_files x) l \<Longrightarrow> is_dir fs' l"
    and k: "running x k = Some t"
    and same: "\<And>i l. i < n \<Longrightarrow> is_file (env_fs fenv) (ls ! i) \<Longrightarrow> k = file_id i \<Longrightarrow> l \<in> file_places base r ls i \<Longrightarrow>
      node_at fs' l = node_at (sync_files x) l"
  shows "\<exists>i < n. \<exists>ctx. k = file_id i \<and> is_file (env_fs fenv) (ls ! i) \<and> map_of (requested (worker x)) k = Some ctx \<and>
    transfer_inv (file_job fenv base r ls fs0 i ctx) (with_files fs' t)"
proof -
  from run k obtain i ctx where i: "i < n" "k = file_id i" "is_file (env_fs fenv) (ls ! i)"
    "map_of (requested (worker x)) k = Some ctx" "transfer_inv (file_job fenv base r ls fs0 i ctx) t" "server_files t = sync_files x"
    unfolding running_ok_def by blast
  have "transfer_inv (file_job fenv base r ls fs0 i ctx) (with_files fs' t)"
    by (rule transfer_inv_elsewhere [OF i(5) fs]) (use i dirs same [OF i(1,3,2)] in \<open>auto simp: file_places_def\<close>)
  with i show ?thesis by blast
qed

lemma upt_waiting: "n < k \<Longrightarrow> map f [n..<k] = f n # map f [Suc n..<k]"
  by (simp add: upt_conv_Cons)

lemma parent_ready:
  assumes ok: "tree_ok fenv senv denv base r ls" and origin: "plain_fs fs0" "\<forall>i < length ls. kinds_ok fenv base r ls fs0 i"
    and i: "i < length ls" "i \<le> n" and files: "files_ok fenv senv base r ls fs0 n fs"
  shows "is_dir fs (butlast (place_at base r ls i))"
proof -
  from parent_at [OF ok i(1)] show ?thesis
  proof (elim disjE exE conjE)
    assume "butlast (place_at base r ls i) = base"
    with files_okD(3) [OF files] show ?thesis by simp
  next
    fix i' assume i': "i' < i" "butlast (place_at base r ls i) = place_at base r ls i'" "is_dir (env_fs fenv) (ls ! i')"
    show ?thesis
    proof (cases "outdated fenv senv r ls fs0 i'")
      case True
      with files_okD(4) [OF files _ i'(3)] i'(1) i(2) show ?thesis unfolding i'(2) by (simp add: is_dir_def)
    next
      case False
      from i' i(1) have len: "i' < length ls" by simp
      with False outdated_missing [OF ok len origin(1)] have there: "node_at fs0 (place_at base r ls i') \<noteq> None" by blast
      from origin(2) len have "kinds_ok fenv base r ls fs0 i'" by simp
      from dir_place [OF this i'(3)] there have "is_dir fs0 (place_at base r ls i')" by simp
      with files_okD(5) [OF files len] False show ?thesis unfolding i'(2) by (simp add: is_dir_def)
    qed
  qed
qed

section \<open>Steps keep the invariant\<close>

lemma peer_more_answers:
  assumes "peer_ok c0 x" and "peer x' = peer x" and "returned x' = returned x"
    and "answered (worker x') = answered (worker x) @ ids" and "\<And>k. running x' k = None \<longleftrightarrow> running x k = None"
  shows "peer_ok c0 x'"
  using assms by (auto simp: peer_ok_def)

lemma not_running_yet:
  assumes ok: "tree_ok fenv senv denv base r ls" and run: "running_ok fenv base r ls fs0 n x" and i: "i < length ls" "n \<le> i"
  shows "running x (file_id i) = None"
proof (rule ccontr)
  assume "running x (file_id i) \<noteq> None"
  with run obtain i' where "i' < n" "file_id i = file_id i'" unfolding running_ok_def by (metis not_None_eq)
  with file_id_inj [OF ok i(1), of i'] i show False by simp
qed

lemma file_job_cong:
  "node_at fs (place_at base r ls i) = node_at fs' (place_at base r ls i) \<Longrightarrow>
    file_job fenv base r ls fs i ctx = file_job fenv base r ls fs' i ctx"
  by (simp add: file_job_def)

text \<open>What the worker finds when it serves the next entry is what was there at the start.\<close>

lemma next_entry:
  assumes ok: "tree_ok fenv senv denv base r ls" and origin: "origin_ok fenv base r ls x0"
    and inv: "sync_inv fenv senv base r ls x0 n x" and n: "n < length ls"
  shows "node_at (sync_files x) (place_at base r ls n) = node_at (sync_files x0) (place_at base r ls n)"
    and "kinds_ok fenv base r ls (sync_files x) n"
    and "outdated fenv senv r ls (sync_files x) n = outdated fenv senv r ls (sync_files x0) n"
proof -
  note parts = sync_invD [OF inv]
  show same: "node_at (sync_files x) (place_at base r ls n) = node_at (sync_files x0) (place_at base r ls n)"
    using files_okD(5) [OF parts(2) n] by simp
  have "running x (file_id n) = None" by (rule not_running_yet [OF ok parts(5) n order_refl])
  then have "is_file (env_fs fenv) (ls ! n) \<Longrightarrow> node_at (sync_files x) (temp_loc (place_at base r ls n)) =
      node_at (sync_files x0) (temp_loc (place_at base r ls n))"
    using parts(3) n by (simp add: unopened_ok_def file_places_def)
  moreover have "kinds_ok fenv base r ls (sync_files x0) n" using origin n by (simp add: origin_ok_def)
  ultimately show "kinds_ok fenv base r ls (sync_files x) n" by (simp add: kinds_ok_def same)
  show "outdated fenv senv r ls (sync_files x) n = outdated fenv senv r ls (sync_files x0) n"
    using outdated_cong [OF ok n files_okD(1) [OF parts(2)] _ same] origin by (simp add: origin_ok_def)
qed

lemma running_more:
  assumes "running_ok fenv base r ls fs0 n x" and "running x' = running x" and "sync_files x' = sync_files x"
    and "\<And>k c. map_of (requested (worker x)) k = Some c \<Longrightarrow> map_of (requested (worker x')) k = Some c"
  shows "running_ok fenv base r ls fs0 (Suc n) x'"
  using assms(1,4) unfolding running_ok_def assms(2,3) by (meson less_SucI)

lemma share_running:
  assumes "running_ok fenv base r ls fs0 n x" shows "share (sync_files x) (running x) = running x"
  by (rule share_same) (use assms in \<open>auto simp: running_ok_def\<close>)

text \<open>The three ways of an entry.\<close>

definition after_serving :: "files_env \<Rightarrow> loc \<Rightarrow> loc list \<Rightarrow> nat \<Rightarrow> server_state \<Rightarrow> sync \<Rightarrow> sync" where
  "after_serving fenv r ls n s' x =
     x\<lparr>waiting := map (message_at fenv r ls) [Suc n..<length ls], worker := s', running := share (server_fs s') (running x)\<rparr>"

lemma after_serving_sel [simp]:
  "waiting (after_serving fenv r ls n s' x) = map (message_at fenv r ls) [Suc n..<length ls]"
  "worker (after_serving fenv r ls n s' x) = s'" "peer (after_serving fenv r ls n s' x) = peer x"
  "returned (after_serving fenv r ls n s' x) = returned x"
  "running (after_serving fenv r ls n s' x) = share (server_fs s') (running x)"
  by (simp_all add: after_serving_def)

lemma served_answered:
  assumes inv: "sync_inv fenv senv base r ls x0 n x" and n: "n < length ls"
    and current: "\<not> outdated fenv senv r ls (sync_files x0) n"
    and s': "s' = (worker x)\<lparr>answered := answered (worker x) @ [file_id n]\<rparr>"
  shows "sync_inv fenv senv base r ls x0 (Suc n) (after_serving fenv r ls n s' x)"
proof -
  let ?fs0 = "sync_files x0" and ?x = "after_serving fenv r ls n s' x"
  note parts = sync_invD [OF inv]
  have run: "running ?x = running x" using share_running [OF parts(5)] by (simp add: s')
  have "files_ok fenv senv base r ls ?fs0 (Suc n) (sync_files ?x)"
    using parts(2) current by (auto simp: files_ok_def s' less_Suc_eq)
  moreover have "unopened_ok fenv base r ls ?fs0 ?x" using parts(3) by (simp add: unopened_ok_def s')
  moreover have "requested_ok fenv senv base r ls ?fs0 (Suc n) ?x"
    using parts(4) current unfolding requested_ok_def by (auto simp: s' less_Suc_eq)
  moreover have "running_ok fenv base r ls ?fs0 (Suc n) ?x" by (rule running_more [OF parts(5) run]) (simp_all add: s')
  moreover have "answered_ok fenv senv r ls ?fs0 (Suc n) ?x" using parts(6) current by (simp add: answered_ok_def s')
  moreover have "peer_ok (peer x0) ?x" by (rule peer_more_answers [OF parts(7), of _ "[file_id n]"]) (simp_all add: s')
  ultimately show ?thesis using n by (simp add: sync_inv_def waiting_ok_def)
qed

lemma served_request:
  assumes ok: "tree_ok fenv senv denv base r ls" and inv: "sync_inv fenv senv base r ls x0 n x" and n: "n < length ls"
    and needed: "outdated fenv senv r ls (sync_files x0) n" and regular: "is_file (env_fs fenv) (ls ! n)"
    and ctx: "s' = (worker x)\<lparr>requested := requested (worker x) @ [(file_id n, ctx)]\<rparr>"
      "fresh_context (file_job fenv base r ls (sync_files x0) n ctx)" "FileTime ctx = new_file_time senv (info_at fenv r ls n)"
  shows "sync_inv fenv senv base r ls x0 (Suc n) (after_serving fenv r ls n s' x)"
proof -
  let ?fs0 = "sync_files x0" and ?x = "after_serving fenv r ls n s' x"
  note parts = sync_invD [OF inv]
  have run: "running ?x = running x" using share_running [OF parts(5)] by (simp add: ctx(1))
  have differ: "file_id i \<noteq> file_id n" if "i < n" for i
    using file_id_inj [OF ok, of i n] that n by simp
  have "map_of (requested (worker x)) (file_id n) = None"
  proof (rule ccontr)
    assume "map_of (requested (worker x)) (file_id n) \<noteq> None"
    with parts(4) obtain i where "i < n" "file_id n = file_id i" unfolding requested_ok_def by blast
    with differ [of i] show False by simp
  qed
  then have only: "map_of (requested s') k = (if k = file_id n then Some ctx else map_of (requested (worker x)) k)" for k
    by (auto simp: ctx(1) map_add_def split: option.splits)
  have "files_ok fenv senv base r ls ?fs0 (Suc n) (sync_files ?x)"
    using parts(2) entry_kind [OF ok n] regular by (auto simp: files_ok_def ctx(1) less_Suc_eq)
  moreover have "unopened_ok fenv base r ls ?fs0 ?x" using parts(3) run by (simp add: unopened_ok_def ctx(1))
  moreover have "requested_ok fenv senv base r ls ?fs0 (Suc n) ?x"
    using parts(4) ctx(2,3) regular needed only differ unfolding requested_ok_def by (auto simp: less_Suc_eq)
  moreover have "running_ok fenv base r ls ?fs0 (Suc n) ?x"
    by (rule running_more [OF parts(5) run]) (simp_all add: ctx(1) map_add_def)
  moreover have "answered_ok fenv senv r ls ?fs0 (Suc n) ?x" using parts(6) needed by (simp add: answered_ok_def ctx(1))
  moreover have "peer_ok (peer x0) ?x" by (rule peer_more_answers [OF parts(7), of _ "[]"]) (simp_all add: ctx(1))
  ultimately show ?thesis using n by (simp add: sync_inv_def waiting_ok_def)
qed

text \<open>A directory changes nothing at the places of the others.\<close>

lemma served_directory_files:
  assumes ok: "tree_ok fenv senv denv base r ls" and files: "files_ok fenv senv base r ls fs0 n fs" and n: "n < length ls"
    and needed: "outdated fenv senv r ls fs0 n" and fs': "plain_fs fs'" "no_write_faults fs'"
    and dir: "\<And>l. node_at fs' l = (if l = place_at base r ls n
       then Some (Directory (new_file_time senv (info_at fenv r ls n))) else node_at fs l)"
  shows "files_ok fenv senv base r ls fs0 (Suc n) fs'"
  unfolding files_ok_def
proof (intro conjI allI impI)
  have place: "place_at base r ls i = place_at base r ls n \<longleftrightarrow> i = n" if "i < length ls" for i by (rule place_inj [OF ok that n])
  show "is_dir fs' base" using files_okD(3) [OF files] by (simp add: is_dir_def dir)
  show "node_at fs' (place_at base r ls i) = Some (Directory (new_file_time senv (info_at fenv r ls i)))"
    if "i < Suc n" "is_dir (env_fs fenv) (ls ! i) \<and> outdated fenv senv r ls fs0 i" for i
    using that n place [of i] files_okD(4) [OF files, of i] by (auto simp: dir less_Suc_eq)
  show "node_at fs' (place_at base r ls i) = node_at fs0 (place_at base r ls i)"
    if i: "i < length ls" "Suc n \<le> i \<or> \<not> outdated fenv senv r ls fs0 i" for i
  proof -
    from i(2) needed have "i \<noteq> n" by auto
    with i place [OF i(1)] files_okD(5) [OF files i(1)] show ?thesis by (auto simp: dir)
  qed
  show "node_at fs' l = node_at fs0 l" if l: "\<forall>i < length ls. l \<notin> entry_places fenv base r ls i" for l
  proof -
    from l n have "l \<noteq> place_at base r ls n" by (metis place_in_entry)
    with l files_okD(6) [OF files, of l] show ?thesis by (simp add: dir)
  qed
qed (rule fs')+

lemma served_directory:
  assumes ok: "tree_ok fenv senv denv base r ls" and inv: "sync_inv fenv senv base r ls x0 n x" and n: "n < length ls"
    and needed: "outdated fenv senv r ls (sync_files x0) n" and no_file: "\<not> is_file (env_fs fenv) (ls ! n)"
    and same: "answered s' = answered (worker x)" "requested s' = requested (worker x)"
    and fs': "plain_fs (server_fs s')" "no_write_faults (server_fs s')"
    and dir: "\<And>l. node_at (server_fs s') l = (if l = place_at base r ls n
       then Some (Directory (new_file_time senv (info_at fenv r ls n))) else node_at (sync_files x) l)"
  shows "sync_inv fenv senv base r ls x0 (Suc n) (after_serving fenv r ls n s' x)"
proof -
  let ?fs0 = "sync_files x0" and ?x = "after_serving fenv r ls n s' x"
  note parts = sync_invD [OF inv]
  have dirs: "is_dir (server_fs s') l" if "is_dir (sync_files x) l" for l
    using that dir by (cases "l = place_at base r ls n") (simp_all add: is_dir_def)
  have other: "node_at (server_fs s') l = node_at (sync_files x) l"
    if "i < length ls" "is_file (env_fs fenv) (ls ! i)" "l \<in> file_places base r ls i" for i l
    using places_disjoint(1) [OF ok that(1,2) n] that no_file dir by metis
  have "files_ok fenv senv base r ls ?fs0 (Suc n) (sync_files ?x)"
    using served_directory_files [OF ok parts(2) n needed fs' dir] by simp
  moreover have "unopened_ok fenv base r ls ?fs0 ?x" using parts(3) other by (auto simp: unopened_ok_def)
  moreover have "requested_ok fenv senv base r ls ?fs0 (Suc n) ?x"
    using parts(4) no_file same(2) unfolding requested_ok_def by (auto simp: less_Suc_eq)
  moreover have "\<exists>i < Suc n. \<exists>ctx. k = file_id i \<and> is_file (env_fs fenv) (ls ! i) \<and> map_of (requested s') k = Some ctx \<and>
      transfer_inv (file_job fenv base r ls ?fs0 i ctx) (with_files (server_fs s') t)" if "running x k = Some t" for k t
  proof -
    have "\<exists>i < n. \<exists>ctx. k = file_id i \<and> is_file (env_fs fenv) (ls ! i) \<and> map_of (requested (worker x)) k = Some ctx \<and>
      transfer_inv (file_job fenv base r ls ?fs0 i ctx) (with_files (server_fs s') t)"
    proof (rule running_elsewhere [OF parts(5) fs' dirs that])
      fix i l assume i: "i < n" "is_file (env_fs fenv) (ls ! i)" "l \<in> file_places base r ls i"
      from i(1) n have "i < length ls" by simp
      from other [OF this i(2,3)] show "node_at (server_fs s') l = node_at (sync_files x) l" .
    qed
    then show ?thesis using same(2) less_Suc_eq by auto
  qed
  then have "running_ok fenv base r ls ?fs0 (Suc n) ?x" by (auto simp: running_ok_def)
  moreover have "answered_ok fenv senv r ls ?fs0 (Suc n) ?x" using parts(6) needed by (simp add: answered_ok_def same(1))
  moreover have "peer_ok (peer x0) ?x" by (rule peer_more_answers [OF parts(7), of _ "[]"]) (simp_all add: same(1))
  ultimately show ?thesis using n by (simp add: sync_inv_def waiting_ok_def)
qed

lemma sync_inv_serve:
  assumes ok: "tree_ok fenv senv denv base r ls" and origin: "origin_ok fenv base r ls x0"
    and inv: "sync_inv fenv senv base r ls x0 n x" and step: "sync_step senv denv Serve x = Some res"
  shows "\<exists>x'. res = Inr x' \<and> sync_inv fenv senv base r ls x0 (Suc n) x'"
proof -
  note parts = sync_invD [OF inv]
  from step have "waiting x \<noteq> []" by (auto split: list.splits)
  with parts(1) have n: "n < length ls" and w: "waiting x = message_at fenv r ls n # map (message_at fenv r ls) [Suc n..<length ls]"
    by (auto simp: waiting_ok_def upt_waiting)
  note fs = files_okD(1,2) [OF parts(2)] and here = next_entry [OF ok origin inv n]
  have "is_dir (sync_files x) (butlast (place_at base r ls n))"
    by (rule parent_ready [OF ok _ _ n order_refl parts(2)]) (use origin in \<open>simp_all add: origin_ok_def\<close>)
  from serve_entry [OF ok n fs here(2) this] obtain s' where
    served: "QSyncServerWorkerCallback senv (message_at fenv r ls n) (worker x) = Inr s'"
    and out: "if \<not> outdated fenv senv r ls (sync_files x0) n then s' = (worker x)\<lparr>answered := answered (worker x) @ [file_id n]\<rparr>
     else if is_file (env_fs fenv) (ls ! n)
     then \<exists>ctx. s' = (worker x)\<lparr>requested := requested (worker x) @ [(file_id n, ctx)]\<rparr> \<and>
       fresh_context (file_job fenv base r ls (sync_files x0) n ctx) \<and> FileTime ctx = new_file_time senv (info_at fenv r ls n)
     else answered s' = answered (worker x) \<and> requested s' = requested (worker x) \<and> plain_fs (server_fs s') \<and>
       no_write_faults (server_fs s') \<and> (\<forall>l. node_at (server_fs s') l = (if l = place_at base r ls n
          then Some (Directory (new_file_time senv (info_at fenv r ls n))) else node_at (sync_files x) l))"
    unfolding here(3) file_job_cong [OF here(1)] by blast
  have "sync_inv fenv senv base r ls x0 (Suc n) (after_serving fenv r ls n s' x)"
    using out served_answered [OF inv n] served_request [OF ok inv n] served_directory [OF ok inv n] by (metis (full_types))
  moreover have "res = Inr (after_serving fenv r ls n s' x)" using step w served by (simp add: after_serving_def)
  ultimately show ?thesis by blast
qed

lemma take_Suc_set: "n < length xs \<Longrightarrow> set (take (Suc n) xs) = insert (xs ! n) (set (take n xs))"
  by (simp add: take_Suc_conv_app_nth)

lemma sync_inv_return:
  assumes inv: "sync_inv fenv senv base r ls x0 n x" and step: "sync_step senv denv Return x = Some res"
  shows "\<exists>c. res = Inr (x\<lparr>peer := c, returned := Suc (returned x)\<rparr>) \<and>
    sync_inv fenv senv base r ls x0 n (x\<lparr>peer := c, returned := Suc (returned x)\<rparr>) \<and>
    returned x < length (answered (worker x))"
proof -
  note parts = sync_invD [OF inv]
  let ?id = "answered (worker x) ! returned x"
  from step have more: "returned x < length (answered (worker x))" by (simp add: return_step split: if_splits)
  from parts(7) have reader: "reader_wf (control_reader (peer x))" "id_pending (control_reader (peer x)) = []"
    by (simp_all add: peer_ok_def)
  from client_forgets_one [OF this] obtain c where c: "QSyncClientControlStreamCallback (peer x) (ClientReceive [enc_u64 ?id]) = Inr c"
    "FileInfos c = (FileInfos (peer x))(?id := None)" "reader_wf (control_reader c)" "id_pending (control_reader c) = []"
    by blast
  let ?x = "x\<lparr>peer := c, returned := Suc (returned x)\<rparr>"
  have "res = Inr ?x" using step more c(1) by (simp add: return_step del: QSyncClientControlStreamCallback.simps)
  moreover have "peer_ok (peer x0) ?x"
    using parts(7) c(2-4) more by (auto simp: peer_ok_def take_Suc_set)
  then have "sync_inv fenv senv base r ls x0 n ?x"
    using inv unfolding sync_inv_def waiting_ok_def unopened_ok_def requested_ok_def running_ok_def answered_ok_def by simp
  ultimately show ?thesis using more by blast
qed

text \<open>A file that is opened is one that is requested, and its id has not been returned.\<close>

lemma requested_not_answered:
  assumes ok: "tree_ok fenv senv denv base r ls" and inv: "sync_inv fenv senv base r ls x0 n x"
    and i: "i < n" "outdated fenv senv r ls (sync_files x0) i"
  shows "file_id i \<notin> set (answered (worker x))"
proof
  note parts = sync_invD [OF inv]
  assume "file_id i \<in> set (answered (worker x))"
  with parts(6) obtain i' where i': "i' < n" "\<not> outdated fenv senv r ls (sync_files x0) i'" "file_id i = file_id i'"
    by (auto simp: answered_ok_def)
  with file_id_inj [OF ok, of i i'] i(1) parts(8) have "i' = i" by simp
  with i' i(2) show False by simp
qed

lemma sync_inv_open:
  assumes ok: "tree_ok fenv senv denv base r ls" and origin: "origin_ok fenv base r ls x0"
    and inv: "sync_inv fenv senv base r ls x0 n x" and step: "sync_step senv denv (OpenFile k) x = Some res"
  shows "\<exists>c i ctx. let x' = x\<lparr>peer := c, running := (running x)(k \<mapsto>
      established (contents (node_at (env_fs fenv) (ls ! i))) (sync_files x) ctx)\<rparr> in
    res = Inr x' \<and> sync_inv fenv senv base r ls x0 n x' \<and> i < n \<and> k = file_id i \<and>
    is_file (env_fs fenv) (ls ! i) \<and> running x k = None"
proof -
  let ?fs0 = "sync_files x0"
  note parts = sync_invD [OF inv]
  from step obtain ctx where ctx: "map_of (requested (worker x)) k = Some ctx" and new: "running x k = None"
    by (auto simp: open_step split: option.splits if_splits)
  with parts(4) obtain i where i: "i < n" "k = file_id i" "is_file (env_fs fenv) (ls ! i)" "outdated fenv senv r ls ?fs0 i"
    unfolding requested_ok_def by (metis option.distinct(1))
  from parts(4) i ctx have fresh: "fresh_context (file_job fenv base r ls ?fs0 i ctx)" unfolding requested_ok_def by force
  have len: "i < length ls" using i(1) parts(8) by simp
  from parts(3) len i new have same: "\<And>l. l \<in> file_places base r ls i \<Longrightarrow> node_at (sync_files x) l = node_at ?fs0 l"
    by (simp add: unopened_ok_def)
  have unanswered: "file_id i \<notin> set (answered (worker x))" by (rule requested_not_answered [OF ok inv i(1,4)])
  then have "file_id i \<notin> set (take (returned x) (answered (worker x)))" by (meson in_set_takeD)
  with parts(7) new i(2) origin len have known: "FileInfos (peer x) (file_id i) = Some (message_at fenv r ls i)"
    by (simp add: peer_ok_def origin_ok_def)
  from open_entry [OF ok len i(3) known] obtain c' d where
    opened: "QSyncClientDataStreamCallback denv (peer x, new_stream) (ClientReceive [enc_u64 (file_id i)]) = Inr (c', Some d)"
      "FileInfos c' = (FileInfos (peer x))(file_id i := None)" "control_reader c' = control_reader (peer x)" "work d = 1"
      "unread d = contents (node_at (env_fs fenv) (ls ! i))"
    by blast
  let ?t = "established (contents (node_at (env_fs fenv) (ls ! i))) (sync_files x) ctx"
  let ?x = "x\<lparr>peer := c', running := (running x)(k \<mapsto> ?t)\<rparr>"
  have res: "res = Inr ?x" using step ctx new opened(1,4,5) i(2)
    by (simp add: open_step del: QSyncClientDataStreamCallback.simps)
  from entry_at [OF ok len] have proper: "proper (place_at base r ls i)" "place_at base r ls i \<noteq> []" by (metis append_is_Nil_conv)+
  have "is_dir (sync_files x) (butlast (place_at base r ls i))"
    by (rule parent_ready [OF ok _ _ len _ parts(2)]) (use origin i(1) in \<open>simp_all add: origin_ok_def\<close>)
  moreover have kinds: "kinds_ok fenv base r ls ?fs0 i" using origin len by (simp add: origin_ok_def)
  moreover have "type_of n' = FtRegular" if "node_at ?fs0 (place_at base r ls i) = Some n'" for n'
    using regular_place [OF kinds i(3) that] by auto
  moreover have "type_of n' = FtRegular \<Longrightarrow> \<exists>c t. n' = Regular c t" for n' by (cases n') simp_all
  ultimately have place: "file_place (sync_files x) l" if "l \<in> file_places base r ls i" for l
    using that same [OF that] proper proper_temp [OF proper(2,1)] i(3)
    by (fastforce simp: file_place_def leaf_place_def is_dir_def file_places_def temp_loc_def kinds_ok_def)
  have "transfer_inv (file_job fenv base r ls ?fs0 i ctx) ?t"
    using fresh_start [OF fresh, of "sync_files x"] files_okD(1,2) [OF parts(2)] place same
    by (simp add: file_places_def)
  then have "running_ok fenv base r ls ?fs0 n ?x"
    using parts(5) i ctx by (auto simp: running_ok_def established_def started_def)
  moreover have "unopened_ok fenv base r ls ?fs0 ?x" using parts(3) by (auto simp: unopened_ok_def)
  moreover have "peer_ok (peer x0) ?x" using parts(7) opened(2,3) i(2) by (auto simp: peer_ok_def)
  ultimately have "sync_inv fenv senv base r ls x0 n ?x"
    using inv unfolding sync_inv_def waiting_ok_def requested_ok_def answered_ok_def by simp
  with res i new show ?thesis unfolding Let_def by blast
qed


lemma transfer_step_place: "(\<And>fs. e \<noteq> Elsewhere fs) \<Longrightarrow> transfer_step D e t = transfer_step D' e t"
  by (cases e) auto

lemma running_entry:
  assumes "running_ok fenv base r ls fs0 n x" and "running x k = Some t"
  obtains i ctx where "i < n" "k = file_id i" "is_file (env_fs fenv) (ls ! i)" "map_of (requested (worker x)) k = Some ctx"
    "transfer_inv (file_job fenv base r ls fs0 i ctx) t" "server_files t = sync_files x"
  using assms unfolding running_ok_def by blast

text \<open>The job of a running transfer is in order.\<close>

lemma running_job:
  assumes ok: "tree_ok fenv senv denv base r ls" and inv: "sync_inv fenv senv base r ls x0 n x"
    and i: "i < n" "is_file (env_fs fenv) (ls ! i)" "map_of (requested (worker x)) (file_id i) = Some ctx"
  shows "outdated fenv senv r ls (sync_files x0) i" and "job_ok (file_job fenv base r ls (sync_files x0) i ctx)"
    and "FileTime ctx = new_file_time senv (info_at fenv r ls i)"
proof -
  note parts = sync_invD [OF inv]
  from parts(4) i(3) obtain i' where i': "i' < n" "file_id i = file_id i'" "outdated fenv senv r ls (sync_files x0) i'"
    unfolding requested_ok_def by (metis option.distinct(1))
  with file_id_inj [OF ok, of i i'] i(1) parts(8) show out: "outdated fenv senv r ls (sync_files x0) i" by simp
  show "job_ok (file_job fenv base r ls (sync_files x0) i ctx)" and "FileTime ctx = new_file_time senv (info_at fenv r ls i)"
    using parts(4) i out unfolding requested_ok_def fresh_context_def by force+
qed

text \<open>A change at the places of one outdated file.\<close>

lemma files_ok_at_file:
  assumes ok: "tree_ok fenv senv denv base r ls" and files: "files_ok fenv senv base r ls fs0 n fs"
    and i: "i < n" "n \<le> length ls" "is_file (env_fs fenv) (ls ! i)" "outdated fenv senv r ls fs0 i"
    and fs': "plain_fs fs'" "no_write_faults fs'" "is_dir fs' base"
    and other: "\<And>l. l \<notin> file_places base r ls i \<Longrightarrow> node_at fs' l = node_at fs l"
  shows "files_ok fenv senv base r ls fs0 n fs'"
  unfolding files_ok_def
proof (intro conjI allI impI)
  have len: "i < length ls" using i by simp
  have away: "place_at base r ls i' \<notin> file_places base r ls i" if "i' < length ls" "i' \<noteq> i" for i'
    using places_disjoint(1) [OF ok len i(3) that(1)] that(2) by metis
  show "node_at fs' (place_at base r ls i') = Some (Directory (new_file_time senv (info_at fenv r ls i')))"
    if i': "i' < n" "is_dir (env_fs fenv) (ls ! i') \<and> outdated fenv senv r ls fs0 i'" for i'
  proof -
    from i' entry_kind [OF ok, of i'] i(2,3) have "i' < length ls" "i' \<noteq> i" by auto
    from other [OF away [OF this]] files_okD(4) [OF files i'(1)] i'(2) show ?thesis by simp
  qed
  show "node_at fs' (place_at base r ls i') = node_at fs0 (place_at base r ls i')"
    if i': "i' < length ls" "n \<le> i' \<or> \<not> outdated fenv senv r ls fs0 i'" for i'
  proof -
    from i'(2) i(1,4) have "i' \<noteq> i" by auto
    from other [OF away [OF i'(1) this]] files_okD(5) [OF files i'] show ?thesis by simp
  qed
  show "node_at fs' l = node_at fs0 l" if l: "\<forall>i < length ls. l \<notin> entry_places fenv base r ls i" for l
  proof -
    from l len i(3) have "l \<notin> file_places base r ls i" by (auto simp: entry_places_def)
    with other files_okD(6) [OF files, of l] l show ?thesis by simp
  qed
qed (rule fs')+

definition after_move :: "u64 \<Rightarrow> transfer \<Rightarrow> sync \<Rightarrow> sync" where
  "after_move k t' x = x\<lparr>worker := (worker x)\<lparr>server_fs := server_files t'\<rparr>, running := (share (server_files t') (running x))(k \<mapsto> t')\<rparr>"

lemma after_move_sel [simp]:
  "waiting (after_move k t' x) = waiting x" "worker (after_move k t' x) = (worker x)\<lparr>server_fs := server_files t'\<rparr>"
  "peer (after_move k t' x) = peer x" "returned (after_move k t' x) = returned x"
  "running (after_move k t' x) = (share (server_files t') (running x))(k \<mapsto> t')"
  by (simp_all add: after_move_def)

lemma moved_inv:
  assumes ok: "tree_ok fenv senv denv base r ls" and inv: "sync_inv fenv senv base r ls x0 n x"
    and t: "running x k = Some t"
    and i: "i < n" "k = file_id i" "is_file (env_fs fenv) (ls ! i)" "map_of (requested (worker x)) k = Some ctx"
      "transfer_inv (file_job fenv base r ls (sync_files x0) i ctx) t" "server_files t = sync_files x"
    and t': "transfer_inv (file_job fenv base r ls (sync_files x0) i ctx) t'"
      "only_here (file_job fenv base r ls (sync_files x0) i ctx) (sync_files x) (server_files t')"
  shows "sync_inv fenv senv base r ls x0 n (after_move k t' x)"
proof -
  let ?j = "file_job fenv base r ls (sync_files x0) i ctx" and ?fs = "server_files t'" and ?x = "after_move k t' x"
  note parts = sync_invD [OF inv]
  have len: "i < length ls" using i(1) parts(8) by simp
  have "around ?j ?fs" "around ?j (sync_files x)" using t'(1) i(5,6) by (simp_all add: transfer_inv_def server_inv_def)
  then have fs: "plain_fs ?fs" "no_write_faults ?fs" and no_dir: "\<not> is_dir (sync_files x) l" if "l \<in> file_places base r ls i" for l
    using that by (auto simp: around_def file_place_def leaf_place_def file_places_def)
  then have fs: "plain_fs ?fs" "no_write_faults ?fs" by (auto simp: file_places_def)
  have other: "node_at ?fs l = node_at (sync_files x) l" if "l \<notin> file_places base r ls i" for l
    using t'(2) that by (simp add: only_here_def file_places_def)
  have dirs: "is_dir ?fs l" if "is_dir (sync_files x) l" for l
    using that other no_dir by (metis is_dir_def)
  have apart: "l \<notin> file_places base r ls i" if "i' < length ls" "i' \<noteq> i" "is_file (env_fs fenv) (ls ! i')"
    "l \<in> file_places base r ls i'" for i' l
    using places_disjoint(2) [OF ok len i(3) that(1) _ that(3)] that(2,4) by blast
  have "outdated fenv senv r ls (sync_files x0) i" by (rule running_job(1) [OF ok inv i(1,3)]) (use i(2,4) in simp)
  from files_ok_at_file [OF ok parts(2) i(1) parts(8) i(3) this fs dirs [OF files_okD(3) [OF parts(2)]] other]
  have "files_ok fenv senv base r ls (sync_files x0) n (sync_files ?x)" by simp
  moreover have "unopened_ok fenv base r ls (sync_files x0) ?x"
    unfolding unopened_ok_def
  proof (intro allI impI ballI)
    fix i' l assume i': "i' < length ls" "is_file (env_fs fenv) (ls ! i') \<and> running ?x (file_id i') = None"
      and l: "l \<in> file_places base r ls i'"
    then have "running x (file_id i') = None" "i' \<noteq> i" using i(2) by (auto split: if_splits)
    with i' l parts(3) apart [OF i'(1)] other show "node_at (sync_files ?x) l = node_at (sync_files x0) l"
      by (simp add: unopened_ok_def)
  qed
  moreover have "requested_ok fenv senv base r ls (sync_files x0) n ?x" using parts(4) by (simp add: requested_ok_def)
  moreover have "\<exists>i < n. \<exists>ctx. k' = file_id i \<and> is_file (env_fs fenv) (ls ! i) \<and> map_of (requested (worker x)) k' = Some ctx \<and>
      transfer_inv (file_job fenv base r ls (sync_files x0) i ctx) (with_files ?fs s)" if s: "running x k' = Some s" "k' \<noteq> k" for k' s
  proof (rule running_elsewhere [OF parts(5) fs dirs s(1)])
    fix i' l assume i': "i' < n" "is_file (env_fs fenv) (ls ! i')" "k' = file_id i'" "l \<in> file_places base r ls i'"
    with parts(8) s(2) i(2) have "i' < length ls" "i' \<noteq> i" by auto
    from other [OF apart [OF this i'(2,4)]] show "node_at ?fs l = node_at (sync_files x) l" .
  qed
  then have "running_ok fenv base r ls (sync_files x0) n ?x"
    using i(1-4) t'(1) by (auto simp: running_ok_def)
  moreover have "answered_ok fenv senv r ls (sync_files x0) n ?x" using parts(6) by (simp add: answered_ok_def)
  moreover have "peer_ok (peer x0) ?x"
    by (rule peer_more_answers [OF parts(7), of _ "[]"]) (use t in \<open>simp_all\<close>)
  ultimately show ?thesis using parts(1) by (simp add: sync_inv_def waiting_ok_def)
qed

lemma sync_inv_move:
  assumes ok: "tree_ok fenv senv denv base r ls" and inv: "sync_inv fenv senv base r ls x0 n x"
    and orderly: "sync_orderly (Move k e) x" and step: "sync_step senv denv (Move k e) x = Some res"
  shows "case res of
      Inl u \<Rightarrow> \<exists>s. e = OnClient s
    | Inr x' \<Rightarrow> sync_inv fenv senv base r ls x0 n x' \<and> (\<exists>t t'. running x k = Some t \<and> (\<forall>fs. e \<noteq> Elsewhere fs) \<and>
        transfer_step [] e t = Some (Inr t') \<and> x' = after_move k t' x)"
proof -
  from step obtain t where t: "running x k = Some t" by (auto split: option.splits)
  from step t have e: "\<And>fs. e \<noteq> Elsewhere fs" by auto
  with step t obtain out where out: "transfer_step [] e t = Some out"
    by (cases e) (auto split: option.splits simp del: transfer_step.simps)
  from running_entry [OF sync_invD(5) [OF inv] t] obtain i ctx where i: "i < n" "k = file_id i" "is_file (env_fs fenv) (ls ! i)"
    "map_of (requested (worker x)) k = Some ctx" "transfer_inv (file_job fenv base r ls (sync_files x0) i ctx) t"
    "server_files t = sync_files x" by metis
  let ?j = "file_job fenv base r ls (sync_files x0) i ctx"
  have job: "job_ok ?j" by (rule running_job(2) [OF ok inv i(1,3)]) (use i(2,4) in simp)
  have ord: "orderly e t" using orderly t by simp
  have "transfer_step (job_dest ?j) e t = Some out" using out transfer_step_place [OF e] by metis
  note moved = transfer_inv_step [OF job i(5) ord this]
  show ?thesis
  proof (cases out)
    case (Inl u)
    with step t e out have "res = Inl u" by (cases e) (auto simp del: transfer_step.simps)
    with moved Inl show ?thesis by simp
  next
    case (Inr t')
    have res: "res = Inr (after_move k t' x)" using step t e out Inr by (cases e) (auto simp: after_move_def simp del: transfer_step.simps)
    from moved Inr e have "transfer_inv ?j t'" "only_here ?j (sync_files x) (server_files t')" by (auto simp: i(6))
    from moved_inv [OF ok inv t i this] res t e out Inr show ?thesis by auto
  qed
qed

end
