(* ===== verification/TreeRuns.thy ===== *)
theory TreeRuns
  imports TreeMachine
begin

text \<open>
  Whole runs of the machine of \<open>TreeMachine\<close>: at every moment each file of the tree is on the server what it
  was at the start or the client's; when nothing is left to do the whole tree is there; a run takes a
  bounded number of steps, and every run can be continued to its end. Then the same by the locations of the
  tree, from the search on.
\<close>

section \<open>The start\<close>

text \<open>The control stream was received whole, nothing has been served.\<close>

definition sync_from :: "bytes list \<Rightarrow> client \<Rightarrow> server_state \<Rightarrow> sync" where
  "sync_from ms c s = \<lparr>waiting = ms, worker = s, peer = c, returned = 0, running = Map.empty\<rparr>"

definition begin_ok :: "files_env \<Rightarrow> loc \<Rightarrow> loc \<Rightarrow> loc list \<Rightarrow> bytes list \<Rightarrow> client \<Rightarrow> server_state \<Rightarrow> bool" where
  "begin_ok fenv base r ls ms c s \<longleftrightarrow>
     ms = map (message_at fenv r ls) [0..<length ls] \<and> no_write_faults (server_fs s) \<and> is_dir (server_fs s) base \<and>
     requested s = [] \<and> answered s = [] \<and> reader_wf (control_reader c) \<and> id_pending (control_reader c) = [] \<and>
     origin_ok fenv base r ls (sync_from ms c s)"

lemma sync_inv_start:
  assumes "begin_ok fenv base r ls ms c s"
  shows "sync_inv fenv senv base r ls (sync_from ms c s) 0 (sync_from ms c s)"
  using assms
  by (auto simp: sync_inv_def sync_from_def waiting_ok_def files_ok_def unopened_ok_def requested_ok_def running_ok_def
      answered_ok_def peer_ok_def begin_ok_def origin_ok_def)

section \<open>Runs\<close>

lemma sync_inv_step:
  assumes "tree_ok fenv senv denv base r ls" and "origin_ok fenv base r ls x0" and "sync_inv fenv senv base r ls x0 n x"
    and "sync_orderly e x" and "sync_step senv denv e x = Some (Inr x')"
  shows "\<exists>n'. sync_inv fenv senv base r ls x0 n' x'"
proof (cases e)
  case Serve
  with sync_inv_serve [OF assms(1-3), of "Inr x'"] assms(5) show ?thesis by blast
next
  case Return
  with sync_inv_return [OF assms(3), of denv "Inr x'"] assms(5) show ?thesis by auto
next
  case (OpenFile k)
  with sync_inv_open [OF assms(1-3), of k "Inr x'"] assms(5) show ?thesis unfolding Let_def by auto
next
  case (Move k e')
  with sync_inv_move [OF assms(1,3), of k e' "Inr x'"] assms(4,5) show ?thesis by auto
qed

lemma sync_run_inv:
  assumes "sync_run senv denv x0 es x" and "tree_ok fenv senv denv base r ls" and "origin_ok fenv base r ls x0"
    and "sync_inv fenv senv base r ls x0 n0 x0"
  shows "\<exists>n. sync_inv fenv senv base r ls x0 n x"
  using assms
proof (induction rule: sync_run.induct)
  case sync_start
  then show ?case by blast
next
  case (sync_next es x e x')
  then obtain n where "sync_inv fenv senv base r ls x0 n x" by blast
  from sync_inv_step [OF sync_next.prems(1,2) this sync_next.hyps(2,3)] show ?case .
qed

text \<open>Only the machine of a client can fail: everything the server does is defined.\<close>

lemma sync_failure:
  assumes "tree_ok fenv senv denv base r ls" and "origin_ok fenv base r ls x0" and "sync_inv fenv senv base r ls x0 n x"
    and "sync_orderly e x" and "sync_step senv denv e x = Some (Inl u)"
  shows "\<exists>k s. e = Move k (OnClient s)"
proof (cases e)
  case Serve
  with sync_inv_serve [OF assms(1-3), of "Inl u"] assms(5) show ?thesis by blast
next
  case Return
  with sync_inv_return [OF assms(3), of denv "Inl u"] assms(5) show ?thesis by blast
next
  case (OpenFile k)
  with sync_inv_open [OF assms(1-3), of k "Inl u"] assms(5) show ?thesis unfolding Let_def by blast
next
  case (Move k e')
  with sync_inv_move [OF assms(1,3), of k e' "Inl u"] assms(4,5) show ?thesis by auto
qed

section \<open>What the invariant says of the tree\<close>

definition mirrored_node :: "server_env \<Rightarrow> files_env \<Rightarrow> loc \<Rightarrow> loc list \<Rightarrow> nat \<Rightarrow> node option" where
  "mirrored_node senv fenv r ls i =
     (let t = new_file_time senv (info_at fenv r ls i)
      in Some (if is_file (env_fs fenv) (ls ! i) then Regular (contents (node_at (env_fs fenv) (ls ! i))) t else Directory t))"

lemma file_all_or_nothing:
  assumes ok: "tree_ok fenv senv denv base r ls" and inv: "sync_inv fenv senv base r ls x0 n x"
    and i: "i < length ls" "is_file (env_fs fenv) (ls ! i)"
  shows "node_at (sync_files x) (place_at base r ls i) = node_at (sync_files x0) (place_at base r ls i) \<or>
    outdated fenv senv r ls (sync_files x0) i \<and>
    node_at (sync_files x) (place_at base r ls i) = mirrored_node senv fenv r ls i"
proof (cases "running x (file_id i)")
  case None
  with sync_invD(3) [OF inv] i show ?thesis by (simp add: unopened_ok_def file_places_def)
next
  case (Some t)
  from running_entry [OF sync_invD(5) [OF inv] Some] obtain i' ctx where i': "i' < n" "file_id i = file_id i'"
    "map_of (requested (worker x)) (file_id i) = Some ctx"
    "transfer_inv (file_job fenv base r ls (sync_files x0) i' ctx) t" "server_files t = sync_files x" by metis
  have "i' = i" using file_id_inj [OF ok i(1), of i'] i'(1,2) sync_invD(8) [OF inv] by simp
  with i' have n: "i < n" and t: "transfer_inv (file_job fenv base r ls (sync_files x0) i ctx) t" by simp_all
  from server_inv_destination [of "file_job fenv base r ls (sync_files x0) i ctx" _ "finished t" "server_end t"] t
    running_job(1,3) [OF ok inv n i(2) i'(3)]
  show ?thesis by (auto simp: transfer_inv_def i'(5) mirrored_node_def i(2))
qed

text \<open>
  Every message is served, every returned id was received, every requested file was opened, and its
  transfer is at rest, either with the whole file delivered or with no stream given up.
\<close>

definition all_done :: "sync \<Rightarrow> bool" where
  "all_done x \<longleftrightarrow> waiting x = [] \<and> returned x = length (answered (worker x)) \<and>
     (\<forall>k. map_of (requested (worker x)) k \<noteq> None \<longrightarrow>
        (\<exists>t. running x k = Some t \<and> at_rest [] t \<and> (finished t \<or> both_alive t)))"

lemma at_rest_place: "at_rest D t \<longleftrightarrow> at_rest D' t"
proof -
  have "transfer_step D e t \<noteq> None \<longleftrightarrow> transfer_step D' e t \<noteq> None \<or> (\<exists>fs. e = Elsewhere fs)" if "\<nexists>fs. e = Elsewhere fs" for e
    using transfer_step_place [of e D t D'] that by auto
  then show ?thesis unfolding at_rest_def by blast
qed

lemma all_served:
  assumes "sync_inv fenv senv base r ls x0 n x" and "all_done x"
  shows "n = length ls"
  using sync_invD(1) [OF assms(1)] assms(2) by (auto simp: all_done_def waiting_ok_def)

lemma requested_installed:
  assumes ok: "tree_ok fenv senv denv base r ls" and inv: "sync_inv fenv senv base r ls x0 n x" and all: "all_done x"
    and i: "i < length ls" "is_file (env_fs fenv) (ls ! i)" "outdated fenv senv r ls (sync_files x0) i"
  shows "node_at (sync_files x) (place_at base r ls i) = mirrored_node senv fenv r ls i \<and>
    node_at (sync_files x) (temp_loc (place_at base r ls i)) = None \<and> running x (file_id i) \<noteq> None"
proof -
  note n = all_served [OF inv all]
  from sync_invD(4) [OF inv] i n obtain ctx where ctx: "map_of (requested (worker x)) (file_id i) = Some ctx"
    "FileTime ctx = new_file_time senv (info_at fenv r ls i)" unfolding requested_ok_def by blast
  with all obtain t where t: "running x (file_id i) = Some t" "at_rest [] t" "finished t \<or> both_alive t"
    unfolding all_done_def by (metis option.distinct(1))
  from running_entry [OF sync_invD(5) [OF inv] t(1)] obtain i' ctx' where i': "i' < n" "file_id i = file_id i'"
    "map_of (requested (worker x)) (file_id i) = Some ctx'"
    "transfer_inv (file_job fenv base r ls (sync_files x0) i' ctx') t" "server_files t = sync_files x" by metis
  have same: "i' = i" "ctx' = ctx" using file_id_inj [OF ok i(1), of i'] i'(1-3) ctx(1) n by simp_all
  have "at_rest (job_dest (file_job fenv base r ls (sync_files x0) i ctx)) t" using t(2) at_rest_place by blast
  from at_rest_installed [OF this _ t(3)] i'(4) same
  have "installed (file_job fenv base r ls (sync_files x0) i ctx) (sync_files x)" by (simp add: i'(5))
  with i(2) ctx(2) t(1) show ?thesis by (simp add: installed_def mirrored_node_def)
qed

text \<open>In the end each entry is there: what was there when that was up to date, and otherwise the client's.\<close>

lemma tree_complete:
  assumes ok: "tree_ok fenv senv denv base r ls" and inv: "sync_inv fenv senv base r ls x0 n x" and all: "all_done x"
    and i: "i < length ls"
  shows "node_at (sync_files x) (place_at base r ls i) =
      (if outdated fenv senv r ls (sync_files x0) i then mirrored_node senv fenv r ls i
       else node_at (sync_files x0) (place_at base r ls i))"
    and "is_file (env_fs fenv) (ls ! i) \<Longrightarrow> node_at (sync_files x) (temp_loc (place_at base r ls i)) =
      (if outdated fenv senv r ls (sync_files x0) i then None else node_at (sync_files x0) (temp_loc (place_at base r ls i)))"
    and "FileInfos (peer x) (file_id i) \<noteq> None \<Longrightarrow> is_dir (env_fs fenv) (ls ! i) \<and> outdated fenv senv r ls (sync_files x0) i"
proof -
  note parts = sync_invD [OF inv] and n = all_served [OF inv all]
  show "node_at (sync_files x) (place_at base r ls i) =
      (if outdated fenv senv r ls (sync_files x0) i then mirrored_node senv fenv r ls i
       else node_at (sync_files x0) (place_at base r ls i))"
    using files_okD(4,5) [OF parts(2), of i] i n entry_kind [OF ok i] requested_installed [OF ok inv all i]
    by (cases "is_file (env_fs fenv) (ls ! i)") (auto simp: mirrored_node_def Let_def)
  show "node_at (sync_files x) (temp_loc (place_at base r ls i)) =
      (if outdated fenv senv r ls (sync_files x0) i then None else node_at (sync_files x0) (temp_loc (place_at base r ls i)))"
    if regular: "is_file (env_fs fenv) (ls ! i)"
  proof (cases "outdated fenv senv r ls (sync_files x0) i")
    case True
    with requested_installed [OF ok inv all i regular] show ?thesis by simp
  next
    case False
    have "running x (file_id i) = None"
    proof (rule ccontr)
      assume "running x (file_id i) \<noteq> None"
      then obtain t where "running x (file_id i) = Some t" by blast
      from running_entry [OF parts(5) this] obtain i' ctx where "i' < n" "file_id i = file_id i'"
        "is_file (env_fs fenv) (ls ! i')" "map_of (requested (worker x)) (file_id i) = Some ctx" by metis
      with running_job(1) [OF ok inv, of i' ctx] False file_id_inj [OF ok i, of i'] n show False by simp
    qed
    with parts(3) i regular False show ?thesis by (simp add: unopened_ok_def file_places_def)
  qed
  have "file_id i \<in> set (answered (worker x))" if "\<not> outdated fenv senv r ls (sync_files x0) i"
    using parts(6) i n that by (simp add: answered_ok_def)
  then show "is_dir (env_fs fenv) (ls ! i) \<and> outdated fenv senv r ls (sync_files x0) i"
    if "FileInfos (peer x) (file_id i) \<noteq> None"
    using that parts(7) all requested_installed [OF ok inv all i] entry_kind [OF ok i]
    by (auto simp: peer_ok_def all_done_def split: if_splits)
qed

section \<open>Termination\<close>

definition start_budget :: "bytes \<Rightarrow> nat" where
  "start_budget content = 9 * (length content div FILE_IO_SIZE + 1) + 5 * length content + 9"

definition file_cost :: "files_env \<Rightarrow> loc list \<Rightarrow> (u64 \<rightharpoonup> transfer) \<Rightarrow> nat \<Rightarrow> nat" where
  "file_cost fenv ls run i =
     (if \<not> is_file (env_fs fenv) (ls ! i) then 0
      else
        (case run (file_id i) of
           None \<Rightarrow> Suc (start_budget (contents (node_at (env_fs fenv) (ls ! i))))
         | Some t \<Rightarrow> transfer_budget (contents (node_at (env_fs fenv) (ls ! i))) t))"

definition sync_budget :: "files_env \<Rightarrow> loc list \<Rightarrow> sync \<Rightarrow> nat" where
  "sync_budget fenv ls x = 2 * length (waiting x) + (length (answered (worker x)) - returned x) +
     (\<Sum>i < length ls. file_cost fenv ls (running x) i)"

lemma established_budget [simp]: "transfer_budget content (established content fs c) = start_budget content"
  by (simp add: start_budget_def transfer_budget_def server_budget_def established_def started_def budget_def opened_def
      new_stream_def reads_left_def)

lemma transfer_budget_with_files [simp]: "transfer_budget content (with_files fs t) = transfer_budget content t"
  by (simp add: transfer_budget_def server_budget_def with_files_def)

lemma file_cost_share [simp]: "file_cost fenv ls (share fs run) = file_cost fenv ls run"
  by (rule ext) (simp add: file_cost_def share_def split: option.split)

text \<open>One file gets cheaper, the others cost what they did.\<close>

lemma cheaper:
  assumes ok: "tree_ok fenv senv denv base r ls" and i: "i < length ls"
    and less: "file_cost fenv ls (run(file_id i \<mapsto> t)) i < file_cost fenv ls run i"
  shows "(\<Sum>k < length ls. file_cost fenv ls (run(file_id i \<mapsto> t)) k) < (\<Sum>k < length ls. file_cost fenv ls run k)"
proof -
  have same: "file_cost fenv ls (run(file_id i \<mapsto> t)) k = file_cost fenv ls run k" if "k < length ls" "k \<noteq> i" for k
    using file_id_inj [OF ok that(1) i] that(2) by (simp add: file_cost_def)
  have "file_cost fenv ls (run(file_id i \<mapsto> t)) k \<le> file_cost fenv ls run k" if "k < length ls" for k
    using same [OF that] less by (cases "k = i") simp_all
  then show ?thesis using i less by (intro sum_strict_mono_ex1) auto
qed

lemma answered_grows:
  assumes "QSyncServerWorkerCallback env m w = Inr w'"
  shows "length (answered w') \<le> Suc (length (answered w))"
  using assms
  by (auto simp: QSyncServerWorkerCallback_def request_file_def Let_def split: option.splits if_splits FileType.splits)

lemma sync_budget_step:
  assumes ok: "tree_ok fenv senv denv base r ls" and origin: "origin_ok fenv base r ls x0"
    and inv: "sync_inv fenv senv base r ls x0 n x"
    and orderly: "sync_orderly e x" and step: "sync_step senv denv e x = Some (Inr x')"
  shows "sync_budget fenv ls x' < sync_budget fenv ls x"
proof (cases e)
  case Serve
  with step obtain m ms w where w: "waiting x = m # ms" "QSyncServerWorkerCallback senv m (worker x) = Inr w"
    "x' = x\<lparr>waiting := ms, worker := w, running := share (server_fs w) (running x)\<rparr>"
    by (auto split: list.splits sum.splits)
  with answered_grows [OF w(2)] show ?thesis by (simp add: sync_budget_def)
next
  case Return
  with sync_inv_return [OF inv, of denv "Inr x'"] step obtain c where
    "x' = x\<lparr>peer := c, returned := Suc (returned x)\<rparr>" "returned x < length (answered (worker x))" by auto
  then show ?thesis by (simp add: sync_budget_def)
next
  case (OpenFile k)
  from sync_inv_open [OF ok origin inv, of k "Inr x'"] step OpenFile obtain c i ctx where
    i: "i < n" "k = file_id i" "is_file (env_fs fenv) (ls ! i)" "running x k = None"
      "x' = x\<lparr>peer := c, running := (running x)(k \<mapsto>
         established (contents (node_at (env_fs fenv) (ls ! i))) (sync_files x) ctx)\<rparr>" unfolding Let_def by auto
  from i(1) sync_invD(8) [OF inv] have len: "i < length ls" by simp
  have "file_cost fenv ls (running x') i < file_cost fenv ls (running x) i"
    using i by (simp add: file_cost_def)
  with cheaper [OF ok len] i(2,5) show ?thesis by (simp add: sync_budget_def)
next
  case (Move k s)
  from sync_inv_move [OF ok inv, of k s "Inr x'"] orderly step Move obtain t t' where
    t: "running x k = Some t" "\<And>fs. s \<noteq> Elsewhere fs" "transfer_step [] s t = Some (Inr t')" "x' = after_move k t' x" by auto
  from running_entry [OF sync_invD(5) [OF inv] t(1)] obtain i ctx where i: "i < n" "k = file_id i"
    "is_file (env_fs fenv) (ls ! i)" "map_of (requested (worker x)) k = Some ctx"
    "transfer_inv (file_job fenv base r ls (sync_files x0) i ctx) t" by metis
  have job: "job_ok (file_job fenv base r ls (sync_files x0) i ctx)"
    by (rule running_job(2) [OF ok inv i(1,3)]) (use i(2,4) in simp)
  have ord: "orderly s t" using orderly Move t(1) by simp
  have "transfer_step (job_dest (file_job fenv base r ls (sync_files x0) i ctx)) s t = Some (Inr t')"
    using t(3) transfer_step_place [OF t(2)] by metis
  from transfer_budget_step [OF job i(5) ord this t(2)]
  have "file_cost fenv ls ((running x)(k \<mapsto> t')) i < file_cost fenv ls (running x) i"
    using i(2,3) t(1) by (simp add: file_cost_def)
  then have "file_cost fenv ls ((share (server_files t') (running x))(file_id i \<mapsto> t')) i <
      file_cost fenv ls (share (server_files t') (running x)) i"
    using i(2,3) by (simp add: file_cost_def)
  with cheaper [OF ok _ this] i(1,2) sync_invD(8) [OF inv] t(4) show ?thesis by (simp add: sync_budget_def)
qed

lemma sync_run_budget:
  assumes "sync_run senv denv x0 es x" and "tree_ok fenv senv denv base r ls" and "origin_ok fenv base r ls x0"
    and "sync_inv fenv senv base r ls x0 n0 x0"
  shows "length es + sync_budget fenv ls x \<le> sync_budget fenv ls x0"
  using assms
proof (induction rule: sync_run.induct)
  case sync_start
  then show ?case by simp
next
  case (sync_next es x e x')
  from sync_run_inv [OF sync_next.hyps(1) sync_next.prems] obtain n where "sync_inv fenv senv base r ls x0 n x" by blast
  from sync_budget_step [OF sync_next.prems(1,2) this sync_next.hyps(2,3)] sync_next.IH [OF sync_next.prems] show ?case by simp
qed

section \<open>A run can always be finished\<close>

definition sync_alive :: "sync \<Rightarrow> bool" where
  "sync_alive x \<longleftrightarrow> (\<forall>k t. running x k = Some t \<longrightarrow> both_alive t)"

lemma serve_enabled: "waiting x \<noteq> [] \<Longrightarrow> \<exists>res. sync_step senv denv Serve x = Some res"
  by (cases "waiting x"; cases "QSyncServerWorkerCallback senv (hd (waiting x)) (worker x)") simp_all

lemma return_enabled: "returned x < length (answered (worker x)) \<Longrightarrow> \<exists>res. sync_step senv denv Return x = Some res"
  by (simp add: return_step del: QSyncClientControlStreamCallback.simps split: sum.split)

lemma open_enabled:
  "map_of (requested (worker x)) k = Some ctx \<Longrightarrow> running x k = None \<Longrightarrow> \<exists>res. sync_step senv denv (OpenFile k) x = Some res"
  by (simp add: open_step del: QSyncClientDataStreamCallback.simps split: sum.split prod.split option.split)

text \<open>A transfer that is not at rest has a step that gives up neither end.\<close>

lemma move_enabled:
  assumes ok: "tree_ok fenv senv denv base r ls" and inv: "sync_inv fenv senv base r ls x0 n x"
    and t: "running x k = Some t" "\<not> at_rest [] t" "both_alive t"
  shows "\<exists>e t'. orderly e t \<and> sync_step senv denv (Move k e) x = Some (Inr (after_move k t' x)) \<and> both_alive t'"
proof -
  from running_entry [OF sync_invD(5) [OF inv] t(1)] obtain i ctx where i: "i < n" "k = file_id i"
    "is_file (env_fs fenv) (ls ! i)" "map_of (requested (worker x)) k = Some ctx"
    "transfer_inv (file_job fenv base r ls (sync_files x0) i ctx) t" by metis
  have job: "job_ok (file_job fenv base r ls (sync_files x0) i ctx)"
    by (rule running_job(2) [OF ok inv i(1,3)]) (use i(2,4) in simp)
  from t(2) obtain e out where e: "orderly e t" "transfer_step [] e t = Some out"
    "e \<noteq> OnClient DeleteContext" "e \<noteq> OnServer EndStream" "\<And>fs. e \<noteq> Elsewhere fs"
    by (auto simp: at_rest_def simp del: transfer_step.simps)
  from alive_step [OF job i(5) t(3) e(1) _ e(3,4), of out] e(2) transfer_step_place [OF e(5)] obtain t' where
    t': "out = Inr t'" "both_alive t'" by metis
  have "sync_step senv denv (Move k e) x = Some (Inr (after_move k t' x))"
    using t(1) e(2,5) t'(1) by (cases e) (auto simp: after_move_def simp del: transfer_step.simps)
  with e(1) t'(2) show ?thesis by blast
qed

lemma alive_next:
  assumes ok: "tree_ok fenv senv denv base r ls" and origin: "origin_ok fenv base r ls x0"
    and inv: "sync_inv fenv senv base r ls x0 n x" and alive: "sync_alive x" and todo: "\<not> all_done x"
  shows "\<exists>e x'. sync_orderly e x \<and> sync_step senv denv e x = Some (Inr x') \<and> sync_alive x'"
proof -
  have le: "returned x \<le> length (answered (worker x))" using sync_invD(7) [OF inv] by (simp add: peer_ok_def)
  consider (serve) "waiting x \<noteq> []" | (return) "returned x < length (answered (worker x))"
    | (open_file) k ctx where "map_of (requested (worker x)) k = Some ctx" "running x k = None"
    | (move) k t where "running x k = Some t" "\<not> at_rest [] t"
  proof -
    from todo le consider "waiting x \<noteq> []" | "returned x < length (answered (worker x))"
      | k where "map_of (requested (worker x)) k \<noteq> None"
      "\<nexists>t. running x k = Some t \<and> at_rest [] t \<and> (finished t \<or> both_alive t)" unfolding all_done_def by fastforce
    then show thesis using alive that by cases (auto simp: sync_alive_def, fastforce+)
  qed
  then show ?thesis
  proof cases
    case serve
    then obtain res where step: "sync_step senv denv Serve x = Some res" using serve_enabled by blast
    with sync_inv_serve [OF ok origin inv] obtain x' where x': "res = Inr x'" by blast
    have "sync_alive x'"
      using alive step x' by (auto simp: sync_alive_def with_files_def split: list.splits sum.splits)
    with step x' show ?thesis by (metis sync_orderly.simps(2))
  next
    case return
    then obtain res where step: "sync_step senv denv Return x = Some res" using return_enabled by blast
    from sync_inv_return [OF inv step] obtain c where "res = Inr (x\<lparr>peer := c, returned := Suc (returned x)\<rparr>)" by blast
    moreover have "sync_alive (x\<lparr>peer := c, returned := Suc (returned x)\<rparr>)" using alive by (simp add: sync_alive_def)
    ultimately show ?thesis using step by (metis sync_orderly.simps(3))
  next
    case open_file
    then obtain res where res: "sync_step senv denv (OpenFile k) x = Some res" using open_enabled by blast
    from sync_inv_open [OF ok origin inv res] obtain c i ctx' where x': "res = Inr (x\<lparr>peer := c, running := (running x)(k \<mapsto>
        established (contents (node_at (env_fs fenv) (ls ! i))) (sync_files x) ctx')\<rparr>)" unfolding Let_def by blast
    have "sync_alive (x\<lparr>peer := c, running := (running x)(k \<mapsto>
        established (contents (node_at (env_fs fenv) (ls ! i))) (sync_files x) ctx')\<rparr>)"
      using alive by (auto simp: sync_alive_def established_def opened_def started_def)
    with res x' show ?thesis by (metis sync_orderly.simps(4))
  next
    case move
    have "both_alive t" using alive move(1) by (simp add: sync_alive_def)
    from move_enabled [OF ok inv move this] obtain e t' where e: "orderly e t"
      "sync_step senv denv (Move k e) x = Some (Inr (after_move k t' x))" "both_alive t'" by blast
    have "sync_alive (after_move k t' x)" using alive e(3) by (auto simp: sync_alive_def with_files_def)
    moreover have "sync_orderly (Move k e) x" using move(1) e(1) by simp
    ultimately show ?thesis using e(2) by blast
  qed
qed

lemma sync_continues:
  assumes "sync_run senv denv x0 es x" and ok: "tree_ok fenv senv denv base r ls" and origin: "origin_ok fenv base r ls x0"
    and start: "sync_inv fenv senv base r ls x0 n0 x0" and "sync_alive x"
  shows "\<exists>es' x'. sync_run senv denv x0 (es @ es') x' \<and> all_done x' \<and> sync_alive x'"
  using assms(1,5)
proof (induction "sync_budget fenv ls x" arbitrary: es x rule: less_induct)
  case less
  from sync_run_inv [OF less.prems(1) ok origin start] obtain n where inv: "sync_inv fenv senv base r ls x0 n x" by blast
  show ?case
  proof (cases "all_done x")
    case True
    with less.prems show ?thesis by (intro exI [of _ "[]"] exI [of _ x]) simp
  next
    case False
    from alive_next [OF ok origin inv less.prems(2) False] obtain e x1 where
      e: "sync_orderly e x" "sync_step senv denv e x = Some (Inr x1)" "sync_alive x1" by blast
    from less.hyps [OF sync_budget_step [OF ok origin inv e(1,2)] sync_next [OF less.prems(1) e(1,2)] e(3)] obtain es' x' where
      "sync_run senv denv x0 ((es @ [e]) @ es') x'" "all_done x'" "sync_alive x'" by blast
    then show ?thesis by (intro exI [of _ "e # es'"] exI [of _ x']) simp
  qed
qed

section \<open>The tree by its locations\<close>

text \<open>
  The same without the list of the search: what the theorems ask of the client's tree below \<open>r\<close> and of the
  server's directory \<open>base\<close>. The times are such that a message can carry them; no entry beside a file is
  called like it with \<open>.qsync\<close> behind; what the server already has is of the same kinds, and a temporary file
  that was left behind is a regular file.
\<close>

abbreviation reported_at :: "files_env \<Rightarrow> loc \<Rightarrow> loc \<Rightarrow> node \<Rightarrow> bool" where
  "reported_at fenv r l n \<equiv> prefix r l \<and> node_at (env_fs fenv) l = Some n \<and> reported_type n \<noteq> None"

definition source_ok :: "files_env \<Rightarrow> loc \<Rightarrow> bool" where
  "source_ok fenv r \<longleftrightarrow>
     plain_fs (env_fs fenv) \<and> capnp_ok (env_capnp fenv) \<and> clock_ok (env_clock fenv) \<and> r \<noteq> [] \<and> is_dir (env_fs fenv) r \<and>
     length (nodes (env_fs fenv)) < 2 ^ 64 \<and>
     (\<forall>l n. reported_at fenv r l n \<longrightarrow> times_fit (env_clock fenv) n \<and>
        0 \<le> time_of n + clk_epoch (env_clock fenv) * clk_rate (env_clock fenv)) \<and>
     (\<forall>l. prefix r l \<and> is_file (env_fs fenv) l \<longrightarrow> node_at (env_fs fenv) (temp_loc l) = None)"

definition target_ok :: "files_env \<Rightarrow> server_env \<Rightarrow> loc \<Rightarrow> loc \<Rightarrow> server_state \<Rightarrow> bool" where
  "target_ok fenv senv base r s \<longleftrightarrow>
     server_ok senv \<and> BasePath senv = abs_path base \<and> proper base \<and> server_capnp senv = env_capnp fenv \<and>
     server_clock senv = env_clock fenv \<and> plain_fs (server_fs s) \<and> no_write_faults (server_fs s) \<and>
     is_dir (server_fs s) base \<and> requested s = [] \<and> answered s = [] \<and>
     (\<forall>l n n'. reported_at fenv r l n \<and> node_at (server_fs s) (mirrored base r l) = Some n' \<longrightarrow>
        reported_type n' = reported_type n) \<and>
     (\<forall>l n'. prefix r l \<and> is_file (env_fs fenv) l \<and> node_at (server_fs s) (temp_loc (mirrored base r l)) = Some n' \<longrightarrow>
        type_of n' = FtRegular)"

abbreviation client_opens :: "files_env \<Rightarrow> data_env \<Rightarrow> loc \<Rightarrow> bool" where
  "client_opens fenv denv r \<equiv>
     path_of (SyncPath denv) = abs_path r \<and> data_fs denv = env_fs fenv \<and> data_capnp denv = env_capnp fenv"

definition whole_seconds :: "clock \<Rightarrow> int \<Rightarrow> int" where
  "whole_seconds clk t = t - (t + clk_epoch clk * clk_rate clk) mod clk_rate clk"

fun copied :: "clock \<Rightarrow> node \<Rightarrow> node" where
  "copied clk (Regular c t) = Regular c (whole_seconds clk t)"
| "copied clk (Directory t) = Directory (whole_seconds clk t)"
| "copied clk n = n"

text \<open>What a synchronisation leaves at a place where \<open>old\<close> was, for the client's node \<open>n\<close>.\<close>

definition synced :: "clock \<Rightarrow> node \<Rightarrow> node option \<Rightarrow> node option" where
  "synced clk n old = (if up_to_date clk n old then old else Some (copied clk n))"

lemma source_okD:
  assumes "source_ok fenv r"
  shows "plain_fs (env_fs fenv)" and "clock_ok (env_clock fenv)" and "r \<noteq> []" and "is_dir (env_fs fenv) r"
    and "length (nodes (env_fs fenv)) < 2 ^ 64"
    and "reported_at fenv r l n \<Longrightarrow> times_fit (env_clock fenv) n"
    and "reported_at fenv r l n \<Longrightarrow> 0 \<le> time_of n + clk_epoch (env_clock fenv) * clk_rate (env_clock fenv)"
  using assms unfolding source_ok_def by blast+

lemma target_okD:
  assumes "target_ok fenv senv base r s"
  shows "plain_fs (server_fs s)" and "proper base" and "BasePath senv = abs_path base" and "server_clock senv = env_clock fenv"
    and "reported_at fenv r l n \<Longrightarrow> node_at (server_fs s) (mirrored base r l) = Some n' \<Longrightarrow> reported_type n' = reported_type n"
  using assms unfolding target_ok_def by blast+

lemma source_tree_ok:
  assumes source: "source_ok fenv r" and target: "target_ok fenv senv base r s" and opens: "client_opens fenv denv r"
    and ls: "distinct ls" "set ls = {l. prefix r l \<and> (\<exists>n. node_at (env_fs fenv) l = Some n \<and> reported_type n \<noteq> None)}"
      "parents_first {butlast r} ls"
  shows "tree_ok fenv senv denv base r ls"
proof -
  have "proper r" using source_okD(1,4) [OF source] by (auto simp: is_dir_def plain_fs_def dest: fs_wf_node)
  moreover have "length ls \<le> length (nodes (env_fs fenv))" by (rule length_le_nodes [OF ls(1)]) (auto simp: ls(2))
  moreover have "temp_loc l \<notin> set ls" if "l \<in> set ls" "is_file (env_fs fenv) l" for l
    using that source by (auto simp: ls(2) source_ok_def)
  moreover have "length c < 2 ^ 64" if "prefix r l" "node_at (env_fs fenv) l = Some (Regular c t)" for l c t
    using source_okD(6) [OF source, of l "Regular c t"] that by (simp add: times_fit_def)
  ultimately show ?thesis
    using source target opens ls unfolding tree_ok_def source_ok_def target_ok_def by auto
qed

lemma target_kinds_ok:
  assumes target: "target_ok fenv senv base r s"
    and ls: "set ls = {l. prefix r l \<and> (\<exists>n. node_at (env_fs fenv) l = Some n \<and> reported_type n \<noteq> None)}"
    and i: "i < length ls"
  shows "kinds_ok fenv base r ls (server_fs s) i"
proof -
  from nth_mem [OF i] have "prefix r (ls ! i)" "\<exists>n. node_at (env_fs fenv) (ls ! i) = Some n \<and> reported_type n \<noteq> None"
    by (simp_all add: ls)
  with target show ?thesis unfolding kinds_ok_def target_ok_def place_at_def by fastforce
qed

text \<open>An info asks for an update exactly when the entry is not up to date.\<close>

lemma location_update_iff:
  assumes src: "plain_fs (env_fs fenv)" "reported_at fenv r l n" "r \<noteq> []" and fit: "times_fit (env_clock fenv) n"
    and base: "proper base" and dst: "plain_fs sfs"
    and kinds: "\<And>n'. node_at sfs (mirrored base r l) = Some n' \<Longrightarrow> reported_type n' = reported_type n"
  shows "DoesFileNeedUpdate (env_clock fenv) sfs (abs_path base) (location_info fenv (butlast r) l k) \<longleftrightarrow>
    \<not> up_to_date (env_clock fenv) n (node_at sfs (mirrored base r l))"
proof
  assume "DoesFileNeedUpdate (env_clock fenv) sfs (abs_path base) (location_info fenv (butlast r) l k)"
  with location_up_to_date [OF src(1) _ _ _ src(3) fit base dst] src(2)
  show "\<not> up_to_date (env_clock fenv) n (node_at sfs (mirrored base r l))" by blast
next
  let ?File = "location_info fenv (butlast r) l k"
  assume old: "\<not> up_to_date (env_clock fenv) n (node_at sfs (mirrored base r l))"
  obtain ms where ms: "l = butlast r @ ms" "ms \<noteq> []" using mirrored_simps(2) [OF src(3)] src(2) by blast
  have D: "mirrored base r l = base @ ms" using mirrored_simps(1) [OF src(3)] ms(1) by simp
  have proper: "proper (butlast r @ ms)" using src(1,2) ms(1) by (auto simp: plain_fs_def dest: fs_wf_node)
  then have proper': "proper (base @ ms)" using base by simp
  have "path_append (abs_path base) (path_of (c_str (getPath ?File))) = abs_path (base @ ms)"
    using reported_path_place [OF proper base ms(2), of fenv n k] src(2) ms(1) by simp
  note update = plain_update [OF dst proper' this, of "env_clock fenv"]
  have time: "message_time ?File = to_utc_seconds (env_clock fenv) (time_of n)"
    using reported_time [OF _ src(1)] src(2) fit by (simp add: times_fit_def)
  have type: "getType ?File = the (reported_type n)" and size: "getSize ?File = of_nat (node_size (env_fs fenv) n)"
    using location_info_sel(2,4) [of fenv l n "butlast r" k] src(2) by simp_all
  show "DoesFileNeedUpdate (env_clock fenv) sfs (abs_path base) ?File"
  proof (cases "node_at sfs (base @ ms)")
    case None
    with update show ?thesis by simp
  next
    case (Some n')
    then have same: "reported_type n' = reported_type n" using kinds by (simp add: D)
    have "unat (of_nat (length c) :: u64) = length c" if "n = Regular c t" for c t
      using fit that by (simp add: times_fit_def unat_of_nat take_bit_nat_eq_self)
    with update old Some same time type size src(2) show ?thesis
      by (cases n; cases n') (auto simp: up_to_date_def D)
  qed
qed

text \<open>The time the server gives to an entry, and what it has given asks for no update.\<close>

lemma mirrored_node_copied:
  assumes source: "source_ok fenv r" and target: "target_ok fenv senv base r s"
    and l: "ls ! i = l" "reported_at fenv r l n"
  shows "mirrored_node senv fenv r ls i = Some (copied (env_clock fenv) n)"
proof -
  note clocks = source_okD(1,2) [OF source] source_okD(6,7) [OF source l(2)] target_okD(4) [OF target]
  have "new_file_time senv (info_at fenv r ls i) = whole_seconds (env_clock fenv) (time_of n)"
    using reported_time [of fenv l n "butlast r" "file_id i"] from_to_utc_seconds [OF clocks(2,4)] clocks(1,3) l(2)
    by (simp add: new_file_time_def info_at_def l(1) clocks(5) whole_seconds_def times_fit_def)
  with l show ?thesis by (cases n) (auto simp: mirrored_node_def is_file_def Let_def)
qed

lemma copied_kind [simp]: "reported_type (copied clk n) = reported_type n"
  by (cases n) simp_all

lemma copied_up_to_date:
  assumes "clock_ok clk" and "0 \<le> time_of n + clk_epoch clk * clk_rate clk"
  shows "up_to_date clk n (Some (copied clk n))"
  using from_to_utc_seconds [OF assms] by (cases n) (simp_all add: up_to_date_def whole_seconds_def)

lemma synced_up_to_date:
  assumes source: "source_ok fenv r" and target: "target_ok fenv senv base r s" and l: "reported_at fenv r l n"
    and fs: "plain_fs fs" "node_at fs (mirrored base r l) = synced (env_clock fenv) n (node_at (server_fs s) (mirrored base r l))"
  shows "\<not> DoesFileNeedUpdate (server_clock senv) fs (BasePath senv) (location_info fenv (butlast r) l i)"
proof -
  have "up_to_date (env_clock fenv) n (node_at fs (mirrored base r l))"
    using copied_up_to_date [OF source_okD(2) [OF source] source_okD(7) [OF source l]] by (simp add: fs(2) synced_def)
  with location_up_to_date [OF source_okD(1) [OF source] _ _ _ source_okD(3) [OF source] source_okD(6) [OF source l]
      target_okD(2) [OF target] fs(1)] l
  show ?thesis unfolding target_okD(3,4) [OF target] by blast
qed

section \<open>The start after the search\<close>

text \<open>The messages are those the server has taken from the control stream, the client is the one the search has left.\<close>

lemma search_begins_sync:
  assumes source: "source_ok fenv r" and target: "target_ok fenv senv base r s" and opens: "client_opens fenv denv r"
    and short: "\<forall>l k. node_at (env_fs fenv) l \<noteq> None \<longrightarrow>
      length (serialize (env_capnp fenv) (location_info fenv (butlast r) l k)) < 2 ^ 32"
    and client: "\<not> malloc_fails cenv" "\<forall>i. \<not> send_fails cenv i"
    and heap: "heap_ok h" "never_fails h"
    and found: "FindFiles fenv (on_file_found cenv) (SyncPath denv) (0, init_client) = Some (ok, (k, c))"
    and received: "concat bs = concat (control_sent c)" "run_ok (receive_one h) receive_ok init_control bs"
      "run_reader (receive_one h) init_control bs = Some (cs, ms)"
  obtains ls where "distinct ls"
    "set ls = {l. prefix r l \<and> (\<exists>n. node_at (env_fs fenv) l = Some n \<and> reported_type n \<noteq> None)}"
    "tree_ok fenv senv denv base r ls" "origin_ok fenv base r ls (sync_from ms c s)"
    "sync_inv fenv senv base r ls (sync_from ms c s) 0 (sync_from ms c s)"
    "\<forall>k m. FileInfos c k = Some m \<longrightarrow> (\<exists>i < length ls. k = file_id i \<and> m = message_at fenv r ls i)" "length ms = length ls"
proof -
  have fs: "plain_fs (env_fs fenv)" "r \<noteq> []" "is_dir (env_fs fenv) r" "length (nodes (env_fs fenv)) < 2 ^ 64"
    using source by (simp_all add: source_ok_def)
  from search_reports_tree [OF fs(1) _ fs(2,3), of "SyncPath denv" 0] opens obtain ls where ls: "distinct ls"
    "set ls = {l. prefix r l \<and> (\<exists>n. node_at (env_fs fenv) l = Some n \<and> reported_type n \<noteq> None)}"
    "parents_first {butlast r} ls"
    "FindFiles fenv record_report (SyncPath denv) (0, []) = Some (True, (of_nat (length ls), location_reports fenv (butlast r) 0 ls))"
    by auto
  have log: "location_reports fenv (butlast r) 0 ls = map (\<lambda>i. (file_id i, message_at fenv r ls i)) [0..<length ls]"
    by (simp add: location_reports_map message_at_def info_at_def file_id_def)
  from infos_delivered [OF ls(1,2,4) fs(4) short client heap] obtain c' where c':
    "FindFiles fenv (on_file_found cenv) (SyncPath denv) (0, init_client) = Some (True, (of_nat (length ls), c'))"
    "control_reader c' = init_reader" "FileInfos c' = map_of (location_reports fenv (butlast r) 0 ls)"
    "\<forall>i < length ls. FileInfos c' (of_nat (Suc i)) =
       Some (serialize (env_capnp fenv) (location_info fenv (butlast r) (ls ! i) (of_nat (Suc i))))"
    "\<And>bs. concat bs = concat (control_sent c') \<Longrightarrow> run_ok (receive_one h) receive_ok init_control bs \<Longrightarrow>
       \<exists>s. run_reader (receive_one h) init_control bs = Some (s, map snd (location_reports fenv (butlast r) 0 ls)) \<and> pending s = []"
    by blast
  have c: "c' = c" using found c'(1) by simp
  from c'(5) [OF received(1,2) [folded c]] received(3) have ms: "ms = map (message_at fenv r ls) [0..<length ls]"
    by (auto simp: log)
  have "\<exists>i < length ls. k = file_id i \<and> m = message_at fenv r ls i" if "FileInfos c k = Some m" for k m
    using map_of_SomeD that c'(3) by (fastforce simp: c log)
  then have known: "\<forall>k m. FileInfos c k = Some m \<longrightarrow> (\<exists>i < length ls. k = file_id i \<and> m = message_at fenv r ls i)" by blast
  have ok: "tree_ok fenv senv denv base r ls" by (rule source_tree_ok [OF source target opens ls(1-3)])
  have origin: "origin_ok fenv base r ls (sync_from ms c s)"
    using target_kinds_ok [OF target ls(2)] target_okD(1) [OF target] c'(4)
    by (simp add: origin_ok_def sync_from_def c message_at_def info_at_def file_id_def)
  then have "begin_ok fenv base r ls ms c s"
    using target c'(2) by (simp add: begin_ok_def target_ok_def c ms)
  from that [OF ls(1,2) ok origin sync_inv_start [OF this] known] show thesis by (simp add: ms)
qed

section \<open>What a run has done to the two sides\<close>

text \<open>The places of the tree: those of its entries, and those of the temporary files of its files.\<close>

definition tree_places :: "files_env \<Rightarrow> loc \<Rightarrow> loc \<Rightarrow> loc set" where
  "tree_places fenv base r = {mirrored base r l | l n. reported_at fenv r l n} \<union>
     {temp_loc (mirrored base r l) | l. prefix r l \<and> is_file (env_fs fenv) l}"

lemma entry_of:
  assumes "reported_at fenv r l n"
    and "set ls = {l. prefix r l \<and> (\<exists>n. node_at (env_fs fenv) l = Some n \<and> reported_type n \<noteq> None)}"
  obtains i where "i < length ls" "ls ! i = l" "place_at base r ls i = mirrored base r l"
proof -
  from assms have "l \<in> set ls" by blast
  with that show thesis by (auto simp: in_set_conv_nth place_at_def)
qed

lemma outdated_location:
  assumes source: "source_ok fenv r" and target: "target_ok fenv senv base r s"
    and l: "ls ! i = l" "reported_at fenv r l n"
  shows "outdated fenv senv r ls (server_fs s) i \<longleftrightarrow> \<not> up_to_date (env_clock fenv) n (node_at (server_fs s) (mirrored base r l))"
  unfolding outdated_def info_at_def l(1) target_okD(3,4) [OF target]
  by (rule location_update_iff [OF source_okD(1) [OF source] l(2) source_okD(3) [OF source] source_okD(6) [OF source l(2)]
      target_okD(2,1) [OF target] target_okD(5) [OF target l(2)]])

lemma run_files_partial:
  assumes source: "source_ok fenv r" and target: "target_ok fenv senv base r s"
    and ls: "set ls = {l. prefix r l \<and> (\<exists>n. node_at (env_fs fenv) l = Some n \<and> reported_type n \<noteq> None)}"
    and ok: "tree_ok fenv senv denv base r ls" and inv: "sync_inv fenv senv base r ls (sync_from ms c s) n x"
    and l: "prefix r l" "node_at (env_fs fenv) l = Some (Regular content t)"
  shows "node_at (sync_files x) (mirrored base r l) = node_at (server_fs s) (mirrored base r l) \<or>
    node_at (sync_files x) (mirrored base r l) =
      synced (env_clock fenv) (Regular content t) (node_at (server_fs s) (mirrored base r l))"
proof -
  have l': "reported_at fenv r l (Regular content t)" using l by simp
  from entry_of [OF this ls] obtain i where i: "i < length ls" "ls ! i = l" "place_at base r ls i = mirrored base r l" by metis
  have "is_file (env_fs fenv) (ls ! i)" using l by (simp add: i(2) is_file_def)
  from file_all_or_nothing [OF ok inv i(1) this] outdated_location [OF source target i(2) l']
    mirrored_node_copied [OF source target i(2) l']
  show ?thesis by (auto simp: i(3) sync_from_def synced_def)
qed

lemma entry_in_places:
  assumes "set ls = {l. prefix r l \<and> (\<exists>n. node_at (env_fs fenv) l = Some n \<and> reported_type n \<noteq> None)}"
    and "i < length ls" and "l' \<in> entry_places fenv base r ls i"
  shows "l' \<in> tree_places fenv base r"
proof -
  from assms(1) nth_mem [OF assms(2)] obtain n where "reported_at fenv r (ls ! i) n" by blast
  with assms(3) show ?thesis
    by (auto simp: entry_places_def file_places_def place_at_def tree_places_def split: if_splits)
qed

lemma run_outside:
  assumes inv: "sync_inv fenv senv base r ls (sync_from ms c s) n x"
    and ls: "set ls = {l. prefix r l \<and> (\<exists>n. node_at (env_fs fenv) l = Some n \<and> reported_type n \<noteq> None)}"
    and l: "l' \<notin> tree_places fenv base r"
  shows "node_at (sync_files x) l' = node_at (server_fs s) l'"
  using files_okD(6) [OF sync_invD(2) [OF inv], of l'] entry_in_places [OF ls, of _ l' base] l by (auto simp: sync_from_def)

text \<open>The end of a run.\<close>

lemma run_complete:
  assumes source: "source_ok fenv r" and target: "target_ok fenv senv base r s"
    and ls: "set ls = {l. prefix r l \<and> (\<exists>n. node_at (env_fs fenv) l = Some n \<and> reported_type n \<noteq> None)}"
    and ok: "tree_ok fenv senv denv base r ls" and inv: "sync_inv fenv senv base r ls (sync_from ms c s) n x"
    and all: "all_done x" and l: "reported_at fenv r l m"
  shows "node_at (sync_files x) (mirrored base r l) = synced (env_clock fenv) m (node_at (server_fs s) (mirrored base r l))"
    and "is_file (env_fs fenv) l \<Longrightarrow> node_at (sync_files x) (temp_loc (mirrored base r l)) =
      (if up_to_date (env_clock fenv) m (node_at (server_fs s) (mirrored base r l))
       then node_at (server_fs s) (temp_loc (mirrored base r l)) else None)"
proof -
  from entry_of [OF l ls] obtain i where i: "i < length ls" "ls ! i = l" "place_at base r ls i = mirrored base r l" by metis
  note finished = tree_complete [OF ok inv all i(1)] and out = outdated_location [OF source target i(2) l]
  show "node_at (sync_files x) (mirrored base r l) = synced (env_clock fenv) m (node_at (server_fs s) (mirrored base r l))"
    using finished(1) out mirrored_node_copied [OF source target i(2) l] by (simp add: i(3) sync_from_def synced_def)
  show "node_at (sync_files x) (temp_loc (mirrored base r l)) =
      (if up_to_date (env_clock fenv) m (node_at (server_fs s) (mirrored base r l))
       then node_at (server_fs s) (temp_loc (mirrored base r l)) else None)" if "is_file (env_fs fenv) l"
    using finished(2) out that by (simp add: i(2,3) sync_from_def)
qed

lemma run_forgotten:
  assumes source: "source_ok fenv r" and target: "target_ok fenv senv base r s"
    and ls: "set ls = {l. prefix r l \<and> (\<exists>n. node_at (env_fs fenv) l = Some n \<and> reported_type n \<noteq> None)}"
    and ok: "tree_ok fenv senv denv base r ls" and inv: "sync_inv fenv senv base r ls (sync_from ms c s) n x"
    and all: "all_done x"
    and known: "\<forall>k m. FileInfos c k = Some m \<longrightarrow> (\<exists>i < length ls. k = file_id i \<and> m = message_at fenv r ls i)"
    and kept: "FileInfos (peer x) k = Some m"
  shows "\<exists>l t. prefix r l \<and> node_at (env_fs fenv) l = Some (Directory t) \<and>
    \<not> up_to_date (env_clock fenv) (Directory t) (node_at (server_fs s) (mirrored base r l)) \<and>
    m = serialize (env_capnp fenv) (location_info fenv (butlast r) l k)"
proof -
  from sync_invD(7) [OF inv] kept have "FileInfos c k = Some m" by (auto simp: peer_ok_def sync_from_def split: if_splits)
  with known obtain i where i: "i < length ls" "k = file_id i" "m = message_at fenv r ls i" by blast
  from tree_complete(3) [OF ok inv all i(1)] kept i(2)
  have dir: "is_dir (env_fs fenv) (ls ! i)" "outdated fenv senv r ls (server_fs s) i" by (simp_all add: sync_from_def)
  then obtain t where t: "node_at (env_fs fenv) (ls ! i) = Some (Directory t)" by (auto simp: is_dir_def)
  have "prefix r (ls ! i)" using nth_mem [OF i(1)] by (simp add: ls)
  with t outdated_location [OF source target refl, of ls i "Directory t"] dir(2) i(2,3) show ?thesis
    by (intro exI [of _ "ls ! i"] exI [of _ t]) (simp add: message_at_def info_at_def)
qed

text \<open>The number of steps, by the files.\<close>

lemma start_cost:
  assumes ls: "distinct ls" "set ls = {l. prefix r l \<and> (\<exists>n. node_at (env_fs fenv) l = Some n \<and> reported_type n \<noteq> None)}"
    and ms: "length ms = length ls" and s: "answered s = []"
  shows "sync_budget fenv ls (sync_from ms c s) = 2 * card (set ls) +
    (\<Sum>l \<in> {l. prefix r l \<and> is_file (env_fs fenv) l}. Suc (start_budget (contents (node_at (env_fs fenv) l))))"
proof -
  let ?cost = "\<lambda>l. if is_file (env_fs fenv) l then Suc (start_budget (contents (node_at (env_fs fenv) l))) else 0"
  have "(\<Sum>i < length ls. file_cost fenv ls Map.empty i) = (\<Sum>i < length ls. ?cost (ls ! i))"
    by (intro sum.cong) (simp_all add: file_cost_def)
  also have "\<dots> = (\<Sum>l \<in> set ls. ?cost l)"
    by (rule sum.reindex_bij_betw) (use bij_betw_nth [OF ls(1), of "{..<length ls}"] in simp)
  also have "\<dots> = (\<Sum>l \<in> {l \<in> set ls. is_file (env_fs fenv) l}. Suc (start_budget (contents (node_at (env_fs fenv) l))))"
    by (simp add: sum.inter_filter)
  also have "{l \<in> set ls. is_file (env_fs fenv) l} = {l. prefix r l \<and> is_file (env_fs fenv) l}"
    by (auto simp: ls(2) is_file_def)
  finally show ?thesis using ls(1) ms s by (simp add: sync_budget_def sync_from_def distinct_card)
qed

text \<open>On an empty directory nothing is left below it but the copies.\<close>

definition empty_below :: "loc \<Rightarrow> fsys \<Rightarrow> bool" where
  "empty_below base fs \<longleftrightarrow> (\<forall>l. prefix base l \<and> l \<noteq> base \<longrightarrow> node_at fs l = None)"

lemma mirrored_below:
  assumes "r \<noteq> []" and "prefix r l"
  shows "prefix base (mirrored base r l)" and "mirrored base r l \<noteq> base"
proof -
  from mirrored_simps(2) [OF assms] obtain ms where "l = butlast r @ ms" "ms \<noteq> []" by blast
  with mirrored_simps(1) [OF assms(1), of base ms] show "prefix base (mirrored base r l)" "mirrored base r l \<noteq> base" by simp_all
qed

end
