(* ===== verification/Auth.thy ===== *)
theory Auth
  imports Prelude
begin

text \<open>
  \<open>auth.cpp\<close>: the certificate a party makes for itself, signed with a key derived from the shared
  password (\<open>QcGenerateSigningKey\<close>, \<open>QcGenerateAuthCertificate\<close>), and the check of the peer's
  certificate (\<open>QcVerifyCertificate\<close>). OpenSSL is a parameter: which of its calls fail, and the
  functions it computes, of which \<open>openssl_ok\<close> states the documented laws. The objects the code
  allocates and frees are recorded in a ledger.
\<close>

section \<open>OpenSSL\<close>

definition ED448_KEYLEN :: nat where "ED448_KEYLEN = 57"
definition PBKDFIterations :: nat where "PBKDFIterations = 15000"
definition SigningSaltLength :: nat where "SigningSaltLength = 64"
definition CertName :: string where "CertName = ''quiccat''"

record x509 =
  x_version :: int
  x_serial :: int
  x_not_before :: int
  x_not_after :: int
  x_pubkey :: bytes
  x_subject :: "string list"
  x_issuer :: "string list"
  x_signature :: "bytes option"

definition new_x509 :: x509 where
  "new_x509 = \<lparr>x_version = 0, x_serial = 0, x_not_before = 0, x_not_after = 0, x_pubkey = [], x_subject = [],
     x_issuer = [], x_signature = None\<rparr>"

datatype ssl_call =
    Call_PBKDF2 | Call_new_raw_private_key | Call_CTX_new_id | Call_keygen_init | Call_keygen | Call_RAND_bytes
  | Call_X509_new | Call_set_version | Call_bin2bn | Call_BN_to_ASN1 | Call_set_serialNumber | Call_set_pubkey
  | Call_get_subject_name | Call_add_entry | Call_set_issuer_name | Call_sign | Call_PKCS12_create
  | Call_new_buffer | Call_ASN1_to_BN

text \<open>
  \<open>i2d_PKCS12\<close> is called twice and its two results are compared, so both are parameters;
  \<open>X509_verify\<close> gives 1 for a good signature, 0 or a negative number otherwise.
\<close>

record openssl =
  fails :: "ssl_call \<Rightarrow> bool"
  rand_bytes :: bytes
  generated_key :: bytes
  gmtime :: int
  pbkdf2_sha512 :: "string \<Rightarrow> bytes \<Rightarrow> nat \<Rightarrow> nat \<Rightarrow> bytes"
  public_key :: "bytes \<Rightarrow> bytes"
  sign_digest :: "bytes \<Rightarrow> x509 \<Rightarrow> bytes"
  X509_verify :: "x509 \<Rightarrow> bytes \<Rightarrow> int"
  pkcs12_der :: "bytes \<Rightarrow> x509 \<Rightarrow> bytes"
  i2d_size :: int
  i2d_export :: int

text \<open>The laws: sizes, and that a signature verifies with the key that made it.\<close>

definition openssl_ok :: "openssl \<Rightarrow> bool" where
  "openssl_ok ssl \<longleftrightarrow>
     length (rand_bytes ssl) = SigningSaltLength \<and>
     (\<forall>x k. x_signature x = Some (sign_digest ssl k (x\<lparr>x_signature := None\<rparr>)) \<longrightarrow> X509_verify ssl x k = 1)"

text \<open>Big-endian numbers: \<open>BN_bin2bn\<close>, \<open>BN_num_bytes\<close> and \<open>BN_bn2binpad\<close>, which ignore the sign.\<close>

definition BN_bin2bn :: "bytes \<Rightarrow> int" where
  "BN_bin2bn bs = int (le_nat (rev bs))"

definition fits_bytes :: "int \<Rightarrow> nat \<Rightarrow> bool" where
  "fits_bytes n k \<longleftrightarrow> nat \<bar>n\<bar> < 256 ^ k"

definition BN_bn2binpad :: "int \<Rightarrow> nat \<Rightarrow> bytes" where
  "BN_bn2binpad n k = rev (nat_le k (nat \<bar>n\<bar>))"

lemma bn_roundtrip: "length bs = k \<Longrightarrow> BN_bn2binpad (BN_bin2bn bs) k = bs \<and> fits_bytes (BN_bin2bn bs) k"
  using le_nat_bound [of "rev bs"] by (simp add: BN_bn2binpad_def BN_bin2bn_def fits_bytes_def)

section \<open>The signing key\<close>

text \<open>The key, if both calls succeed, and what is left in \<open>SigningKeyBytes\<close>.\<close>

definition QcGenerateSigningKey :: "openssl \<Rightarrow> string \<Rightarrow> bytes \<Rightarrow> bytes option \<times> bytes" where
  "QcGenerateSigningKey ssl Password Salt =
     (let SigningKey =
        (if fails ssl Call_PBKDF2 then None
         else
           let SigningKeyBytes = pbkdf2_sha512 ssl Password Salt PBKDFIterations ED448_KEYLEN
           in if fails ssl Call_new_raw_private_key then None else Some SigningKeyBytes)
      in (SigningKey, replicate ED448_KEYLEN 0))"

section \<open>Making a certificate\<close>

datatype ssl_object =
    KeyContextObj | PrivateKeyObj | CertObj | SaltBnObj | SerialNumberObj | SigningKeyObj | NewPkcs12Obj
  | Pkcs12BufferObj

datatype ssl_event = Alloc ssl_object | Free ssl_object

text \<open>
  The locals of the function, the two output parameters, and the ledger. A pointer that may be null
  is an option.
\<close>

record gen_locals =
  KeyContext :: bool
  PrivateKey :: "bytes option"
  Salt :: bytes
  Cert :: "x509 option"
  SaltBn :: "int option"
  SerialNumber :: "int option"
  SigningKey :: "bytes option"
  NewPkcs12 :: "bytes option"
  Pkcs12Buffer :: "bytes option"
  Pkcs12 :: "bytes option"
  Pkcs12Length :: nat
  ledger :: "ssl_event list"

definition init_locals :: gen_locals where
  "init_locals = \<lparr>KeyContext = False, PrivateKey = None, Salt = [], Cert = None, SaltBn = None, SerialNumber = None,
     SigningKey = None, NewPkcs12 = None, Pkcs12Buffer = None, Pkcs12 = None, Pkcs12Length = 0, ledger = []\<rparr>"

type_synonym gen_step = "gen_locals attempt"

definition call_step :: "openssl \<Rightarrow> ssl_call \<Rightarrow> (gen_locals \<Rightarrow> gen_locals) \<Rightarrow> gen_step" where
  "call_step ssl c f s = (if fails ssl c then (False, s) else (True, f s))"

definition log_event :: "ssl_event \<Rightarrow> gen_locals \<Rightarrow> gen_locals" where
  "log_event e s = s\<lparr>ledger := ledger s @ [e]\<rparr>"

definition on_cert :: "(x509 \<Rightarrow> x509) \<Rightarrow> gen_locals \<Rightarrow> gen_locals" where
  "on_cert f s = s\<lparr>Cert := map_option f (Cert s)\<rparr>"

definition signing_step :: "openssl \<Rightarrow> string \<Rightarrow> gen_step" where
  "signing_step ssl Password s =
     (case QcGenerateSigningKey ssl Password (Salt s) of
        (None, _) \<Rightarrow> (False, s)
      | (Some k, _) \<Rightarrow> (True, log_event (Alloc SigningKeyObj) (s\<lparr>SigningKey := Some k\<rparr>)))"

definition sign_cert :: "openssl \<Rightarrow> gen_locals \<Rightarrow> gen_locals" where
  "sign_cert ssl s =
     on_cert (\<lambda>x. x\<lparr>x_signature := Some (sign_digest ssl (the (SigningKey s)) (x\<lparr>x_signature := None\<rparr>))\<rparr>) s"

text \<open>The export: its size, the buffer, the bytes, and the comparison of the two sizes.\<close>

definition size_step :: "openssl \<Rightarrow> gen_step" where
  "size_step ssl s =
     (if i2d_size ssl \<le> 0 then (False, s) else (True, s\<lparr>Pkcs12Length := nat (i2d_size ssl)\<rparr>))"

definition buffer_step :: "openssl \<Rightarrow> gen_step" where
  "buffer_step ssl =
     call_step ssl Call_new_buffer
       (\<lambda>s. log_event (Alloc Pkcs12BufferObj) (s\<lparr>Pkcs12Buffer := Some (replicate (Pkcs12Length s) 0)\<rparr>))"

definition export_step :: "openssl \<Rightarrow> gen_step" where
  "export_step ssl s =
     (if i2d_export ssl < 0 then (False, s)
      else
        let s' = s\<lparr>Pkcs12Buffer := NewPkcs12 s\<rparr>
        in if i2d_export ssl \<noteq> int (Pkcs12Length s) then (False, s')
           else (True, s'\<lparr>Pkcs12 := Pkcs12Buffer s', Pkcs12Buffer := None\<rparr>))"

definition build_steps :: "openssl \<Rightarrow> string \<Rightarrow> gen_step list" where
  "build_steps ssl Password =
     [call_step ssl Call_CTX_new_id (\<lambda>s. log_event (Alloc KeyContextObj) (s\<lparr>KeyContext := True\<rparr>)),
      call_step ssl Call_keygen_init (\<lambda>s. s),
      call_step ssl Call_keygen
        (\<lambda>s. log_event (Alloc PrivateKeyObj) (s\<lparr>PrivateKey := Some (generated_key ssl)\<rparr>)),
      call_step ssl Call_RAND_bytes (\<lambda>s. s\<lparr>Salt := rand_bytes ssl\<rparr>),
      call_step ssl Call_X509_new (\<lambda>s. log_event (Alloc CertObj) (s\<lparr>Cert := Some new_x509\<rparr>)),
      call_step ssl Call_set_version (on_cert (\<lambda>x. x\<lparr>x_version := 2\<rparr>)),
      call_step ssl Call_bin2bn (\<lambda>s. log_event (Alloc SaltBnObj) (s\<lparr>SaltBn := Some (BN_bin2bn (Salt s))\<rparr>)),
      call_step ssl Call_BN_to_ASN1
        (\<lambda>s. log_event (Alloc SerialNumberObj) (s\<lparr>SerialNumber := SaltBn s\<rparr>)),
      call_step ssl Call_set_serialNumber (\<lambda>s. on_cert (\<lambda>x. x\<lparr>x_serial := the (SerialNumber s)\<rparr>) s),
      (\<lambda>s. (True, on_cert (\<lambda>x. x\<lparr>x_not_before := gmtime ssl - 300, x_not_after := gmtime ssl + 31536000\<rparr>) s)),
      call_step ssl Call_set_pubkey (\<lambda>s. on_cert (\<lambda>x. x\<lparr>x_pubkey := public_key ssl (the (PrivateKey s))\<rparr>) s),
      call_step ssl Call_get_subject_name (\<lambda>s. s),
      call_step ssl Call_add_entry (on_cert (\<lambda>x. x\<lparr>x_subject := x_subject x @ [CertName]\<rparr>)),
      call_step ssl Call_set_issuer_name (on_cert (\<lambda>x. x\<lparr>x_issuer := x_subject x\<rparr>)),
      signing_step ssl Password,
      call_step ssl Call_sign (sign_cert ssl),
      call_step ssl Call_PKCS12_create
        (\<lambda>s. log_event (Alloc NewPkcs12Obj)
           (s\<lparr>NewPkcs12 := Some (pkcs12_der ssl (the (PrivateKey s)) (the (Cert s)))\<rparr>))]"

definition gen_steps :: "openssl \<Rightarrow> string \<Rightarrow> gen_step list" where
  "gen_steps ssl Password = build_steps ssl Password @ [size_step ssl, buffer_step ssl, export_step ssl]"

text \<open>The code behind the label \<open>Error\<close>: every pointer that is not null is freed.\<close>

definition free_if :: "bool \<Rightarrow> ssl_object \<Rightarrow> gen_locals \<Rightarrow> gen_locals" where
  "free_if b obj s = (if b then log_event (Free obj) s else s)"

definition free_locals :: "gen_locals \<Rightarrow> gen_locals" where
  "free_locals s =
     (free_if (KeyContext s) KeyContextObj \<circ> free_if (PrivateKey s \<noteq> None) PrivateKeyObj \<circ>
      free_if (Cert s \<noteq> None) CertObj \<circ> free_if (SaltBn s \<noteq> None) SaltBnObj \<circ>
      free_if (SerialNumber s \<noteq> None) SerialNumberObj \<circ> free_if (SigningKey s \<noteq> None) SigningKeyObj \<circ>
      free_if (NewPkcs12 s \<noteq> None) NewPkcs12Obj \<circ> free_if (Pkcs12Buffer s \<noteq> None) Pkcs12BufferObj) s"

definition QcGenerateAuthCertificate :: "openssl \<Rightarrow> string \<Rightarrow> bool \<times> gen_locals" where
  "QcGenerateAuthCertificate ssl Password =
     (case run_steps (gen_steps ssl Password) init_locals of (Result, s) \<Rightarrow> (Result, free_locals s))"

section \<open>Checking a certificate\<close>

text \<open>The result and the ledger. The certificate belongs to the caller.\<close>

definition QcVerifyCertificate :: "openssl \<Rightarrow> string \<Rightarrow> x509 \<Rightarrow> bool \<times> ssl_event list" where
  "QcVerifyCertificate ssl Password PeerCert =
     (if fails ssl Call_ASN1_to_BN then (False, [])
      else
        let Serial = x_serial PeerCert; got = [Alloc SaltBnObj]; drop = [Free SaltBnObj]
        in if \<not> fits_bytes Serial SigningSaltLength then (False, got @ drop)
           else
             let SaltBytes = BN_bn2binpad Serial SigningSaltLength
             in if length SaltBytes \<noteq> SigningSaltLength then (False, got @ drop)
                else
                  (case QcGenerateSigningKey ssl Password SaltBytes of
                     (None, _) \<Rightarrow> (False, got @ drop)
                   | (Some Key, _) \<Rightarrow>
                       (X509_verify ssl PeerCert Key = 1,
                        got @ [Alloc SigningKeyObj] @ drop @ [Free SigningKeyObj])))"

section \<open>Properties\<close>

text \<open>The objects alive after a ledger; \<open>None\<close> for a leaked pointer that is overwritten or a bad free.\<close>

fun live :: "ssl_event list \<Rightarrow> ssl_object set \<Rightarrow> ssl_object set option" where
  "live [] L = Some L"
| "live (Alloc obj # es) L = (if obj \<in> L then None else live es (insert obj L))"
| "live (Free obj # es) L = (if obj \<in> L then live es (L - {obj}) else None)"

lemma live_append: "live (xs @ ys) L = (case live xs L of None \<Rightarrow> None | Some L' \<Rightarrow> live ys L')"
  by (induction xs L rule: live.induct) auto

lemmas gen_defs = QcGenerateAuthCertificate_def gen_steps_def build_steps_def call_step_def log_event_def on_cert_def
  signing_step_def QcGenerateSigningKey_def sign_cert_def size_step_def buffer_step_def export_step_def
  free_locals_def free_if_def init_locals_def

text \<open>
  C32. Whichever call fails, making a certificate frees everything it allocated, exactly once and nothing
  else; only the buffer of a successful run is left, which the caller then owns.
\<close>

theorem certificate_resources_balanced:
  "case QcGenerateAuthCertificate ssl Password of
     (Result, s) \<Rightarrow> live (ledger s) {} = Some (if Result then {Pkcs12BufferObj} else {})"
  by (simp add: gen_defs Let_def insert_Diff_if)

text \<open>The calls up to the first \<open>i2d_PKCS12\<close>.\<close>

definition export_calls :: "ssl_call list" where
  "export_calls =
     [Call_CTX_new_id, Call_keygen_init, Call_keygen, Call_RAND_bytes, Call_X509_new, Call_set_version, Call_bin2bn,
      Call_BN_to_ASN1, Call_set_serialNumber, Call_set_pubkey, Call_get_subject_name, Call_add_entry,
      Call_set_issuer_name, Call_PBKDF2, Call_new_raw_private_key, Call_sign, Call_PKCS12_create]"

lemma free_locals_outputs [simp]:
  "Pkcs12 (free_locals s) = Pkcs12 s" "Pkcs12Length (free_locals s) = Pkcs12Length s" "Cert (free_locals s) = Cert s"
  by (simp_all add: free_locals_def free_if_def log_event_def)

lemma fst_call_step [simp]: "fst (call_step ssl c f s) \<longleftrightarrow> \<not> fails ssl c"
  and fst_signing_step [simp]: "fst (signing_step ssl Password s) \<longleftrightarrow>
    \<not> fails ssl Call_PBKDF2 \<and> \<not> fails ssl Call_new_raw_private_key"
  by (simp_all add: call_step_def signing_step_def QcGenerateSigningKey_def Let_def)

text \<open>Building the PKCS12 succeeds exactly when no call fails, and does not touch the outputs.\<close>

lemma build_succeeds_iff:
  "fst (run_steps (build_steps ssl Password) s) \<longleftrightarrow> (\<forall>c \<in> set export_calls. \<not> fails ssl c)"
  by (simp add: build_steps_def export_calls_def del: run_steps.simps(2))

lemma build_outputs:
  "Pkcs12 (snd (run_steps (build_steps ssl Password) init_locals)) = None \<and>
   Pkcs12Length (snd (run_steps (build_steps ssl Password) init_locals)) = 0"
  by (rule run_steps_invariant)
    (auto simp: build_steps_def call_step_def log_event_def on_cert_def signing_step_def sign_cert_def init_locals_def
      split: option.split prod.split)

lemma built:
  assumes "\<forall>c \<in> set export_calls. \<not> fails ssl c"
  shows "\<exists>s x. run_steps (build_steps ssl Password) init_locals = (True, s) \<and> Cert s = Some x \<and>
    NewPkcs12 s = Some (pkcs12_der ssl (generated_key ssl) x)"
  using assms by (simp add: export_calls_def build_steps_def call_step_def log_event_def on_cert_def signing_step_def
      QcGenerateSigningKey_def sign_cert_def init_locals_def Let_def)

text \<open>
  C33. A certificate is made exactly when no call fails and the two sizes of the export are the same
  positive number, and then the outputs are the PKCS12 of the key and the certificate, and its size.
  In every other case the buffer is null; but a failure behind the first call of \<open>i2d_PKCS12\<close> leaves
  the size in the output.
\<close>

theorem certificate_outputs:
  "case QcGenerateAuthCertificate ssl Password of
     (Result, s) \<Rightarrow>
       (Result \<longleftrightarrow> (\<forall>c \<in> set export_calls. \<not> fails ssl c) \<and> \<not> fails ssl Call_new_buffer \<and>
          0 < i2d_size ssl \<and> i2d_export ssl = i2d_size ssl) \<and>
       (if Result
        then \<exists>x. Cert s = Some x \<and> Pkcs12 s = Some (pkcs12_der ssl (generated_key ssl) x) \<and>
          int (Pkcs12Length s) = i2d_size ssl
        else Pkcs12 s = None \<and>
          Pkcs12Length s = (if \<forall>c \<in> set export_calls. \<not> fails ssl c then nat (i2d_size ssl) else 0))"
proof (cases "\<forall>c \<in> set export_calls. \<not> fails ssl c")
  case True
  from built [OF True, of Password] obtain s x where
    s: "run_steps (build_steps ssl Password) init_locals = (True, s)" "Cert s = Some x"
      "NewPkcs12 s = Some (pkcs12_der ssl (generated_key ssl) x)" by blast
  from build_outputs [of ssl Password] s have "Pkcs12 s = None" "Pkcs12Length s = 0" by simp_all
  with s True show ?thesis
    by (auto simp: QcGenerateAuthCertificate_def gen_steps_def run_steps_append size_step_def buffer_step_def
        call_step_def export_step_def log_event_def Let_def)
next
  case False
  with build_succeeds_iff [of ssl Password init_locals] obtain s where
    s: "run_steps (build_steps ssl Password) init_locals = (False, s)" by (metis prod.collapse)
  with build_outputs [of ssl Password] False show ?thesis
    by (auto simp: QcGenerateAuthCertificate_def gen_steps_def run_steps_append)
qed

text \<open>The certificate a successful run makes.\<close>

definition made_certificate :: "openssl \<Rightarrow> string \<Rightarrow> x509" where
  "made_certificate ssl Password =
     (let x = \<lparr>x_version = 2, x_serial = BN_bin2bn (rand_bytes ssl), x_not_before = gmtime ssl - 300,
          x_not_after = gmtime ssl + 31536000, x_pubkey = public_key ssl (generated_key ssl),
          x_subject = [CertName], x_issuer = [CertName], x_signature = None\<rparr>
      in x\<lparr>x_signature := Some (sign_digest ssl
           (pbkdf2_sha512 ssl Password (rand_bytes ssl) PBKDFIterations ED448_KEYLEN) x)\<rparr>)"

lemma generated_certificate:
  "QcGenerateAuthCertificate ssl Password = (True, s) \<Longrightarrow> Cert s = Some (made_certificate ssl Password)"
  by (auto simp: gen_defs Let_def made_certificate_def new_x509_def split: if_splits)

lemma no_failure: "QcGenerateAuthCertificate ssl Password = (True, s) \<Longrightarrow>
   \<not> fails ssl Call_PBKDF2 \<and> \<not> fails ssl Call_new_raw_private_key"
  by (auto simp: gen_defs Let_def split: if_splits)

lemma made_certificate_serial:
  assumes "openssl_ok ssl"
  shows "BN_bn2binpad (x_serial (made_certificate ssl Password)) SigningSaltLength = rand_bytes ssl"
    and "fits_bytes (x_serial (made_certificate ssl Password)) SigningSaltLength"
  using assms bn_roundtrip [of "rand_bytes ssl"] by (simp_all add: made_certificate_def openssl_ok_def Let_def)

text \<open>
  The check accepts a certificate exactly when no call fails, its serial number fits into a salt
  and its signature verifies with the key derived from the password and the serial number; the sign
  of the serial number is not looked at.
\<close>

theorem verification_accepts_iff:
  "fst (QcVerifyCertificate ssl Password x) \<longleftrightarrow>
     (\<forall>c \<in> {Call_ASN1_to_BN, Call_PBKDF2, Call_new_raw_private_key}. \<not> fails ssl c) \<and>
     nat \<bar>x_serial x\<bar> < 256 ^ SigningSaltLength \<and>
     X509_verify ssl x
       (pbkdf2_sha512 ssl Password (rev (nat_le SigningSaltLength (nat \<bar>x_serial x\<bar>))) PBKDFIterations ED448_KEYLEN) = 1"
  by (simp add: QcVerifyCertificate_def Let_def fits_bytes_def BN_bn2binpad_def QcGenerateSigningKey_def)

text \<open>
  The check frees the number and the key it makes, once each, whatever its result.
\<close>

theorem verification_resources_balanced:
  "live (snd (QcVerifyCertificate ssl Password x)) {} = Some {}"
  by (auto simp: QcVerifyCertificate_def Let_def split: option.split prod.split)

lemma made_certificate_accepted:
  assumes "openssl_ok ssl" and "pbkdf2_sha512 ssl' = pbkdf2_sha512 ssl" and "X509_verify ssl' = X509_verify ssl"
    and "\<forall>c \<in> {Call_ASN1_to_BN, Call_PBKDF2, Call_new_raw_private_key}. \<not> fails ssl' c"
  shows "fst (QcVerifyCertificate ssl' Password (made_certificate ssl Password))"
proof -
  have "X509_verify ssl (made_certificate ssl Password)
      (pbkdf2_sha512 ssl Password (rand_bytes ssl) PBKDFIterations ED448_KEYLEN) = 1"
    using assms(1) unfolding openssl_ok_def made_certificate_def Let_def by simp
  then show ?thesis
    using assms made_certificate_serial [OF assms(1), of Password]
    by (simp add: QcVerifyCertificate_def Let_def QcGenerateSigningKey_def openssl_ok_def)
qed

lemma certificate_verifies:
  assumes "openssl_ok ssl" and "\<not> fails ssl Call_ASN1_to_BN"
    and "QcGenerateAuthCertificate ssl Password = (True, s)"
  shows "\<exists>x. Cert s = Some x \<and> fst (QcVerifyCertificate ssl Password x)"
  using generated_certificate [OF assms(3)] made_certificate_accepted [OF assms(1) refl refl, of Password]
    no_failure [OF assms(3)] assms(2) by simp

text \<open>
  C19. A certificate made with a password passes the check with the same password: the salt survives
  the way through the serial number, leading zeros included.
\<close>

theorem certificate_roundtrip:
  assumes "openssl_ok ssl" and "\<not> fails ssl Call_ASN1_to_BN"
    and "QcGenerateAuthCertificate ssl Password = (True, s)"
  shows "\<exists>x. Cert s = Some x \<and> fst (QcVerifyCertificate ssl Password x)"
  by (rule certificate_verifies [OF assms])

text \<open>A toy OpenSSL: the key is the password, a signature is the key.\<close>

definition toy_ssl :: openssl where
  "toy_ssl = \<lparr>fails = (\<lambda>_. False), rand_bytes = 0 # replicate 63 5, generated_key = [1], gmtime = 0,
     pbkdf2_sha512 = (\<lambda>p s i n. map (\<lambda>c. of_nat (of_char c)) p), public_key = (\<lambda>k. k), sign_digest = (\<lambda>k x. k),
     X509_verify = (\<lambda>x k. if x_signature x = Some k then 1 else 0), pkcs12_der = (\<lambda>k x. [1, 2]),
     i2d_size = 2, i2d_export = 2\<rparr>"

lemma toy_ssl_ok: "openssl_ok toy_ssl"
  by (simp add: openssl_ok_def toy_ssl_def SigningSaltLength_def)

lemma toy_generates: "\<exists>s. QcGenerateAuthCertificate toy_ssl p = (True, s)"
  by (simp add: gen_defs Let_def toy_ssl_def)

theorem certificate_outputs_witness:
  "\<exists>s. QcGenerateAuthCertificate toy_ssl ''pw'' = (True, s) \<and> Pkcs12 s = Some [1, 2] \<and> Pkcs12Length s = 2"
proof -
  obtain r s where rs: "QcGenerateAuthCertificate toy_ssl ''pw'' = (r, s)" by fastforce
  with certificate_outputs [of toy_ssl "''pw''"] have r by (simp add: toy_ssl_def)
  with certificate_outputs [of toy_ssl "''pw''"] rs show ?thesis by (auto simp: toy_ssl_def)
qed

theorem verification_accepts_iff_witness:
  "\<not> fst (QcVerifyCertificate toy_ssl ''pw'' new_x509)"
  using verification_accepts_iff [of toy_ssl "''pw''" new_x509] by (simp add: toy_ssl_def new_x509_def)

theorem certificate_roundtrip_witness:
  "\<exists>s x. QcGenerateAuthCertificate toy_ssl ''pw'' = (True, s) \<and> Cert s = Some x \<and> fst (QcVerifyCertificate toy_ssl ''pw'' x)"
proof -
  obtain s where "QcGenerateAuthCertificate toy_ssl ''pw'' = (True, s)" using toy_generates by blast
  with certificate_roundtrip [OF toy_ssl_ok _ this] show ?thesis by (auto simp: toy_ssl_def)
qed



end
