(* ===== verification/Startup.thy ===== *)
theory Startup
  imports Auth ClientData
begin

text \<open>
  How the program starts and how connections come about: the dispatch of \<open>main\<close> (\<open>qsync.cpp\<close>),
  \<open>QsyncServer::Start\<close> with the callbacks of listener and connection (\<open>server.cpp\<close>), and
  \<open>QsyncClient::Start\<close> with the callback of the connection (\<open>client.cpp\<close>). MsQuic is a parameter:
  which of its calls fail.
\<close>

section \<open>Arguments\<close>

text \<open>
  \<open>atol\<close>: leading white space, a sign, digits. Values outside of \<open>long\<close> are undefined in C; the
  cast to \<open>uint16_t\<close> keeps the low 16 bits.
\<close>

definition is_space :: "char \<Rightarrow> bool" where
  "is_space c \<longleftrightarrow> c = CHR '' '' \<or> (9 \<le> (of_char c :: nat) \<and> (of_char c :: nat) \<le> 13)"

definition is_digit :: "char \<Rightarrow> bool" where
  "is_digit c \<longleftrightarrow> 48 \<le> (of_char c :: nat) \<and> (of_char c :: nat) \<le> 57"

fun digits_value :: "nat \<Rightarrow> string \<Rightarrow> nat" where
  "digits_value n [] = n"
| "digits_value n (c # cs) = (if is_digit c then digits_value (10 * n + (of_char c - 48)) cs else n)"

definition atol :: "string \<Rightarrow> int" where
  "atol s =
     (case dropWhile is_space s of
        [] \<Rightarrow> 0
      | c # cs \<Rightarrow>
          if c = CHR ''-'' then - int (digits_value 0 cs)
          else if c = CHR ''+'' then int (digits_value 0 cs)
          else int (digits_value 0 (c # cs)))"

definition port_of :: "string \<Rightarrow> u16" where
  "port_of s = of_int (atol s)"

datatype main_action =
    ListFiles string
  | StartServer u16 string string           \<comment> \<open>port, root, password\<close>
  | StartClient string u16 string string    \<comment> \<open>address, port, path, password\<close>
  | NoAction

definition first_char :: "string \<Rightarrow> char" where
  "first_char s = hd (s @ [CHR 0x00])"

definition main_dispatch :: "string list \<Rightarrow> main_action" where
  "main_dispatch argv =
     (if length argv = 2 then ListFiles (argv ! 1)
      else if length argv = 3 then
        (if first_char (argv ! 1) = CHR ''s'' then StartServer (port_of (argv ! 2)) [] [] else NoAction)
      else if length argv = 4 then
        (if first_char (argv ! 1) = CHR ''s'' then StartServer (port_of (argv ! 2)) [] (argv ! 3)
         else if first_char (argv ! 1) = CHR ''c'' then StartClient (argv ! 2) (port_of (argv ! 3)) [] []
         else NoAction)
      else if length argv = 5 then
        (if first_char (argv ! 1) = CHR ''c'' then StartClient (argv ! 2) (port_of (argv ! 3)) [] (argv ! 4)
         else if first_char (argv ! 1) = CHR ''s'' then StartServer (port_of (argv ! 2)) (argv ! 4) (argv ! 3)
         else NoAction)
      else if length argv = 6 then
        (if first_char (argv ! 1) = CHR ''c'' then StartClient (argv ! 2) (port_of (argv ! 3)) (argv ! 5) (argv ! 4)
         else NoAction)
      else NoAction)"

section \<open>MsQuic\<close>

datatype quic_call =
    CallRegistration | CallConfiguration | CallListenerOpen | CallListenerStart | CallSetConfiguration
  | CallConnectionOpen | CallSetScheduling | CallStreamOpen | CallSetPriority | CallStreamStart
  | CallConnectionStart | CallStreamShutdown | CallPeerStreamOpen

record quic_env =
  quic_fails :: "quic_call \<Rightarrow> bool"
  quic_ssl :: openssl
  quic_fs :: fsys

datatype quic_status = StatusSuccess | StatusConnectionRefused | StatusBadCertificate | StatusAborted

datatype credential_flag =
    FlagClient | IndicateCertificateReceived | RequireClientAuthentication | DeferCertificateValidation
  | NoCertificateValidation

datatype credential_type = CredentialNone | CredentialPkcs12

text \<open>
  What the two sides ask of MsQuic beside the credentials: the limits of a connection, and for the
  client how its streams share it. \<open>QSYNC_ALPN\<close> names the protocol on both sides.
\<close>

record quic_settings =
  PeerBidiStreamCount :: u16
  DisconnectTimeoutMs :: nat
  SendBufferingEnabled :: bool

datatype scheduling_scheme = Fifo | RoundRobin

definition QSYNC_ALPN :: string where "QSYNC_ALPN = ''qsync''"

definition CONTROL_STREAM_PRIORITY :: u16 where "CONTROL_STREAM_PRIORITY = 0x7FFF"

definition quic_step :: "quic_env \<Rightarrow> quic_call \<Rightarrow> ('s \<Rightarrow> 's) \<Rightarrow> 's attempt" where
  "quic_step env c f s = (if quic_fails env c then (False, s) else (True, f s))"

definition certificate_step :: "quic_env \<Rightarrow> string \<Rightarrow> 's attempt" where
  "certificate_step env Password s = (fst (QcGenerateAuthCertificate (quic_ssl env) Password), s)"

datatype connection_event =
    ConnConnected
  | PeerCertificateReceived x509
  | PeerStreamStarted nat             \<comment> \<open>the handle of the stream\<close>
  | ConnShutdownComplete
  | ConnOther

section \<open>The server\<close>

text \<open>
  \<open>ServerConfig\<close> is the configuration MsQuic has accepted, with the name of the protocol; \<open>Listening\<close>
  is the port, on every local address.
\<close>

record server =
  ServerBase :: path
  ServerCertPw :: string
  ServerFlags :: "credential_flag list"
  ServerCredential :: credential_type
  ServerConfig :: "(string \<times> quic_settings) option"
  Listening :: "u16 option"
  ServerConnection :: "nat option"
  ServerControlStream :: "nat option"

definition init_server :: server where
  "init_server = \<lparr>ServerBase = rel_path [], ServerCertPw = [], ServerFlags = [], ServerCredential = CredentialNone,
     ServerConfig = None, Listening = None, ServerConnection = None, ServerControlStream = None\<rparr>"

definition base_step :: "quic_env \<Rightarrow> string \<Rightarrow> server attempt" where
  "base_step env Root s =
     (case (if 0 < length Root then fs_canonical (quic_fs env) (path_of Root) else fs_current_path (quic_fs env)) of
        None \<Rightarrow> (False, s)
      | Some p \<Rightarrow> (True, s\<lparr>ServerBase := p\<rparr>))"

definition server_credentials :: "string \<Rightarrow> server \<Rightarrow> server" where
  "server_credentials Password s =
     (let s' = s\<lparr>ServerFlags := [], ServerCredential := CredentialPkcs12\<rparr>
      in if 0 < length Password then
           s'\<lparr>ServerFlags := [IndicateCertificateReceived, RequireClientAuthentication, DeferCertificateValidation],
             ServerCertPw := Password\<rparr>
         else s')"

definition server_settings :: quic_settings where
  "server_settings = \<lparr>PeerBidiStreamCount = 1, DisconnectTimeoutMs = 10000, SendBufferingEnabled = False\<rparr>"

definition server_setup_steps :: "quic_env \<Rightarrow> string \<Rightarrow> string \<Rightarrow> server attempt list" where
  "server_setup_steps env Root Password =
     [base_step env Root,
      quic_step env CallRegistration (\<lambda>s. s),
      certificate_step env Password,
      (\<lambda>s. (True, server_credentials Password s)),
      quic_step env CallConfiguration (\<lambda>s. s\<lparr>ServerConfig := Some (QSYNC_ALPN, server_settings)\<rparr>),
      quic_step env CallListenerOpen (\<lambda>s. s)]"

definition QsyncServer_Start :: "quic_env \<Rightarrow> u16 \<Rightarrow> string \<Rightarrow> string \<Rightarrow> server attempt" where
  "QsyncServer_Start env ListenPort Root Password =
     run_steps (server_setup_steps env Root Password @
       [quic_step env CallListenerStart (\<lambda>s. s\<lparr>Listening := Some ListenPort\<rparr>)])"

text \<open>A new connection takes the place of the one that is there, if any.\<close>

definition QsyncListenerCallback :: "quic_env \<Rightarrow> nat \<Rightarrow> server \<Rightarrow> quic_status \<times> server" where
  "QsyncListenerCallback env Connection s =
     (if quic_fails env CallSetConfiguration then StatusConnectionRefused else StatusSuccess,
      s\<lparr>ServerConnection := Some Connection\<rparr>)"

fun QsyncServerConnectionCallback :: "quic_env \<Rightarrow> connection_event \<Rightarrow> server \<Rightarrow> quic_status \<times> server" where
  "QsyncServerConnectionCallback env ConnConnected s = (StatusSuccess, s\<lparr>Listening := None\<rparr>)"
| "QsyncServerConnectionCallback env (PeerCertificateReceived Certificate) s =
     (if \<not> fst (QcVerifyCertificate (quic_ssl env) (ServerCertPw s) Certificate) then (StatusBadCertificate, s)
      else (StatusSuccess, s))"
| "QsyncServerConnectionCallback env (PeerStreamStarted Stream) s =
     (StatusSuccess, s\<lparr>ServerControlStream := Some Stream\<rparr>)"
| "QsyncServerConnectionCallback env ConnShutdownComplete s = (StatusSuccess, s)"
| "QsyncServerConnectionCallback env ConnOther s = (StatusSuccess, s)"

section \<open>The client\<close>

text \<open>
  \<open>StreamScheduling\<close> and \<open>ControlPriority\<close> are the parameters set on the connection and on the control
  stream, \<open>ClientSyncPath\<close> the member \<open>SyncPath\<close>.
\<close>

record client_session =
  ClientCertPw :: string
  ClientFlags :: "credential_flag list"
  ClientCredential :: credential_type
  ClientConfig :: "(string \<times> quic_settings) option"
  StreamScheduling :: scheduling_scheme
  ControlPriority :: "u16 option"
  Connecting :: "(string \<times> u16) option"
  ClientSyncPath :: string
  ControlStarted :: bool
  ControlClosed :: bool
  DataStreams :: "(nat \<times> data_stream) list"
  ClientState :: client

definition init_session :: client_session where
  "init_session = \<lparr>ClientCertPw = [], ClientFlags = [], ClientCredential = CredentialNone, ClientConfig = None,
     StreamScheduling = Fifo, ControlPriority = None, Connecting = None, ClientSyncPath = [],
     ControlStarted = False, ControlClosed = False, DataStreams = [], ClientState = init_client\<rparr>"

definition client_credentials :: "string \<Rightarrow> client_session \<Rightarrow> client_session" where
  "client_credentials Password s =
     (if 0 < length Password then
        s\<lparr>ClientFlags := [FlagClient, IndicateCertificateReceived, DeferCertificateValidation],
          ClientCertPw := Password, ClientCredential := CredentialPkcs12\<rparr>
      else s\<lparr>ClientFlags := [FlagClient, NoCertificateValidation], ClientCredential := CredentialNone\<rparr>)"

definition client_settings :: quic_settings where
  "client_settings = \<lparr>PeerBidiStreamCount = 10, DisconnectTimeoutMs = 10000, SendBufferingEnabled = False\<rparr>"

definition client_setup_steps :: "quic_env \<Rightarrow> string \<Rightarrow> client_session attempt list" where
  "client_setup_steps env Password =
     [quic_step env CallRegistration (\<lambda>s. s),
      certificate_step env Password,
      (\<lambda>s. (True, client_credentials Password s)),
      quic_step env CallConfiguration (\<lambda>s. s\<lparr>ClientConfig := Some (QSYNC_ALPN, client_settings)\<rparr>),
      quic_step env CallConnectionOpen (\<lambda>s. s),
      quic_step env CallSetScheduling (\<lambda>s. s\<lparr>StreamScheduling := RoundRobin\<rparr>),
      quic_step env CallStreamOpen (\<lambda>s. s),
      quic_step env CallSetPriority (\<lambda>s. s\<lparr>ControlPriority := Some CONTROL_STREAM_PRIORITY\<rparr>),
      quic_step env CallStreamStart (\<lambda>s. s\<lparr>ControlStarted := True\<rparr>)]"

definition client_start_steps :: "quic_env \<Rightarrow> string \<Rightarrow> u16 \<Rightarrow> string \<Rightarrow> client_session attempt list" where
  "client_start_steps env ServerAddr ServerPort Password =
     client_setup_steps env Password @
       [quic_step env CallConnectionStart (\<lambda>s. s\<lparr>Connecting := Some (ServerAddr, ServerPort)\<rparr>)]"

text \<open>
  The search runs once the connection was started; neither its result nor that of the shutdown of
  the control stream is looked at. \<open>None\<close> would be a search that does not end.
\<close>

definition QsyncClient_Start ::
  "quic_env \<Rightarrow> files_env \<Rightarrow> client_env \<Rightarrow> string \<Rightarrow> u16 \<Rightarrow> string \<Rightarrow> string \<Rightarrow> u64 \<Rightarrow> client_session \<Rightarrow>
   (bool \<times> client_session) option"
where
  "QsyncClient_Start env fenv cenv ServerAddr ServerPort StartPath Password FileId s =
     (case run_steps (client_start_steps env ServerAddr ServerPort Password) s of
        (False, s') \<Rightarrow> Some (False, s')
      | (True, s') \<Rightarrow>
          (case FindFiles fenv (on_file_found cenv) StartPath (FileId, ClientState s') of
             None \<Rightarrow> None
           | Some (_, _, c) \<Rightarrow>
               Some (True, s'\<lparr>ClientSyncPath := StartPath, ClientState := c,
                 ControlClosed := \<not> quic_fails env CallStreamShutdown\<rparr>)))"

fun QsyncClientConnectionCallback :: "quic_env \<Rightarrow> connection_event \<Rightarrow> client_session \<Rightarrow> quic_status \<times> client_session" where
  "QsyncClientConnectionCallback env ConnConnected s = (StatusSuccess, s)"
| "QsyncClientConnectionCallback env (PeerCertificateReceived Certificate) s =
     (if \<not> fst (QcVerifyCertificate (quic_ssl env) (ClientCertPw s) Certificate) then (StatusBadCertificate, s)
      else (StatusSuccess, s))"
| "QsyncClientConnectionCallback env (PeerStreamStarted Stream) s =
     (if quic_fails env CallPeerStreamOpen then (StatusAborted, s)
      else (StatusSuccess, s\<lparr>DataStreams := DataStreams s @ [(Stream, new_stream)]\<rparr>))"
| "QsyncClientConnectionCallback env ConnShutdownComplete s = (StatusSuccess, s)"
| "QsyncClientConnectionCallback env ConnOther s = (StatusSuccess, s)"


section \<open>Arguments: properties\<close>

text \<open>The usual decimal notation.\<close>

fun decimal :: "nat \<Rightarrow> string" where
  "decimal n = (if n < 10 then [char_of (48 + n)] else decimal (n div 10) @ [char_of (48 + n mod 10)])"

declare decimal.simps [simp del]

lemma digit_char: "d < 10 \<Longrightarrow> is_digit (char_of (48 + d)) \<and> (of_char (char_of (48 + d :: nat)) :: nat) = 48 + d"
  by (simp add: is_digit_def)

lemma digits_value_append:
  "list_all is_digit xs \<Longrightarrow> digits_value n (xs @ ys) = digits_value (digits_value n xs) ys"
  by (induction xs arbitrary: n) auto

lemma digits_value_decimal: "list_all is_digit (decimal n) \<and> digits_value 0 (decimal n) = n \<and> decimal n \<noteq> []"
proof (induction n rule: decimal.induct)
  case (1 n)
  show ?case
  proof (cases "n < 10")
    case True
    with digit_char [of n] show ?thesis by (simp add: decimal.simps [of n])
  next
    case False
    with 1 digit_char [of "n mod 10"] show ?thesis
      by (simp add: decimal.simps [of n] digits_value_append)
  qed
qed

lemma atol_decimal: "atol (decimal n) = int n"
proof -
  obtain c cs where d: "decimal n = c # cs" using digits_value_decimal [of n] by (cases "decimal n") auto
  with digits_value_decimal [of n] have c: "is_digit c" and v: "digits_value 0 (c # cs) = n" by auto
  from c have "\<not> is_space c" "c \<noteq> CHR ''-''" "c \<noteq> CHR ''+''" by (auto simp: is_digit_def is_space_def)
  then show ?thesis unfolding atol_def d using v by simp
qed

text \<open>
  The port a decimal argument gives is its value cut to 16 bits, so every port number arrives as it
  was written and a larger number silently becomes another port.
\<close>

theorem port_argument_roundtrip:
  "port_of (decimal n) = of_nat n \<and> (n < 2 ^ 16 \<longrightarrow> unat (port_of (decimal n)) = n)"
  by (simp add: port_of_def atol_decimal unat_of_nat)

theorem port_argument_roundtrip_witness:
  "unat (port_of (decimal 4433)) = 4433"
  using port_argument_roundtrip [of 4433] by simp

lemma command_lines:
  "main_dispatch [prog, ''s'', decimal n] = StartServer (of_nat n) [] [] \<and>
   main_dispatch [prog, ''s'', decimal n, pw] = StartServer (of_nat n) [] pw \<and>
   main_dispatch [prog, ''s'', decimal n, pw, root] = StartServer (of_nat n) root pw \<and>
   main_dispatch [prog, ''c'', addr, decimal n] = StartClient addr (of_nat n) [] [] \<and>
   main_dispatch [prog, ''c'', addr, decimal n, pw] = StartClient addr (of_nat n) [] pw \<and>
   main_dispatch [prog, ''c'', addr, decimal n, pw, root] = StartClient addr (of_nat n) root pw \<and>
   main_dispatch [prog, root] = ListFiles root \<and>
   (\<forall>argv. 6 < length argv \<or> length argv < 2 \<longrightarrow> main_dispatch argv = NoAction)"
  by (auto simp: main_dispatch_def first_char_def port_argument_roundtrip)

text \<open>
  The command line: which arguments start the server or the client with which port, path and
  password; the order of password and path is the one in the comments, and the port is the decimal
  argument cut to 16 bits. Without a path both get the empty one; one argument lists its tree; any
  other number of arguments does nothing.
\<close>

theorem main_starts_documented:
  "main_dispatch [prog, ''s'', decimal n] = StartServer (of_nat n) [] [] \<and>
   main_dispatch [prog, ''s'', decimal n, pw] = StartServer (of_nat n) [] pw \<and>
   main_dispatch [prog, ''s'', decimal n, pw, root] = StartServer (of_nat n) root pw \<and>
   main_dispatch [prog, ''c'', addr, decimal n] = StartClient addr (of_nat n) [] [] \<and>
   main_dispatch [prog, ''c'', addr, decimal n, pw] = StartClient addr (of_nat n) [] pw \<and>
   main_dispatch [prog, ''c'', addr, decimal n, pw, root] = StartClient addr (of_nat n) root pw \<and>
   main_dispatch [prog, root] = ListFiles root \<and>
   (\<forall>argv. 6 < length argv \<or> length argv < 2 \<longrightarrow> main_dispatch argv = NoAction)"
  by (rule command_lines)

theorem main_starts_documented_witness:
  "main_dispatch [''qsync''] = NoAction"
  using main_starts_documented [of "''qsync''" 0 "[]" "[]" "[]"] by simp

section \<open>Starting\<close>

text \<open>A system on which no call fails.\<close>

definition toy_quic :: quic_env where
  "toy_quic = \<lparr>quic_fails = (\<lambda>_. False), quic_ssl = toy_ssl, quic_fs = example_fs\<rparr>"

lemma toy_certificate: "fst (QcGenerateAuthCertificate toy_ssl Password)"
  using toy_generates [of Password] by auto

lemma fst_quic_step [simp]: "fst (quic_step env c f s) \<longleftrightarrow> \<not> quic_fails env c"
  by (simp add: quic_step_def)

lemma fst_certificate_step [simp]:
  "fst (certificate_step env Password s) \<longleftrightarrow> fst (QcGenerateAuthCertificate (quic_ssl env) Password)"
  by (simp add: certificate_step_def)

text \<open>When the last of the calls alone has an effect that \<open>P\<close> sees, a failure leaves \<open>P\<close>.\<close>

lemma run_steps_failure:
  assumes "\<not> fst (run_steps (fs @ [f]) s)" and "\<And>f s. f \<in> set fs \<Longrightarrow> P s \<Longrightarrow> P (snd (f s))"
    and "\<And>s. \<not> fst (f s) \<Longrightarrow> P s \<Longrightarrow> P (snd (f s))" and "P s"
  shows "P (snd (run_steps (fs @ [f]) s))"
proof -
  obtain ok s' where s': "run_steps fs s = (ok, s')" by force
  have "P s'" using run_steps_invariant [of fs P s] assms(2,4) s' by simp
  moreover obtain ok' s'' where "f s' = (ok', s'')" by force
  ultimately show ?thesis using assms(1) assms(3) [of s'] s' by (cases ok; cases ok') (auto simp: run_steps_append)
qed

definition server_root :: "quic_env \<Rightarrow> string \<Rightarrow> path option" where
  "server_root env Root =
     (if Root = [] then fs_current_path (quic_fs env) else fs_canonical (quic_fs env) (path_of Root))"

lemma fst_base_step [simp]: "fst (base_step env Root s) \<longleftrightarrow> server_root env Root \<noteq> None"
  by (auto simp: base_step_def server_root_def split: option.split)

lemma fst_run_steps_append [simp]:
  "fst (run_steps (fs @ gs) s) \<longleftrightarrow> fst (run_steps fs s) \<and> fst (run_steps gs (snd (run_steps fs s)))"
  by (simp add: run_steps_append split: prod.split bool.split)

lemma server_starts:
  "fst (QsyncServer_Start env ListenPort Root Password s) \<longleftrightarrow>
     server_root env Root \<noteq> None \<and> fst (QcGenerateAuthCertificate (quic_ssl env) Password) \<and>
     (\<forall>c \<in> {CallRegistration, CallConfiguration, CallListenerOpen, CallListenerStart}. \<not> quic_fails env c)"
  by (simp add: QsyncServer_Start_def server_setup_steps_def del: run_steps.simps(2)) blast

lemma server_start_fails:
  "\<not> fst (QsyncServer_Start env ListenPort Root Password s) \<Longrightarrow>
   Listening (snd (QsyncServer_Start env ListenPort Root Password s)) = Listening s"
  unfolding QsyncServer_Start_def
  by (rule run_steps_failure [where P = "\<lambda>x. Listening x = Listening s"])
    (auto simp: server_setup_steps_def base_step_def quic_step_def certificate_step_def server_credentials_def Let_def
      split: option.splits)

lemma server_start_state:
  "case QsyncServer_Start env ListenPort Root Password s of
     (started, s') \<Rightarrow>
       (started \<longleftrightarrow> server_root env Root \<noteq> None \<and> fst (QcGenerateAuthCertificate (quic_ssl env) Password) \<and>
          (\<forall>c \<in> {CallRegistration, CallConfiguration, CallListenerOpen, CallListenerStart}. \<not> quic_fails env c)) \<and>
       (if started
        then Listening s' = Some ListenPort \<and> server_root env Root = Some (ServerBase s') \<and>
          ServerCredential s' = CredentialPkcs12 \<and> ServerConfig s' = Some (QSYNC_ALPN, server_settings) \<and>
          (if Password = [] then ServerFlags s' = []
           else ServerCertPw s' = Password \<and>
             set (ServerFlags s') = {IndicateCertificateReceived, RequireClientAuthentication, DeferCertificateValidation})
        else Listening s' = Listening s)"
proof (cases "fst (QsyncServer_Start env ListenPort Root Password s)")
  case False
  with server_start_fails [OF False] server_starts [of env ListenPort Root Password s] show ?thesis
    by (auto split: prod.split)
next
  case True
  with server_starts [of env ListenPort Root Password s] obtain p where
    p: "server_root env Root = Some p" and ok: "fst (QcGenerateAuthCertificate (quic_ssl env) Password)"
      "\<not> quic_fails env CallRegistration" "\<not> quic_fails env CallConfiguration" "\<not> quic_fails env CallListenerOpen"
      "\<not> quic_fails env CallListenerStart" by auto
  have "base_step env Root s = (True, s\<lparr>ServerBase := p\<rparr>)"
    using p by (auto simp: base_step_def server_root_def split: if_splits)
  with p ok show ?thesis
    by (cases Password) (simp_all add: QsyncServer_Start_def server_setup_steps_def quic_step_def certificate_step_def server_credentials_def)
qed

text \<open>
  C37. The server starts exactly when its base directory can be resolved, its certificate is made and no
  call of MsQuic fails. Then it listens on the given port, its base directory is the canonical root
  or the working directory, MsQuic has its settings, one stream for the client among them, and it asks
  clients for certificates exactly when there is a password; otherwise it does not listen.
\<close>

theorem server_starts_iff:
  "case QsyncServer_Start env ListenPort Root Password s of
     (started, s') \<Rightarrow>
       (started \<longleftrightarrow> server_root env Root \<noteq> None \<and> fst (QcGenerateAuthCertificate (quic_ssl env) Password) \<and>
          (\<forall>c \<in> {CallRegistration, CallConfiguration, CallListenerOpen, CallListenerStart}. \<not> quic_fails env c)) \<and>
       (if started
        then Listening s' = Some ListenPort \<and> server_root env Root = Some (ServerBase s') \<and>
          ServerCredential s' = CredentialPkcs12 \<and> ServerConfig s' = Some (QSYNC_ALPN, server_settings) \<and>
          (if Password = [] then ServerFlags s' = []
           else ServerCertPw s' = Password \<and>
             set (ServerFlags s') = {IndicateCertificateReceived, RequireClientAuthentication, DeferCertificateValidation})
        else Listening s' = Listening s)"
  by (rule server_start_state)

lemma toy_server_root: "server_root toy_quic [] = Some (abs_path [])"
  by (simp add: server_root_def toy_quic_def fs_current_path_def example_fs_def)

theorem server_starts_iff_witness:
  "\<exists>s'. QsyncServer_Start toy_quic 99 [] ''pw'' init_server = (True, s') \<and> Listening s' = Some 99 \<and> ServerCertPw s' = ''pw''"
  using server_starts_iff [where env = toy_quic and ListenPort = 99 and Root = "[]" and Password = "''pw''" and s = init_server] toy_certificate toy_server_root
  by (cases "QsyncServer_Start toy_quic 99 [] ''pw'' init_server") (simp add: toy_quic_def)

definition client_calls :: "quic_call set" where
  "client_calls = {CallRegistration, CallConfiguration, CallConnectionOpen, CallSetScheduling, CallStreamOpen,
     CallSetPriority, CallStreamStart, CallConnectionStart}"

lemma client_steps_succeed:
  "fst (run_steps (client_start_steps env addr port Password) s) \<longleftrightarrow>
     fst (QcGenerateAuthCertificate (quic_ssl env) Password) \<and> (\<forall>c \<in> client_calls. \<not> quic_fails env c)"
  by (simp add: client_start_steps_def client_setup_steps_def client_calls_def del: run_steps.simps(2)) blast

lemma client_steps_state:
  "ClientState (snd (run_steps (client_start_steps env addr port Password) s)) = ClientState s"
  by (rule run_steps_invariant [where P = "\<lambda>x. ClientState x = ClientState s"])
    (auto simp: client_start_steps_def client_setup_steps_def quic_step_def certificate_step_def client_credentials_def)

lemma client_steps_fail:
  assumes "\<not> fst (run_steps (client_start_steps env addr port Password) s)"
  shows "Connecting (snd (run_steps (client_start_steps env addr port Password) s)) = Connecting s"
  using assms unfolding client_start_steps_def
  by (rule run_steps_failure [where P = "\<lambda>x. Connecting x = Connecting s"])
    (auto simp: client_setup_steps_def quic_step_def certificate_step_def client_credentials_def)

lemma client_start_state:
  assumes "QsyncClient_Start env fenv cenv addr port StartPath Password k s = Some (r, s')"
  shows "(r \<longleftrightarrow> fst (QcGenerateAuthCertificate (quic_ssl env) Password) \<and> (\<forall>c \<in> client_calls. \<not> quic_fails env c)) \<and>
    (if r
     then Connecting s' = Some (addr, port) \<and> ControlStarted s' \<and> ClientSyncPath s' = StartPath \<and>
       ClientConfig s' = Some (QSYNC_ALPN, client_settings) \<and> StreamScheduling s' = RoundRobin \<and>
       ControlPriority s' = Some CONTROL_STREAM_PRIORITY \<and>
       (if Password = [] then NoCertificateValidation \<in> set (ClientFlags s')
        else ClientCertPw s' = Password \<and> NoCertificateValidation \<notin> set (ClientFlags s') \<and>
          IndicateCertificateReceived \<in> set (ClientFlags s'))
     else Connecting s' = Connecting s \<and> ClientState s' = ClientState s)"
proof -
  obtain ok s1 where run: "run_steps (client_start_steps env addr port Password) s = (ok, s1)" by force
  note facts = client_steps_succeed [of env addr port Password s] client_steps_state [of env addr port Password s]
    client_steps_fail [of env addr port Password s]
  show ?thesis
  proof (cases ok)
    case False
    with assms run facts show ?thesis by (auto simp: QsyncClient_Start_def)
  next
    case True
    with run facts(1) have ok: "fst (QcGenerateAuthCertificate (quic_ssl env) Password)" "\<forall>c \<in> client_calls. \<not> quic_fails env c"
      by simp_all
    then have "Connecting s1 = Some (addr, port) \<and> ControlStarted s1 \<and>
       ClientConfig s1 = Some (QSYNC_ALPN, client_settings) \<and> StreamScheduling s1 = RoundRobin \<and>
       ControlPriority s1 = Some CONTROL_STREAM_PRIORITY \<and>
       (if Password = [] then NoCertificateValidation \<in> set (ClientFlags s1)
        else ClientCertPw s1 = Password \<and> NoCertificateValidation \<notin> set (ClientFlags s1) \<and>
          IndicateCertificateReceived \<in> set (ClientFlags s1))"
      using run by (cases Password)
        (auto simp: client_start_steps_def client_setup_steps_def quic_step_def certificate_step_def client_credentials_def client_calls_def)
    with ok assms run True show ?thesis by (auto simp: QsyncClient_Start_def split: option.splits)
  qed
qed


lemma empty_root: "search_roots fs [] = None"
  by (simp add: search_roots_def path_of_def fs_exists_def resolve_def stat_def Let_def)

lemma empty_path_start:
  "\<exists>r s'. QsyncClient_Start env fenv cenv addr port [] Password k s = Some (r, s') \<and> ClientState s' = ClientState s"
proof -
  obtain ok s1 where run: "run_steps (client_start_steps env addr port Password) s = (ok, s1)" by force
  have "ClientState s1 = ClientState s" using client_steps_state [of env addr port Password s] run by simp
  with run show ?thesis
    by (cases ok) (auto simp: QsyncClient_Start_def FindFiles_def empty_root)
qed



text \<open>
  A client that is started without a path searches the empty path, which names nothing: it sends no
  file info, and the start still succeeds.
\<close>

theorem client_without_path_sends_nothing:
  "\<exists>r s'. QsyncClient_Start env fenv cenv addr port [] Password k s = Some (r, s') \<and> ClientState s' = ClientState s"
  by (rule empty_path_start)

section \<open>Authentication\<close>

lemma client_started:
  assumes "QsyncClient_Start env fenv cenv addr port StartPath Password k s = Some (True, s')" and "Password \<noteq> []"
  shows "ClientCertPw s' = Password"
  using client_start_state [OF assms(1)] assms(2) by simp

lemma server_started:
  assumes "QsyncServer_Start env port Root Password s = (True, s')" and "Password \<noteq> []"
  shows "ServerCertPw s' = Password"
  using server_start_state [where env = env and ListenPort = port and Root = Root and Password = Password and s = s] assms by simp

text \<open>
  With a password, on both sides a peer is refused exactly when its certificate does not pass the
  check with that password.
\<close>

theorem password_guards_connection:
  assumes "QsyncServer_Start senv port Root Password s = (True, s')"
    and "QsyncClient_Start cenv fenv env addr port' StartPath Password k c = Some (True, c')" and "Password \<noteq> []"
  shows "fst (QsyncServerConnectionCallback senv (PeerCertificateReceived x) s') =
      (if fst (QcVerifyCertificate (quic_ssl senv) Password x) then StatusSuccess else StatusBadCertificate) \<and>
    fst (QsyncClientConnectionCallback cenv (PeerCertificateReceived x) c') =
      (if fst (QcVerifyCertificate (quic_ssl cenv) Password x) then StatusSuccess else StatusBadCertificate)"
  using server_started [OF assms(1,3)] client_started [OF assms(2,3)] by simp

lemma toy_server_starts: "\<exists>s'. QsyncServer_Start toy_quic 99 [] ''pw'' init_server = (True, s')"
  using server_starts [of toy_quic 99 "[]" "''pw''" init_server] toy_certificate toy_server_root
  by (cases "QsyncServer_Start toy_quic 99 [] ''pw'' init_server") (simp add: toy_quic_def)

lemma toy_client_starts:
  "\<exists>c'. QsyncClient_Start toy_quic tiny_env example_client_env ''h'' 99 [] ''pw'' 0 init_session = Some (True, c')"
proof -
  obtain ok s1 where run: "run_steps (client_start_steps toy_quic ''h'' 99 ''pw'') init_session = (ok, s1)" by force
  with client_steps_succeed [of toy_quic "''h''" 99 "''pw''" init_session] toy_certificate have ok
    by (simp add: toy_quic_def)
  with run show ?thesis by (simp add: QsyncClient_Start_def FindFiles_def empty_root)
qed

theorem password_guards_connection_witness:
  "\<exists>s' c'. fst (QsyncServerConnectionCallback toy_quic (PeerCertificateReceived new_x509) s') =
      (if fst (QcVerifyCertificate toy_ssl ''pw'' new_x509) then StatusSuccess else StatusBadCertificate) \<and>
    fst (QsyncClientConnectionCallback toy_quic (PeerCertificateReceived new_x509) c') =
      (if fst (QcVerifyCertificate toy_ssl ''pw'' new_x509) then StatusSuccess else StatusBadCertificate)"
proof -
  obtain s' c' where "QsyncServer_Start toy_quic 99 [] ''pw'' init_server = (True, s')"
    "QsyncClient_Start toy_quic tiny_env example_client_env ''h'' 99 [] ''pw'' 0 init_session = Some (True, c')"
    using toy_server_starts toy_client_starts by blast
  from password_guards_connection [OF this, of new_x509] show ?thesis
    by (intro exI [of _ s'] exI [of _ c']) (simp add: toy_quic_def)
qed

definition same_openssl :: "openssl \<Rightarrow> openssl \<Rightarrow> bool" where
  "same_openssl ssl ssl' \<longleftrightarrow> pbkdf2_sha512 ssl' = pbkdf2_sha512 ssl \<and> X509_verify ssl' = X509_verify ssl"

text \<open>
  C39. A server and a client that were started with the same password accept each other's certificates.
\<close>

theorem same_password_connects:
  assumes "QsyncServer_Start senv port Root Password s = (True, s')"
    and "QsyncClient_Start cenv fenv env addr port' StartPath Password k c = Some (True, c')" and "Password \<noteq> []"
    and "openssl_ok (quic_ssl senv)" and "openssl_ok (quic_ssl cenv)" and "same_openssl (quic_ssl senv) (quic_ssl cenv)"
    and "\<not> fails (quic_ssl senv) Call_ASN1_to_BN" and "\<not> fails (quic_ssl cenv) Call_ASN1_to_BN"
  shows "fst (QsyncClientConnectionCallback cenv (PeerCertificateReceived (made_certificate (quic_ssl senv) Password)) c') = StatusSuccess \<and>
    fst (QsyncServerConnectionCallback senv (PeerCertificateReceived (made_certificate (quic_ssl cenv) Password)) s') = StatusSuccess"
proof -
  have no_fail: "\<forall>c \<in> {Call_ASN1_to_BN, Call_PBKDF2, Call_new_raw_private_key}. \<not> fails (quic_ssl e) c"
    if "fst (QcGenerateAuthCertificate (quic_ssl e) Password)" "\<not> fails (quic_ssl e) Call_ASN1_to_BN" for e
    using that no_failure [of "quic_ssl e" Password] by (cases "QcGenerateAuthCertificate (quic_ssl e) Password") auto
  have "fst (QcGenerateAuthCertificate (quic_ssl senv) Password)"
    using server_starts [of senv port Root Password s] assms(1) by simp
  moreover have "fst (QcGenerateAuthCertificate (quic_ssl cenv) Password)"
    using assms(2) client_steps_succeed [of cenv addr port' Password c]
    by (auto simp: QsyncClient_Start_def split: prod.splits bool.splits)
  ultimately show ?thesis
    using server_started [OF assms(1,3)] client_started [OF assms(2,3)] no_fail [of senv] no_fail [of cenv] assms(4-8)
      made_certificate_accepted [of "quic_ssl senv" "quic_ssl cenv" Password]
      made_certificate_accepted [of "quic_ssl cenv" "quic_ssl senv" Password]
    by (simp add: same_openssl_def)
qed

theorem same_password_connects_witness:
  "\<exists>c'. fst (QsyncClientConnectionCallback toy_quic (PeerCertificateReceived (made_certificate toy_ssl ''pw'')) c') = StatusSuccess"
proof -
  obtain s' c' where "QsyncServer_Start toy_quic 99 [] ''pw'' init_server = (True, s')"
    "QsyncClient_Start toy_quic tiny_env example_client_env ''h'' 99 [] ''pw'' 0 init_session = Some (True, c')"
    using toy_server_starts toy_client_starts by blast
  from same_password_connects [OF this] toy_ssl_ok show ?thesis
    by (auto simp: toy_quic_def same_openssl_def toy_ssl_def simp del: QsyncClientConnectionCallback.simps)
qed

section \<open>One connection\<close>

datatype server_event = NewConnection nat | OnConnection connection_event

fun server_run :: "quic_env \<Rightarrow> server_event list \<Rightarrow> server \<Rightarrow> server option" where
  "server_run env [] s = Some s"
| "server_run env (NewConnection h # es) s =
     (if Listening s = None then None else server_run env es (snd (QsyncListenerCallback env h s)))"
| "server_run env (OnConnection e # es) s =
     (if ServerConnection s = None then None else server_run env es (snd (QsyncServerConnectionCallback env e s)))"

lemma server_run_append:
  "server_run env (xs @ ys) s = (case server_run env xs s of None \<Rightarrow> None | Some s' \<Rightarrow> server_run env ys s')"
  by (induction env xs s rule: server_run.induct) auto

lemma connected_keeps:
  "Listening s = None \<Longrightarrow> server_run env es s = Some s' \<Longrightarrow> ServerConnection s' = ServerConnection s \<and> Listening s' = None"
proof (induction env es s rule: server_run.induct)
  case (3 env e es s)
  then show ?case by (cases e) (auto split: if_splits)
qed (auto split: if_splits)

text \<open>
  Once a connection is established, the server has stopped listening and keeps that connection: no
  new connection can come, whatever happens afterwards.
\<close>

theorem connected_server_keeps_connection:
  assumes "server_run env (before @ OnConnection ConnConnected # after) s = Some s'"
  shows "\<exists>s1. server_run env before s = Some s1 \<and> ServerConnection s' = ServerConnection s1 \<and> Listening s' = None \<and>
    (\<forall>h. NewConnection h \<notin> set after)"
proof -
  from assms obtain s1 where s1: "server_run env before s = Some s1"
    and rest: "server_run env after (s1\<lparr>Listening := None\<rparr>) = Some s'"
    by (auto simp: server_run_append split: option.splits if_splits)
  have "NewConnection h \<notin> set after" for h
  proof
    assume "NewConnection h \<in> set after"
    then obtain xs ys where "after = xs @ NewConnection h # ys" by (meson split_list)
    with rest connected_keeps [of "s1\<lparr>Listening := None\<rparr>" env xs] show False
      by (auto simp: server_run_append split: option.splits)
  qed
  with s1 connected_keeps [OF _ rest] show ?thesis by simp
qed

definition listening_server :: server where
  "listening_server = init_server\<lparr>Listening := Some 99\<rparr>"

theorem connected_server_keeps_connection_witness:
  "\<exists>s1. server_run toy_quic [NewConnection 7] listening_server = Some s1 \<and> ServerConnection s1 = Some 7"
proof -
  have "server_run toy_quic ([NewConnection 7] @ OnConnection ConnConnected # [OnConnection (PeerStreamStarted 3)]) listening_server =
      Some (listening_server\<lparr>ServerConnection := Some 7, Listening := None, ServerControlStream := Some 3\<rparr>)"
    by (simp add: listening_server_def init_server_def QsyncListenerCallback_def)
  from connected_server_keeps_connection [OF this] show ?thesis by (auto simp: listening_server_def)
qed

text \<open>
  Until then, every connection attempt takes the place of the one before it, authenticated or not: a
  second attempt during the handshake of the first makes the server drop the first one.
\<close>

theorem later_connection_replaces_earlier:
  assumes "Listening s = Some p"
  shows "\<exists>s'. server_run env [NewConnection h1, NewConnection h2, OnConnection ConnConnected] s = Some s' \<and>
    ServerConnection s' = Some h2 \<and> Listening s' = None"
  using assms by (simp add: QsyncListenerCallback_def)


theorem later_connection_replaces_earlier_witness:
  "\<exists>s'. server_run toy_quic [NewConnection 1, NewConnection 2, OnConnection ConnConnected] listening_server = Some s' \<and>
    ServerConnection s' = Some 2 \<and> Listening s' = None"
  by (rule later_connection_replaces_earlier [where p = 99]) (simp add: listening_server_def)


end
