(* ===== verification/Printing.thy ===== *)
theory Printing
  imports ClientControl
begin

text \<open>
  What the program prints: \<open>PrintFilesAndDirs\<close>, the callback of the search that \<open>main\<close> runs for a
  single argument (\<open>qsync.cpp\<close>), \<open>PrintFilePath\<close> (\<open>server.cpp\<close>) and \<open>PrintHexBuffer\<close>
  (\<open>auth.cpp\<close>). The state is the text written so far, \<open>None\<close> after an exception that nothing catches.
\<close>

section \<open>Hexadecimal numbers\<close>

definition hex_digit :: "nat \<Rightarrow> char" where
  "hex_digit n = char_of (if n < 10 then 48 + n else 87 + n)"

definition hex_byte :: "u8 \<Rightarrow> string" where
  "hex_byte x = [hex_digit (unat x div 16), hex_digit (unat x mod 16)]"

text \<open>\<open>std::hex << setw(16) << setfill('0')\<close> of a 64-bit number: its eight bytes, most significant first.\<close>

definition hex_u64 :: "u64 \<Rightarrow> string" where
  "hex_u64 x = concat (map hex_byte (rev (enc_u64 x)))"

definition newline :: string where
  "newline = [CHR 0x0A]"

section \<open>The functions\<close>

definition PrintFilesAndDirs :: "capnp \<Rightarrow> string option callback" where
  "PrintFilesAndDirs c FileId File out =
     (case out of
        None \<Rightarrow> None
      | Some shown \<Rightarrow>
          (case unpack c File of
             None \<Rightarrow> None
           | Some ParsedFile \<Rightarrow> Some (shown @ hex_u64 FileId @ '' '' @ getPath ParsedFile @ newline)))"

definition PrintFilePath :: "capnp \<Rightarrow> bytes \<Rightarrow> string \<Rightarrow> string option" where
  "PrintFilePath c Buffer out = map_option (\<lambda>File. out @ getPath File @ newline) (unpack c Buffer)"

text \<open>What goes to the error stream and what to the standard output.\<close>

definition PrintHexBuffer :: "string \<Rightarrow> bytes \<Rightarrow> string \<times> string" where
  "PrintHexBuffer Label Buf = (Label @ '': '' @ newline, concat (map hex_byte Buf))"

text \<open>The branch of \<open>main\<close> for one argument; the counter of ids starts at 0.\<close>

definition list_files :: "files_env \<Rightarrow> string \<Rightarrow> string option option" where
  "list_files env Root =
     (case FindFiles env (PrintFilesAndDirs (env_capnp env)) Root (0, Some []) of
        None \<Rightarrow> None
      | Some (True, (_, out)) \<Rightarrow> Some out
      | Some (False, (_, out)) \<Rightarrow> Some (map_option (\<lambda>shown. shown @ ''Failed to finish parsing!'' @ newline) out))"

section \<open>Properties\<close>

fun read_hex :: "nat \<Rightarrow> string \<Rightarrow> nat" where
  "read_hex n [] = n"
| "read_hex n (c # cs) =
     read_hex (16 * n + (if of_char c < (58 :: nat) then of_char c - 48 else of_char c - 87)) cs"

lemma of_char_hex_digit: "n < 16 \<Longrightarrow>
   (if of_char (hex_digit n) < (58 :: nat) then of_char (hex_digit n) - 48 else of_char (hex_digit n) - 87) = n"
  by (simp add: hex_digit_def of_char_of)

lemma read_hex_byte: "read_hex n (hex_byte x @ cs) = read_hex (256 * n + unat x) cs"
proof -
  have "unat x < 256" using unsigned_less [of x, where ?'a = nat] by simp
  then have "unat x div 16 < 16" "unat x mod 16 < 16" by (auto simp: less_mult_imp_div_less)
  then show ?thesis
    by (simp only: hex_byte_def append_Cons append_Nil read_hex.simps of_char_hex_digit) (simp add: algebra_simps)
qed

lemma read_hex_bytes: "read_hex n (concat (map hex_byte (rev bs))) = 256 ^ length bs * n + le_nat bs"
proof (induction bs arbitrary: n)
  case Nil
  then show ?case by simp
next
  case (Cons b bs)
  have split: "read_hex n (xs @ hex_byte b) = 256 * read_hex n xs + unat b" for xs n
  proof (induction xs arbitrary: n)
    case Nil
    then show ?case using read_hex_byte [of n b "[]"] by simp
  qed simp
  show ?case by (simp add: split Cons algebra_simps)
qed

text \<open>
  The ids in a listing have sixteen digits each and are read back as they are.
\<close>

theorem listed_id_roundtrip: "length (hex_u64 x) = 16 \<and> read_hex 0 (hex_u64 x) = unat x"
proof -
  have "length (hex_u64 x) = 2 * length (enc_u64 x)"
    by (simp add: hex_u64_def hex_byte_def length_concat comp_def sum_list_triv)
  then show ?thesis
    using read_hex_bytes [of 0 "enc_u64 x"] unat_dec_u64 [of "enc_u64 x"] by (simp add: hex_u64_def id64.dec_enc)
qed

lemma apply_print:
  assumes "\<forall>(i, d) \<in> set log. unpack c d \<noteq> None"
  shows "apply_reports (PrintFilesAndDirs c) log (Some shown) =
    Some (shown @ concat (map (\<lambda>(i, d). hex_u64 i @ '' '' @ getPath (the (unpack c d)) @ newline) log))"
  using assms
proof (induction log arbitrary: shown)
  case Nil
  then show ?case by (simp add: apply_reports_def)
next
  case (Cons r log)
  obtain i d where r: "r = (i, d)" by (cases r)
  have "apply_reports (PrintFilesAndDirs c) (r # log) (Some shown) =
      apply_reports (PrintFilesAndDirs c) log (Some (shown @ hex_u64 i @ '' '' @ getPath (the (unpack c d)) @ newline))"
    using Cons.prems by (auto simp: apply_reports_def PrintFilesAndDirs_def r)
  with Cons show ?case by (simp add: r)
qed

text \<open>
  Listing a tree without links prints a line for the root and for everything below it, in the order
  of the search: the id in sixteen digits and the path.
\<close>

theorem listing_prints_tree:
  assumes "plain_fs (env_fs env)" and "path_of Root = abs_path r" and "r \<noteq> []" and "is_dir (env_fs env) r"
    and "capnp_ok (env_capnp env)"
  shows "\<exists>ls. distinct ls \<and>
    set ls = {l. prefix r l \<and> (\<exists>n. node_at (env_fs env) l = Some n \<and> reported_type n \<noteq> None)} \<and>
    list_files env Root = Some (Some (concat (map (\<lambda>i. hex_u64 (of_nat (Suc i)) @ '' '' @
      getPath (location_info env (butlast r) (ls ! i) (of_nat (Suc i))) @ newline) [0..<length ls])))"
proof -
  from search_reports_tree [OF assms(1-4), of 0] obtain ls where ls: "distinct ls"
    "set ls = {l. prefix r l \<and> (\<exists>n. node_at (env_fs env) l = Some n \<and> reported_type n \<noteq> None)}"
    "FindFiles env record_report Root (0, []) = Some (True, (of_nat (length ls), location_reports env (butlast r) 0 ls))"
    by auto
  have "apply_reports (PrintFilesAndDirs (env_capnp env)) (location_reports env (butlast r) 0 ls) (Some []) =
      Some (concat (map (\<lambda>i. hex_u64 (of_nat (Suc i)) @ '' '' @
        getPath (location_info env (butlast r) (ls ! i) (of_nat (Suc i))) @ newline) [0..<length ls]))"
    by (subst apply_print) (auto simp: location_reports_map unpack_serialize [OF assms(5)] comp_def)
  from FindFiles_any_callback [OF ls(3), of "PrintFilesAndDirs (env_capnp env)" "Some []"] this ls(1,2)
  show ?thesis by (auto simp: list_files_def)
qed

theorem listing_prints_tree_witness:
  "\<exists>ls. distinct ls \<and> [''s'', ''d'', ''b''] \<in> set ls \<and>
    list_files searched_side ''/s'' = Some (Some (concat (map (\<lambda>i. hex_u64 (of_nat (Suc i)) @ '' '' @
      getPath (location_info searched_side [] (ls ! i) (of_nat (Suc i))) @ newline) [0..<length ls])))"
proof -
  have "env_fs searched_side = example_fs" "env_capnp searched_side = toy_capnp"
    "node_at example_fs [''s'', ''d'', ''b''] = Some (Regular [] 4)"
    by (simp_all add: searched_side_def node_at_def example_fs_def)
  with listing_prints_tree [OF _ example_fs(3), of searched_side] example_fs toy_capnp_ok show ?thesis by fastforce
qed

end
