(* ===== verification/Program.thy ===== *)
theory Program
  imports Startup Printing
begin

text \<open>
  The whole of \<open>main\<close> (\<open>qsync.cpp\<close>): the settings, which \<open>ParseArguments\<close> leaves alone, the dispatch on
  the arguments, and the function each command line runs. The object \<open>main\<close> makes lives until a key
  is pressed, so it is a part of the outcome; the results of the two \<open>Start\<close> functions are not looked at.
\<close>

section \<open>Settings\<close>

datatype QsyncPerspective = ClientPerspective | ServerPerspective

record QsyncSettings =
  Perspective :: QsyncPerspective
  ServerAddress :: "string option"
  ServerPort :: u16

text \<open>\<open>Settings = { }\<close>: every field is zero.\<close>

definition no_settings :: QsyncSettings where
  "no_settings = \<lparr>Perspective = ClientPerspective, ServerAddress = None, ServerPort = 0\<rparr>"

definition ParseArguments :: "QsyncSettings \<Rightarrow> string list \<Rightarrow> QsyncSettings" where
  "ParseArguments Settings argv = Settings"

section \<open>The program\<close>

text \<open>What MsQuic, the file system and the libraries are on the machine the program runs on.\<close>

record machine_env =
  me_quic :: quic_env
  me_files :: files_env
  me_client :: client_env

datatype main_outcome =
    Listed "string option"                  \<comment> \<open>the output, \<open>None\<close> after an uncaught exception\<close>
  | ServerLeft bool server                  \<comment> \<open>the result of \<open>Start\<close> and the server\<close>
  | ClientLeft bool client_session
  | Nothing

text \<open>The counter of file ids starts at 0. \<open>None\<close> would be a search that does not end.\<close>

definition run_action :: "machine_env \<Rightarrow> main_action \<Rightarrow> main_outcome option" where
  "run_action me a =
     (case a of
        ListFiles Root \<Rightarrow> map_option Listed (list_files (me_files me) Root)
      | StartServer Port Root Password \<Rightarrow>
          (case QsyncServer_Start (me_quic me) Port Root Password init_server of
             (r, Server) \<Rightarrow> Some (ServerLeft r Server))
      | StartClient Addr Port Path Password \<Rightarrow>
          map_option (\<lambda>(r, Client). ClientLeft r Client)
            (QsyncClient_Start (me_quic me) (me_files me) (me_client me) Addr Port Path Password 0 init_session)
      | NoAction \<Rightarrow> Some Nothing)"

text \<open>
  The loop that keeps the program alive: a line is printed, and a character read, until it is the end of a
  line. At the end of the input \<open>getchar\<close> gives \<open>EOF\<close>, and gives it again the next time.
\<close>

definition prompt_line :: string where
  "prompt_line = ''Press enter to exit...'' @ newline"

partial_function (option) prompt_loop :: "string \<Rightarrow> string \<Rightarrow> (string \<times> string) option" where
  "prompt_loop inp out =
     (case inp of
        [] \<Rightarrow> prompt_loop [] (out @ prompt_line)
      | c # cs \<Rightarrow>
          if [c] = newline then Some (cs, out @ prompt_line) else prompt_loop cs (out @ prompt_line))"

text \<open>
  \<open>main\<close> gives the outcome of the command, the rest of the input and the lines of the prompt; \<open>None\<close>
  is a run that does not end.
\<close>

definition main :: "machine_env \<Rightarrow> string list \<Rightarrow> string \<Rightarrow> (main_outcome \<times> string \<times> string) option" where
  "main me argv inp =
     (let Settings = ParseArguments no_settings argv
      in case run_action me (main_dispatch argv) of
           None \<Rightarrow> None
         | Some outcome \<Rightarrow>
             (case prompt_loop inp [] of
                None \<Rightarrow> None
              | Some (inp', shown) \<Rightarrow> Some (outcome, inp', shown)))"

section \<open>Properties\<close>

lemma server_command:
  assumes "\<forall>c. \<not> quic_fails (me_quic me) c" and "fst (QcGenerateAuthCertificate (quic_ssl (me_quic me)) pw)"
    and "server_root (me_quic me) root = Some p"
  shows "\<exists>s. run_action me (main_dispatch [prog, ''s'', decimal n, pw, root]) = Some (ServerLeft True s) \<and>
    ServerBase s = p \<and> Listening s = Some (of_nat n)"
proof -
  obtain r s where s: "QsyncServer_Start (me_quic me) (of_nat n) root pw init_server = (r, s)" by force
  with server_start_state [where env = "me_quic me" and ListenPort = "of_nat n" and Root = root and Password = pw
      and s = init_server] assms show ?thesis
    by (auto simp: run_action_def command_lines)
qed

lemma client_command:
  assumes "\<forall>c. \<not> quic_fails (me_quic me) c" and "fst (QcGenerateAuthCertificate (quic_ssl (me_quic me)) pw)"
    and "FindFiles (me_files me) (on_file_found (me_client me)) root (0, init_client) = Some (ok, (k, c))"
  shows "\<exists>s. run_action me (main_dispatch [prog, ''c'', addr, decimal n, pw, root]) = Some (ClientLeft True s) \<and>
    Connecting s = Some (addr, of_nat n) \<and> ClientSyncPath s = root \<and> ClientState s = c \<and> ControlClosed s"
proof -
  let ?start = "QsyncClient_Start (me_quic me) (me_files me) (me_client me) addr (of_nat n) root pw 0 init_session"
  obtain r1 s1 where run: "run_steps (client_start_steps (me_quic me) addr (of_nat n) pw) init_session = (r1, s1)" by force
  with client_steps_succeed [of "me_quic me" addr "of_nat n" pw init_session] assms(1,2) have r1 by simp
  moreover have "ClientState s1 = init_client"
    using client_steps_state [of "me_quic me" addr "of_nat n" pw init_session] run by (simp add: init_session_def)
  ultimately obtain s where s: "?start = Some (True, s)" "ClientState s = c" "ControlClosed s"
    using run assms(1,3) by (auto simp: QsyncClient_Start_def)
  with client_start_state [OF s(1)] show ?thesis
    by (simp add: run_action_def command_lines)
qed

lemma command_returns: "run_action me a \<noteq> None"
proof -
  have "list_files (me_files me) Root \<noteq> None" for Root
    using searches_return [of "me_files me" "PrintFilesAndDirs (env_capnp (me_files me))" Root "(0, Some [])"]
    by (fastforce simp: list_files_def split: bool.splits)
  moreover have "QsyncClient_Start (me_quic me) (me_files me) (me_client me) Addr Port Path Password 0 init_session \<noteq> None"
    for Addr Port Path Password
  proof -
    obtain r s where "run_steps (client_start_steps (me_quic me) Addr Port Password) init_session = (r, s)" by force
    moreover obtain r' k c where "FindFiles (me_files me) (on_file_found (me_client me)) Path (0, ClientState s) = Some (r', k, c)"
      using searches_return [of "me_files me" "on_file_found (me_client me)" Path "(0, ClientState s)"] by auto
    ultimately show ?thesis by (cases r) (auto simp: QsyncClient_Start_def)
  qed
  ultimately show ?thesis
    by (cases a) (simp_all add: run_action_def split: prod.split)
qed

text \<open>The prompt reads to the end of the first line.\<close>

lemma prompt_reads_line:
  "CHR 0x0A \<notin> set cs \<Longrightarrow>
   prompt_loop (cs @ CHR 0x0A # rest) out = Some (rest, out @ concat (replicate (Suc (length cs)) prompt_line))"
proof (induction cs arbitrary: out)
  case Nil
  show ?case by (subst prompt_loop.simps) (simp add: newline_def)
next
  case (Cons c cs)
  from Cons.prems have "prompt_loop ((c # cs) @ CHR 0x0A # rest) out = prompt_loop (cs @ CHR 0x0A # rest) (out @ prompt_line)"
    by (subst prompt_loop.simps) (auto simp: newline_def)
  with Cons show ?case by simp
qed

lemma prompt_needs_line:
  assumes "prompt_loop inp out = Some r"
  shows "CHR 0x0A \<in> set inp"
proof (rule prompt_loop.raw_induct [where P = "\<lambda>inp out r. CHR 0x0A \<in> set inp", OF _ assms])
  fix loop :: "string \<Rightarrow> string \<Rightarrow> (string \<times> string) option" and inp out r
  assume IH: "\<And>inp out r. loop inp out = Some r \<Longrightarrow> CHR 0x0A \<in> set inp"
    and run: "(case inp of [] \<Rightarrow> loop [] (out @ prompt_line)
      | c # cs \<Rightarrow> if [c] = newline then Some (cs, out @ prompt_line) else loop cs (out @ prompt_line)) = Some r"
  show "CHR 0x0A \<in> set inp"
    using run IH by (cases inp) (fastforce simp: newline_def split: if_splits)+
qed


definition quiet_machine :: machine_env where
  "quiet_machine = \<lparr>me_quic = toy_quic, me_files = tiny_env, me_client = example_client_env\<rparr>"


end
