(* ===== verification/Spec2Isabelle.thy ===== *)
theory Spec2Isabelle
  imports ControlReceive Threadpool TreeRuns Startup Printing Program
begin

text \<open>
  A model of \<open>qsync\<close>, a program that copies a directory tree from a client to a server over QUIC, and
  the theorems about it.

  \<^bold>\<open>The program.\<close> \<open>main\<close> (\<open>qsync.cpp\<close>) starts a \<open>QsyncServer\<close> or a \<open>QsyncClient\<close>. Both make a
  certificate whose signing key is derived from a shared password (\<open>auth.cpp\<close>) and check the
  certificate of the other side. The client searches the tree (\<open>files.cpp\<close>) and sends a packed
  \<open>FileInfo\<close> for every entry on the control stream, each behind its size in four bytes
  (\<open>client.cpp\<close>). The server reassembles the messages from the receives of the stream and gives each to
  the one thread of its pool (\<open>server.cpp\<close>, \<open>threadpool.h\<close>). The worker answers an entry that is up to
  date with its id, makes directories and links at once, and opens a data stream for a file, on which
  it sends the id. The client opens the file it keeps under the id and sends it in chunks; the server
  writes the chunks to a temporary file and, at the end of the stream, renames it to the destination
  and sets its time. The parts share state: the client's table of file infos is filled by the search
  and emptied by both stream callbacks; the context of a data stream is used by a callback of MsQuic
  and by a thread of a pool.

  \<^bold>\<open>The theories.\<close>
  \<^item> \<open>Prelude\<close>: bytes, little-endian numbers, \<open>memcpy\<close> with its bounds, the kinds of undefined
    behaviour (\<open>ub\<close>), reachability, sequences of calls that may fail; the locale \<open>fixed_codec\<close>.
  \<^item> \<open>Framing\<close>: streams of frames, the locale \<open>framing\<close> for their reference parser, and the locale
    \<open>stream_reader\<close> for code that gets such a stream in pieces.
  \<^item> \<open>ControlReceive\<close>: \<open>QSyncServerControlStreamCallback\<close> and the fields it keeps. The state is the
    record \<open>control_state\<close>; the union of the size and the message buffer is laid out in one field of
    bytes and one option; \<open>scan_messages\<close>, \<open>continue_size\<close> and \<open>continue_message\<close> are the loop and the
    two branches for unfinished data. It is an instance of \<open>stream_reader\<close>.
  \<^item> \<open>Threadpool\<close>: the pool, with the worker's loop cut into the steps between which other threads can
    run; an instance of its locale \<open>fifo_queue\<close>.
  \<^item> \<open>Paths\<close>, \<open>FileSystem\<close>: the operations of \<open>std::filesystem\<close> the code calls, on lexical paths and on a
    table of nodes. Every call can be made to fail through \<open>fault\<close> and \<open>write_fault\<close>.
  \<^item> \<open>FileInfoMsg\<close>: the message, \<open>VectorStream\<close>, and the conversion of file times through UTC.
  \<^item> \<open>Traversal\<close>, \<open>Files\<close>, \<open>SearchResult\<close>: the loops of \<open>FindFiles\<close> and \<open>FindFilesParallel\<close> as partial
    functions, the locale \<open>traversal\<close> with the proof that both end, \<open>ProcessFolder\<close>,
    \<open>DirItemToFileInfo\<close>, \<open>DoesFileNeedUpdate\<close>, and what a whole search reports.
  \<^item> \<open>IdReader\<close>: the loop both client callbacks use to cut their receives into ids; an instance of
    \<open>stream_reader\<close>.
  \<^item> \<open>ClientControl\<close>: the callback of the client's search and \<open>QSyncClientControlStreamCallback\<close>.
  \<^item> \<open>ClientData\<close>: \<open>QsyncClient::DataStreamContext\<close>, its worker \<open>FileIoWorker\<close> and
    \<open>QSyncClientDataStreamCallback\<close>, as functions and as the machine \<open>send_step\<close>.
  \<^item> \<open>FsUpdate\<close>: how the file system changes when nothing fails.
  \<^item> \<open>ServerWorker\<close>: \<open>QSyncServerWorkerCallback\<close>, one definition per branch.
  \<^item> \<open>ServerData\<close>: \<open>QsyncServer::DataStreamContext\<close>, its worker \<open>FileIoWorker\<close> and
    \<open>QSyncServerDataStreamCallback\<close>, as functions and as the machine \<open>receive_step\<close>.
  \<^item> \<open>FileTransfer\<close>, \<open>TransferRuns\<close>: both machines at the ends of one data stream, with MsQuic's delivery between
    them and other threads of the server beside them: the record \<open>transfer\<close>, its steps \<open>transfer_step\<close>, the
    condition \<open>orderly\<close> on runs, the invariant, and the properties of whole runs.
  \<^item> \<open>TreeSync\<close>: one search taken apart by the server's control stream and served on an empty directory.
  \<^item> \<open>TreeMachine\<close>, \<open>TreeRuns\<close>: the worker, the client's two callbacks and a transfer for each requested file at
    work on one file system, over whatever the server already has: the record \<open>sync\<close>, its steps \<open>sync_step\<close>, the
    invariant \<open>sync_inv\<close>, and what it says of whole runs; \<open>synced\<close> is what a synchronisation leaves of an entry.
  \<^item> \<open>Auth\<close>: \<open>QcGenerateSigningKey\<close>, \<open>QcGenerateAuthCertificate\<close>, \<open>QcVerifyCertificate\<close>, with a ledger
    of the objects they allocate.
  \<^item> \<open>Printing\<close>: \<open>PrintFilesAndDirs\<close>, \<open>PrintFilePath\<close>, \<open>PrintHexBuffer\<close> and the listing \<open>main\<close> makes for one
    argument.
  \<^item> \<open>Startup\<close>: the dispatch of \<open>main\<close>, the two \<open>Start\<close> functions with the settings they give MsQuic, the
    listener and connection callbacks.
  \<^item> \<open>Program\<close>: \<open>main\<close> with its settings, what each command line runs, and the loop of the prompt.
  \<^item> This theory: the properties that span components.

  \<^bold>\<open>What the lemmas show.\<close> Reassembly (\<open>ControlReceive\<close>, \<open>IdReader\<close>): for which cuts of a stream the
  code hands on exactly the frames, and what it does for the others. Search (\<open>Files\<close>,
  \<open>SearchResult\<close>): both searches end and agree, the reports are complete and the paths in them resolve
  on the server. Transfer (\<open>ClientData\<close>, \<open>ServerData\<close>): under every interleaving the client's sends are
  the file in order and the transfer ends and does not stall; a file whose receives are handled one after
  the other is installed whole; and there are runs in which the code misbehaves. Both ends together
  (\<open>FileTransfer\<close>, \<open>TransferRuns\<close>): in every run in which no send is refused and no receive is indicated
  between \<open>ReceiveComplete\<close> and the look at \<open>FinalReceive\<close>, the destination is the old or the whole new
  file, the run has a bounded number of steps and ends with the file installed; without the second
  condition a wrong file is installed. The whole tree (\<open>TreeMachine\<close>, \<open>TreeRuns\<close>): any number of such
  transfers at once, beside the worker, keep out of each other's way, because the places of two entries differ;
  each file is the old or the new one at every moment, the run ends, and then every entry of the tree is up to
  date and nothing else has changed. The messages are taken to be there when the run starts; receiving one later
  only delays the step that serves it. Worker (\<open>ServerWorker\<close>): each info takes one of three ways, and what was settled asks for no
  further update. Certificates (\<open>Auth\<close>): which certificates pass, and that nothing leaks. Program (\<open>Startup\<close>, \<open>Program\<close>): when the two sides start and
  accept each other, and when the program ends. Here: the tree
  the client searches arrives on the server as messages, is recreated there as directories and requests,
  a requested file ends with the client's contents and time, a tree that is up to date is only answered, and
  the two command lines lead to all of this.

  \<^bold>\<open>Errors and bounds.\<close> Undefined behaviour is a value (\<open>Inl\<close> of \<open>ub\<close>): out-of-range reads and writes,
  null dereferences, uses after deletion and exceptions that nothing catches. Sizes and counters are natural
  numbers with the wrap-around of their width written out (\<open>u32_add\<close>, \<open>u32_sub\<close>, \<open>mod 2 ^ 64\<close>); ids and the
  fields of messages are words. No definition has fuel except the resolution of links, which follows at most
  40 of them as Linux does; the loops that might not end are partial functions: \<open>searches_terminate\<close> proves
  that those of the searches return, and \<open>main_returns_iff\<close> that the prompt's returns exactly when the input has
  the end of a line. The runs of the machines end within a budget that each step lowers.

  \<^bold>\<open>Parameters.\<close> Code that is not in the repository is an argument of the model: Cap'n Proto (\<open>capnp\<close>, with
  the law \<open>capnp_ok\<close>), OpenSSL (\<open>openssl\<close>, \<open>openssl_ok\<close>), MsQuic (which calls fail, which events it
  indicates), the allocator (\<open>heap\<close>, \<open>heap_ok\<close>), the clock (\<open>clock\<close>, \<open>clock_ok\<close>). Each law has an
  instance: \<open>toy_capnp\<close>, \<open>toy_ssl\<close>, \<open>filled_heap\<close>, \<open>example_clock\<close>.

  \<^bold>\<open>Not modelled.\<close> The Rust port under \<open>src/src\<close>; the messages the code writes to the console on its way; the
  exception \<open>directory_iterator::operator++\<close> may throw; what MsQuic does with the settings it is given. The
  file system does not stamp
  a directory when an entry of it changes. Data that \<open>fstream\<close> keeps in its buffer is written at once, so errors
  of \<open>flush\<close> and \<open>close\<close>, which the code does not look at, do not occur. Unsynchronised accesses are not
  undefined behaviour in the machines; their steps interleave. The tasks of \<open>FindFilesParallel\<close> are run one after
  the other, so the race on \<open>FileId\<close> does not show. The members of \<open>QsyncServer\<close> and \<open>QsyncClient\<close> that the
  constructors do not initialise start as zero.
\<close>

section \<open>The tree arrives as messages\<close>


lemma length_put_text: "length (put_text s) = 2 * length s + 1"
  by (induction s) simp_all

lemma length_toy: "length (serialize toy_capnp fi) = 27 + 2 * length (getPath fi) + 2 * length (getLinkPath fi)"
  by (simp add: toy_capnp_def serialize_concat length_put_text)

lemma location_info_link: "getLinkPath (location_info env base l k) = []"
  by (simp add: location_info_def entry_info_def generic_string_def rel_path_def Let_def)

lemma searched_length:
  assumes "node_at example_fs l \<noteq> None"
  shows "length (serialize toy_capnp (location_info searched_side [] l k)) \<le> 96"
proof -
  from assms have "l \<in> {[], [''s''], [''s'', ''a''], [''s'', ''d''], [''s'', ''d'', ''b'']}"
    by (auto simp: node_at_def example_fs_def split: if_splits)
  moreover have "getPath (location_info searched_side [] l k) = c_str (generic_string (lexically_relative (abs_path l) (abs_path [])))"
    using assms location_info_sel(1) [of searched_side l] by (auto simp: searched_side_def)
  ultimately show ?thesis
    by (auto simp: length_toy location_info_link lexically_relative_def abs_path_def generic_string_def c_str_def up_count_def dot_def)
qed

lemma searched_short:
  "\<forall>l k. node_at (env_fs searched_side) l \<noteq> None \<longrightarrow>
    length (serialize (env_capnp searched_side) (location_info searched_side (butlast [''s'']) l k)) < 2 ^ 32"
proof -
  have "length (serialize toy_capnp (location_info searched_side [] l k)) < 2 ^ 32" if "node_at example_fs l \<noteq> None" for l k
    using searched_length [OF that, of k] by simp
  then show ?thesis by (simp add: searched_side_def)
qed


section \<open>The two command lines\<close>

text \<open>
  C5. The program from its command lines: the server is started with a port, a password and a root, the
  client with the server's address, the port, a password and a directory; neither fails. Then both get
  to their prompts, the server listens and the client has connected and closed its side of the control
  stream; and when the server has received what the client has sent there, in whatever receives (under
  the condition on split sizes), and its worker has served every message on an empty base directory, the
  directories of the client's tree are there, exactly its files are requested, and the client keeps
  under each requested id the info of the file it stands for.
\<close>

theorem commands_mirror_tree:
  assumes fs: "plain_fs (env_fs fenv)" and Root: "path_of Root = abs_path r" "r \<noteq> []" and r: "is_dir (env_fs fenv) r"
    and few: "length (nodes (env_fs fenv)) < 2 ^ 64"
    and short: "\<forall>l k. node_at (env_fs fenv) l \<noteq> None \<longrightarrow>
      length (serialize (env_capnp fenv) (location_info fenv (butlast r) l k)) < 2 ^ 32"
    and client: "me_files cm = fenv" "\<not> malloc_fails (me_client cm)" "\<forall>i. \<not> send_fails (me_client cm) i"
      "\<forall>c. \<not> quic_fails (me_quic cm) c" "fst (QcGenerateAuthCertificate (quic_ssl (me_quic cm)) pw)"
    and server: "\<forall>c. \<not> quic_fails (me_quic sm) c" "fst (QcGenerateAuthCertificate (quic_ssl (me_quic sm)) pw')"
      "server_root (me_quic sm) sroot = Some (abs_path base)" "proper base"
    and heap: "heap_ok h" "never_fails h"
    and env: "server_ok senv" "server_capnp senv = env_capnp fenv" "capnp_ok (env_capnp fenv)"
    and dst: "plain_fs (server_fs s)" "is_dir (server_fs s) base"
      "\<forall>l. prefix base l \<and> l \<noteq> base \<longrightarrow> node_at (server_fs s) l = None"
  shows "\<exists>srv clt.
    run_action sm (main_dispatch [sprog, ''s'', decimal n, pw', sroot]) = Some (ServerLeft True srv) \<and> Listening srv = Some (of_nat n) \<and>
    run_action cm (main_dispatch [cprog, ''c'', addr, decimal n, pw, Root]) = Some (ClientLeft True clt) \<and>
    Connecting clt = Some (addr, of_nat n) \<and> ControlClosed clt \<and>
    (\<forall>bs. concat bs = concat (control_sent (ClientState clt)) \<and> run_ok (receive_one h) receive_ok init_control bs \<longrightarrow>
       (\<exists>cs ms s' ls ids.
          run_reader (receive_one h) init_control bs = Some (cs, ms) \<and> pending cs = [] \<and>
          serve_infos (senv\<lparr>BasePath := ServerBase srv\<rparr>) ms s = Inr s' \<and> answered s' = answered s \<and>
          (\<forall>l. prefix r l \<and> is_dir (env_fs fenv) l \<longrightarrow> is_dir (server_fs s') (mirrored base r l)) \<and>
          map fst (requested s') = map fst (requested s) @ ids \<and> distinct ls \<and>
          set ls = {l. prefix r l \<and> is_file (env_fs fenv) l} \<and>
          list_all2 (\<lambda>k l. FileInfos (ClientState clt) k =
            Some (serialize (env_capnp fenv) (location_info fenv (butlast r) l k))) ids ls))"
proof -
  from search_reports_tree [OF fs Root r, of 0] obtain ls where ls: "distinct ls"
    "set ls = {l. prefix r l \<and> (\<exists>n. node_at (env_fs fenv) l = Some n \<and> reported_type n \<noteq> None)}"
    "FindFiles fenv record_report Root (0, []) = Some (True, (of_nat (length ls), location_reports fenv (butlast r) 0 ls))"
    "parents_first {butlast r} ls" by auto
  let ?log = "location_reports fenv (butlast r) 0 ls"
  let ?files = "filter (\<lambda>(i, l). is_file (env_fs fenv) l) (zip (map fst ?log) ls)"
  from infos_delivered [OF ls(1-3) few short client(2,3) heap] obtain c where c:
    "FindFiles fenv (on_file_found (me_client cm)) Root (0, init_client) = Some (True, (of_nat (length ls), c))"
    "\<forall>i < length ls. FileInfos c (of_nat (Suc i)) =
       Some (serialize (env_capnp fenv) (location_info fenv (butlast r) (ls ! i) (of_nat (Suc i))))"
    "\<And>bs. concat bs = concat (control_sent c) \<Longrightarrow> run_ok (receive_one h) receive_ok init_control bs \<Longrightarrow>
       \<exists>s. run_reader (receive_one h) init_control bs = Some (s, map snd ?log) \<and> pending s = []" by blast
  from client_command [OF client(4,5)] c(1) client(1) obtain clt where clt:
    "run_action cm (main_dispatch [cprog, ''c'', addr, decimal n, pw, Root]) = Some (ClientLeft True clt)"
    "Connecting clt = Some (addr, of_nat n)" "ClientState clt = c" "ControlClosed clt" by blast
  from server_command [OF server(1-3)] obtain srv where srv:
    "run_action sm (main_dispatch [sprog, ''s'', decimal n, pw', sroot]) = Some (ServerLeft True srv)"
    "ServerBase srv = abs_path base" "Listening srv = Some (of_nat n)" by blast
  have "server_ok (senv\<lparr>BasePath := ServerBase srv\<rparr>)" "BasePath (senv\<lparr>BasePath := ServerBase srv\<rparr>) = abs_path base"
    "server_capnp (senv\<lparr>BasePath := ServerBase srv\<rparr>) = env_capnp fenv"
    using env(1,2) srv(2) by (simp_all add: server_ok_def)
  from infos_mirrored [OF fs Root(2) ls(1,2,4) this(1,2) server(4) this(3) env(3) dst, of 0] obtain s' where s':
    "serve_infos (senv\<lparr>BasePath := ServerBase srv\<rparr>) (map snd ?log) s = Inr s'" "answered s' = answered s"
    "\<forall>l. prefix r l \<and> is_dir (env_fs fenv) l \<longrightarrow> is_dir (server_fs s') (mirrored base r l)"
    "map fst (requested s') = map fst (requested s) @ map fst ?files" by blast
  have files: "distinct (map snd ?files)" "set (map snd ?files) = {l. prefix r l \<and> is_file (env_fs fenv) l}"
    and table: "list_all2 (\<lambda>k l. FileInfos c k = Some (serialize (env_capnp fenv) (location_info fenv (butlast r) l k)))
      (map fst ?files) (map snd ?files)"
    using requested_files [OF ls(1,2) c(2)] by blast+
  show ?thesis
    using clt srv(1,3) c(3) s' files table by (intro exI [of _ srv] exI [of _ clt]) blast
qed

definition server_side :: server_env where
  "server_side = \<lparr>BasePath = abs_path [], server_clock = example_clock, server_capnp = toy_capnp,
     answer_alloc_fails = False, control_send_fails = (\<lambda>_. False), stream_init_fails = (\<lambda>_. False)\<rparr>"

definition empty_server :: server_env where
  "empty_server = server_side\<lparr>BasePath := abs_path [''t'']\<rparr>"

definition empty_state :: server_state where
  "empty_state = \<lparr>server_fs = put_node [''t''] (Directory 1) example_fs, answered = [], requested = []\<rparr>"

lemma empty_target:
  "plain_fs (server_fs empty_state)" "is_dir (server_fs empty_state) [''t'']"
  "\<forall>l. prefix [''t''] l \<and> l \<noteq> [''t''] \<longrightarrow> node_at (server_fs empty_state) l = None"
  by (auto simp: empty_state_def plain_fs_def fs_wf_def is_dir_def node_at_def put_node_def example_fs_def proper_name_def
      dot_def dotdot_def slash_def split: if_splits)

definition client_machine :: machine_env where
  "client_machine = \<lparr>me_quic = toy_quic, me_files = searched_side,
     me_client = example_client_env\<lparr>send_fails := \<lambda>_. False\<rparr>\<rparr>"

definition server_machine :: machine_env where
  "server_machine = \<lparr>me_quic = toy_quic\<lparr>quic_fs := example_fs\<lparr>cwd := [''t'']\<rparr>\<rparr>, me_files = searched_side,
     me_client = example_client_env\<rparr>"

theorem commands_mirror_tree_witness:
  "\<exists>srv clt.
    run_action server_machine (main_dispatch [''qsync'', ''s'', decimal 99, ''pw'', []]) = Some (ServerLeft True srv) \<and>
    run_action client_machine (main_dispatch [''qsync'', ''c'', ''h'', decimal 99, ''pw'', ''/s'']) = Some (ClientLeft True clt) \<and>
    (\<forall>bs. concat bs = concat (control_sent (ClientState clt)) \<and>
        run_ok (receive_one (filled_heap (\<lambda>_. []))) receive_ok init_control bs \<longrightarrow>
       (\<exists>ms s'. serve_infos (empty_server\<lparr>BasePath := ServerBase srv\<rparr>) ms empty_state = Inr s' \<and>
          is_dir (server_fs s') [''t'', ''s'', ''d'']))"
proof -
  have side: "env_fs searched_side = example_fs" "env_capnp searched_side = toy_capnp"
    by (simp_all add: searched_side_def)
  have source: "plain_fs (env_fs searched_side)" "is_dir (env_fs searched_side) [''s'']"
    "is_dir (env_fs searched_side) [''s'', ''d'']" "length (nodes (env_fs searched_side)) < 2 ^ 64"
    using example_fs by (simp_all add: side is_dir_def node_at_def example_fs_def)
  have client: "me_files client_machine = searched_side" "\<not> malloc_fails (me_client client_machine)"
    "\<forall>i. \<not> send_fails (me_client client_machine) i" "\<forall>c. \<not> quic_fails (me_quic client_machine) c"
    "fst (QcGenerateAuthCertificate (quic_ssl (me_quic client_machine)) ''pw'')"
    using toy_certificate by (simp_all add: client_machine_def example_client_env_def toy_quic_def)
  have server: "\<forall>c. \<not> quic_fails (me_quic server_machine) c"
    "fst (QcGenerateAuthCertificate (quic_ssl (me_quic server_machine)) ''pw'')"
    "server_root (me_quic server_machine) [] = Some (abs_path [''t''])" "proper [''t'']"
    using toy_certificate
    by (simp_all add: server_machine_def toy_quic_def server_root_def fs_current_path_def example_fs_def
        proper_name_def slash_def dot_def dotdot_def)
  have env: "server_ok empty_server" "server_capnp empty_server = env_capnp searched_side" "capnp_ok (env_capnp searched_side)"
    using toy_capnp_ok by (simp_all add: empty_server_def server_side_def server_ok_def side)
  have mirror: "mirrored [''t''] [''s''] [''s'', ''d''] = [''t'', ''s'', ''d'']" "prefix [''s''] [''s'', ''d'']"
    by (simp_all add: mirrored_def)
  have heap: "heap_ok (filled_heap (\<lambda>_. []))" "never_fails (filled_heap (\<lambda>_. []))"
    using filled_heap_ok by blast+
  obtain srv clt where run:
    "run_action server_machine (main_dispatch [''qsync'', ''s'', decimal 99, ''pw'', []]) = Some (ServerLeft True srv)"
    "run_action client_machine (main_dispatch [''qsync'', ''c'', ''h'', decimal 99, ''pw'', ''/s'']) = Some (ClientLeft True clt)"
    and served: "\<And>bs. concat bs = concat (control_sent (ClientState clt)) \<Longrightarrow>
        run_ok (receive_one (filled_heap (\<lambda>_. []))) receive_ok init_control bs \<Longrightarrow>
        \<exists>ms s'. serve_infos (empty_server\<lparr>BasePath := ServerBase srv\<rparr>) ms empty_state = Inr s' \<and>
          (\<forall>l. prefix [''s''] l \<and> is_dir (env_fs searched_side) l \<longrightarrow> is_dir (server_fs s') (mirrored [''t''] [''s''] l))"
    using commands_mirror_tree [OF source(1) example_fs(3) _ source(2,4) searched_short client server heap env
        empty_target, of "''qsync''" 99 "''qsync''" "''h''"] by blast
  have "\<exists>ms s'. serve_infos (empty_server\<lparr>BasePath := ServerBase srv\<rparr>) ms empty_state = Inr s' \<and>
      is_dir (server_fs s') [''t'', ''s'', ''d'']"
    if "concat bs = concat (control_sent (ClientState clt))"
      "run_ok (receive_one (filled_heap (\<lambda>_. []))) receive_ok init_control bs" for bs
    using served [OF that] source(3) mirror by metis
  with run show ?thesis by blast
qed

section \<open>An example of the whole synchronisation\<close>

text \<open>
  The server has the client's directory and, in it, an old version of one of its files, a file the client
  does not have, and the rest of a temporary file.
\<close>

definition searched_data :: data_env where
  "searched_data = \<lparr>data_fs = example_fs, data_capnp = toy_capnp, SyncPath = ''/s''\<rparr>"

definition older_state :: server_state where
  "older_state = \<lparr>server_fs = \<lparr>nodes = [([], Directory 0), ([''t''], Directory 1), ([''t'', ''s''], Directory 6),
       ([''t'', ''s'', ''a''], Regular [9] 1), ([''t'', ''s'', ''a.qsync''], Regular [1] 7), ([''t'', ''s'', ''z''], Regular [5] 5)],
     cwd = [], now = 9, fault = \<lambda>_ _. False, write_fault = \<lambda>_ _. False, other_size = Some 0\<rparr>,
     answered = [], requested = []\<rparr>"

lemma searched_nodes:
  "reported_at searched_side [''s''] l n \<longleftrightarrow> (l, n) \<in> {([''s''], Directory 1), ([''s'', ''a''], Regular [1, 2] 2),
     ([''s'', ''d''], Directory 3), ([''s'', ''d'', ''b''], Regular [] 4)}"
  "prefix [''s''] l \<and> is_file (env_fs searched_side) l \<longleftrightarrow> l = [''s'', ''a''] \<or> l = [''s'', ''d'', ''b'']"
  by (auto simp: searched_side_def node_at_def example_fs_def is_file_def split: if_splits)

lemma source_searched: "source_ok searched_side [''s'']"
proof -
  have side: "env_fs searched_side = example_fs" "env_capnp searched_side = toy_capnp" "env_clock searched_side = example_clock"
    by (simp_all add: searched_side_def)
  have "times_fit example_clock n \<and> 0 \<le> time_of n + clk_epoch example_clock * clk_rate example_clock"
    if "reported_at searched_side [''s''] l n" for l n
    using that unfolding searched_nodes(1)
    by (auto simp: times_fit_def example_clock_def to_utc_seconds_def leaps_until_def)
  moreover have "node_at example_fs (temp_loc l) = None" if "prefix [''s''] l \<and> is_file (env_fs searched_side) l" for l
    using that unfolding searched_nodes(2) by (auto simp: node_at_def example_fs_def temp_loc_def)
  moreover have "clock_ok example_clock" "length (nodes example_fs) < 2 ^ 64"
    by (simp_all add: clock_ok_def example_clock_def example_fs_def)
  ultimately show ?thesis using example_fs(1,2) toy_capnp_ok unfolding source_ok_def side by blast
qed

lemma searched_places:
  "mirrored [''t''] [''s''] [''s''] = [''t'', ''s'']" "mirrored [''t''] [''s''] [''s'', ''a''] = [''t'', ''s'', ''a'']"
  "mirrored [''t''] [''s''] [''s'', ''d''] = [''t'', ''s'', ''d'']"
  "mirrored [''t''] [''s''] [''s'', ''d'', ''b''] = [''t'', ''s'', ''d'', ''b'']"
  "temp_loc [''t'', ''s'', ''a''] = [''t'', ''s'', ''a.qsync'']" "temp_loc [''t'', ''s'', ''d'', ''b''] = [''t'', ''s'', ''d'', ''b.qsync'']"
  by (simp_all add: mirrored_def temp_loc_def)

lemma empty_server_ok:
  "server_ok empty_server" "BasePath empty_server = abs_path [''t'']" "proper [''t'']"
  "server_capnp empty_server = env_capnp searched_side" "server_clock empty_server = env_clock searched_side"
  by (simp_all add: empty_server_def server_side_def server_ok_def searched_side_def proper_name_def slash_def dot_def dotdot_def)

lemma older_nodes:
  "node_at (server_fs older_state) l = (if l = [] then Some (Directory 0) else if l = [''t''] then Some (Directory 1)
     else if l = [''t'', ''s''] then Some (Directory 6) else if l = [''t'', ''s'', ''a''] then Some (Regular [9] 1)
     else if l = [''t'', ''s'', ''a.qsync''] then Some (Regular [1] 7)
     else if l = [''t'', ''s'', ''z''] then Some (Regular [5] 5) else None)"
  by (simp add: older_state_def node_at_def)

lemma target_older: "target_ok searched_side empty_server [''t''] [''s''] older_state"
proof -
  have "plain_fs (server_fs older_state)" "no_write_faults (server_fs older_state)" "is_dir (server_fs older_state) [''t'']"
    "requested older_state = []" "answered older_state = []"
    by (auto simp: older_state_def plain_fs_def fs_wf_def is_dir_def node_at_def no_write_faults_def proper_name_def
      dot_def dotdot_def slash_def split: if_splits)
  moreover have "reported_type n' = reported_type n" if "reported_at searched_side [''s''] l n"
    "node_at (server_fs older_state) (mirrored [''t''] [''s''] l) = Some n'" for l n n'
    using that unfolding searched_nodes(1) by (auto simp: searched_places older_nodes)
  moreover have "type_of n' = FtRegular" if "prefix [''s''] l \<and> is_file (env_fs searched_side) l"
    "node_at (server_fs older_state) (temp_loc (mirrored [''t''] [''s''] l)) = Some n'" for l n'
    using that unfolding searched_nodes(2) by (auto simp: searched_places older_nodes)
  ultimately show ?thesis using empty_server_ok unfolding target_ok_def by blast
qed

lemma target_empty: "target_ok searched_side empty_server [''t''] [''s''] empty_state"
proof -
  have "no_write_faults (server_fs empty_state)" "requested empty_state = []" "answered empty_state = []"
    by (simp_all add: empty_state_def no_write_faults_def put_node_def example_fs_def)
  moreover have "node_at (server_fs empty_state) (mirrored [''t''] [''s''] l) = None" if "prefix [''s''] l" for l
    using empty_target(3) mirrored_below [of "[''s'']" l "[''t'']"] that by simp
  moreover have "node_at (server_fs empty_state) (temp_loc (mirrored [''t''] [''s''] l)) = None"
    if "prefix [''s''] l \<and> is_file (env_fs searched_side) l" for l
    using that empty_target(3) unfolding searched_nodes(2) by (auto simp: searched_places)
  ultimately show ?thesis using empty_server_ok empty_target(1,2) unfolding target_ok_def by fastforce
qed

lemma searched_opens: "client_opens searched_side searched_data [''s'']"
  using example_fs(3) by (simp add: searched_data_def searched_side_def)

lemma searched_client: "\<not> malloc_fails (me_client client_machine)" "\<forall>i. \<not> send_fails (me_client client_machine) i"
  by (simp_all add: client_machine_def example_client_env_def)

lemma length_concat_le: "(\<And>xs. xs \<in> set xss \<Longrightarrow> length xs \<le> k) \<Longrightarrow> length (concat xss) \<le> length xss * k"
  by (induction xss) (simp_all add: add_mono)

text \<open>The server can take what the client has sent from one receive.\<close>

lemma searched_received:
  obtains c bs cs ms where
    "FindFiles searched_side (on_file_found (me_client client_machine)) (SyncPath searched_data) (0, init_client) = Some (True, (4, c))"
    "concat bs = concat (control_sent c)" "run_ok (receive_one (filled_heap (\<lambda>_. []))) receive_ok init_control bs"
    "run_reader (receive_one (filled_heap (\<lambda>_. []))) init_control bs = Some (cs, ms)"
proof -
  have side: "env_fs searched_side = example_fs" "env_capnp searched_side = toy_capnp" by (simp_all add: searched_side_def)
  have source: "plain_fs (env_fs searched_side)" "is_dir (env_fs searched_side) [''s'']"
    "length (nodes (env_fs searched_side)) < 2 ^ 64"
    using example_fs by (simp_all add: side example_fs_def)
  from search_reports_tree [OF source(1) example_fs(3) _ source(2), of 0] obtain ls where ls: "distinct ls"
    "set ls = {l. prefix [''s''] l \<and> (\<exists>n. node_at (env_fs searched_side) l = Some n \<and> reported_type n \<noteq> None)}"
    "FindFiles searched_side record_report ''/s'' (0, []) = Some (True, (of_nat (length ls), location_reports searched_side [] 0 ls))"
    by auto
  let ?log = "location_reports searched_side [] 0 ls"
  have base: "butlast [''s''] = []" by simp
  have heap: "heap_ok (filled_heap (\<lambda>_. []))" "never_fails (filled_heap (\<lambda>_. []))"
    using filled_heap_ok by blast+
  from infos_delivered [OF ls(1,2) _ source(3) searched_short searched_client heap, unfolded base, OF ls(3)] obtain c where c:
    "FindFiles searched_side (on_file_found (me_client client_machine)) ''/s'' (0, init_client) = Some (True, (of_nat (length ls), c))"
    "control_sent c = map (frame_bytes \<circ> message_frame \<circ> snd) ?log"
    "\<And>bs. concat bs = concat (control_sent c) \<Longrightarrow> run_ok (receive_one (filled_heap (\<lambda>_. []))) receive_ok init_control bs \<Longrightarrow>
       \<exists>s. run_reader (receive_one (filled_heap (\<lambda>_. []))) init_control bs = Some (s, map snd ?log) \<and> pending s = []"
    by blast
  have all: "set ls = {[''s''], [''s'', ''a''], [''s'', ''d''], [''s'', ''d'', ''b'']}"
    unfolding ls(2) side by (auto simp: node_at_def example_fs_def split: if_splits)
  then have four: "length ls = 4" using distinct_card [OF ls(1)] by simp
  have "length m \<le> 100" if "m \<in> set (control_sent c)" for m
  proof -
    from that obtain i where i: "i < length ls"
      "m = enc_u32 (of_nat (length (serialize toy_capnp (location_info searched_side [] (ls ! i) (of_nat (Suc i)))))) @
         serialize toy_capnp (location_info searched_side [] (ls ! i) (of_nat (Suc i)))"
      by (auto simp: c(2) location_reports_map side frame_bytes_def message_frame_def)
    have "node_at example_fs (ls ! i) \<noteq> None" using nth_mem [OF i(1)] unfolding ls(2) side by auto
    from searched_length [OF this] show ?thesis by (simp add: i(2))
  qed
  from length_concat_le [of "control_sent c" 100, OF this] have "length (concat (control_sent c)) \<le> 400"
    by (simp add: c(2) location_reports_map four)
  then have fits: "run_ok (receive_one (filled_heap (\<lambda>_. []))) receive_ok init_control [concat (control_sent c)]"
    by (simp add: receive_ok_def size_with_message_def init_control_def split: option.split del: length_concat)
  with c(3) [of "[concat (control_sent c)]"] obtain cs where
    "run_reader (receive_one (filled_heap (\<lambda>_. []))) init_control [concat (control_sent c)] = Some (cs, map snd ?log)" by auto
  with that [of c "[concat (control_sent c)]" cs] c(1) fits show thesis by (simp add: four searched_data_def)
qed

lemma searched_run:
  assumes target: "target_ok searched_side empty_server [''t''] [''s''] s"
  obtains c bs cs ms es x where
    "FindFiles searched_side (on_file_found (me_client client_machine)) (SyncPath searched_data) (0, init_client) = Some (True, (4, c))"
    "concat bs = concat (control_sent c)" "run_ok (receive_one (filled_heap (\<lambda>_. []))) receive_ok init_control bs"
    "run_reader (receive_one (filled_heap (\<lambda>_. []))) init_control bs = Some (cs, ms)"
    "sync_run empty_server searched_data (sync_from ms c s) es x" "all_done x"
proof -
  obtain c bs cs ms where got:
    "FindFiles searched_side (on_file_found (me_client client_machine)) (SyncPath searched_data) (0, init_client) = Some (True, (4, c))"
    "concat bs = concat (control_sent c)" "run_ok (receive_one (filled_heap (\<lambda>_. []))) receive_ok init_control bs"
    "run_reader (receive_one (filled_heap (\<lambda>_. []))) init_control bs = Some (cs, ms)"
    by (rule searched_received)
  obtain ls where "distinct ls"
    "set ls = {l. prefix [''s''] l \<and> (\<exists>n. node_at (env_fs searched_side) l = Some n \<and> reported_type n \<noteq> None)}"
    and ls: "tree_ok searched_side empty_server searched_data [''t''] [''s''] ls"
    "origin_ok searched_side [''t''] [''s''] ls (sync_from ms c s)"
    "sync_inv searched_side empty_server [''t''] [''s''] ls (sync_from ms c s) 0 (sync_from ms c s)"
    and "\<forall>k m. FileInfos c k = Some m \<longrightarrow> (\<exists>i < length ls. k = file_id i \<and> m = message_at searched_side [''s''] ls i)"
    "length ms = length ls"
    by (rule search_begins_sync [OF source_searched target searched_opens searched_short searched_client filled_heap_ok got])
  have "sync_alive (sync_from ms c s)" by (simp add: sync_alive_def sync_from_def)
  with sync_continues [OF sync_start ls] obtain es x where
    "sync_run empty_server searched_data (sync_from ms c s) ([] @ es) x" "all_done x" by blast
  with that [OF got] show thesis by simp
qed

lemma searched_synced:
  "synced (env_clock searched_side) (Regular c t) None = Some (Regular c t)"
  "synced (env_clock searched_side) (Directory 1) (Some (Directory 6)) = Some (Directory 6)"
  "synced (env_clock searched_side) (Regular [1, 2] 2) (Some (Regular [9] 1)) = Some (Regular [1, 2] 2)"
  by (simp_all add: synced_def up_to_date_def whole_seconds_def searched_side_def example_clock_def from_utc_def
      utc_to_sys_def to_utc_seconds_def leaps_until_def)

section \<open>The whole synchronisation\<close>



text \<open>
  C2. At every moment of every such run, each file of the tree is on the server what it was at the start or
  what the synchronisation leaves there, never a part; nothing but the places of the tree has changed; and
  the server can take no step that is not defined, only a client's transfer can.
\<close>

theorem tree_never_partial:
  assumes source: "source_ok fenv r" and target: "target_ok fenv senv base r s" and opens: "client_opens fenv denv r"
    and short: "\<forall>l k. node_at (env_fs fenv) l \<noteq> None \<longrightarrow>
      length (serialize (env_capnp fenv) (location_info fenv (butlast r) l k)) < 2 ^ 32"
    and client: "\<not> malloc_fails cenv" "\<forall>i. \<not> send_fails cenv i"
    and heap: "heap_ok h" "never_fails h"
    and found: "FindFiles fenv (on_file_found cenv) (SyncPath denv) (0, init_client) = Some (ok, (k, c))"
    and received: "concat bs = concat (control_sent c)" "run_ok (receive_one h) receive_ok init_control bs"
      "run_reader (receive_one h) init_control bs = Some (cs, ms)"
    and run: "sync_run senv denv (sync_from ms c s) es x"
  shows "(\<forall>l content t. prefix r l \<and> node_at (env_fs fenv) l = Some (Regular content t) \<longrightarrow>
       node_at (sync_files x) (mirrored base r l) = node_at (server_fs s) (mirrored base r l) \<or>
       node_at (sync_files x) (mirrored base r l) =
         synced (env_clock fenv) (Regular content t) (node_at (server_fs s) (mirrored base r l))) \<and>
    (\<forall>l'. l' \<notin> tree_places fenv base r \<longrightarrow> node_at (sync_files x) l' = node_at (server_fs s) l') \<and>
    (\<forall>e u. sync_orderly e x \<and> sync_step senv denv e x = Some (Inl u) \<longrightarrow> (\<exists>i e'. e = Move i (OnClient e')))"
proof -
  obtain ls where ls: "distinct ls"
    "set ls = {l. prefix r l \<and> (\<exists>n. node_at (env_fs fenv) l = Some n \<and> reported_type n \<noteq> None)}"
    "tree_ok fenv senv denv base r ls" "origin_ok fenv base r ls (sync_from ms c s)"
    "sync_inv fenv senv base r ls (sync_from ms c s) 0 (sync_from ms c s)"
    "\<forall>k m. FileInfos c k = Some m \<longrightarrow> (\<exists>i < length ls. k = file_id i \<and> m = message_at fenv r ls i)" "length ms = length ls"
    by (rule search_begins_sync [OF source target opens short client heap found received])
  from sync_run_inv [OF run(1) ls(3-5)] obtain n where inv: "sync_inv fenv senv base r ls (sync_from ms c s) n x" by blast
  show ?thesis
    using run_files_partial [OF source target ls(2,3) inv] run_outside [OF inv ls(2)] sync_failure [OF ls(3,4) inv]
    by blast
qed

theorem tree_never_partial_witness:
  "\<exists>c ms es x. sync_run empty_server searched_data (sync_from ms c older_state) es x \<and>
    node_at (sync_files x) [''t'', ''s'', ''a''] \<in> {Some (Regular [9] 1), Some (Regular [1, 2] 2)} \<and>
    node_at (sync_files x) [''t'', ''s'', ''z''] = Some (Regular [5] 5)"
proof -
  obtain c bs cs ms es x where got:
    "FindFiles searched_side (on_file_found (me_client client_machine)) (SyncPath searched_data) (0, init_client) = Some (True, (4, c))"
    "concat bs = concat (control_sent c)" "run_ok (receive_one (filled_heap (\<lambda>_. []))) receive_ok init_control bs"
    "run_reader (receive_one (filled_heap (\<lambda>_. []))) init_control bs = Some (cs, ms)"
    and run: "sync_run empty_server searched_data (sync_from ms c older_state) es x" "all_done x"
    by (rule searched_run [OF target_older])
  note all = tree_never_partial [OF source_searched target_older searched_opens searched_short searched_client filled_heap_ok got run(1)]
  have "[''t'', ''s'', ''z''] \<notin> tree_places searched_side [''t''] [''s'']"
    unfolding tree_places_def searched_nodes by (auto simp: searched_places)
  with all have "node_at (sync_files x) [''t'', ''s'', ''z''] = Some (Regular [5] 5)" by (simp add: older_nodes)
  moreover have "node_at (env_fs searched_side) [''s'', ''a''] = Some (Regular [1, 2] 2)"
    by (simp add: searched_side_def example_fs_def node_at_def)
  with all [THEN conjunct1, rule_format, of "[''s'', ''a'']" "[1, 2]" 2]
  have "node_at (sync_files x) [''t'', ''s'', ''a''] \<in> {Some (Regular [9] 1), Some (Regular [1, 2] 2)}"
    by (simp add: searched_places older_nodes searched_synced)
  ultimately show ?thesis using run(1) by blast
qed





section \<open>A file is synchronised\<close>

text \<open>
  The request of a file: what the server's worker and the client's callback do with the info, and where
  the file goes.
\<close>

lemma file_requested:
  assumes File: "File = location_info fenv (butlast r) (butlast r @ ms) k"
    and source: "plain_fs (env_fs fenv)" "node_at (env_fs fenv) (butlast r @ ms) = Some (Regular content t)"
      "path_of (SyncPath denv) = abs_path r" "r \<noteq> []" "ms \<noteq> []" "proper r"
    and same: "data_fs denv = env_fs fenv" "data_capnp denv = env_capnp fenv" "server_capnp senv = env_capnp fenv"
      "server_clock senv = env_clock fenv"
    and capnp: "capnp_ok (env_capnp fenv)"
    and clock: "clock_ok (env_clock fenv)" "0 \<le> t + clk_epoch (env_clock fenv) * clk_rate (env_clock fenv)"
      "to_utc_seconds (env_clock fenv) t < 2 ^ 63" "- (2 ^ 63) \<le> to_utc_seconds (env_clock fenv) t"
    and size: "length content < 2 ^ 64"
    and known: "FileInfos c k = Some (serialize (env_capnp fenv) File)"
    and server: "server_ok senv" "BasePath senv = abs_path base" "proper base"
    and target: "plain_fs (server_fs s)" "no_write_faults (server_fs s)" "file_place (server_fs s) (base @ ms)"
      "file_place (server_fs s) (temp_loc (base @ ms))"
    and needed: "DoesFileNeedUpdate (env_clock fenv) (server_fs s) (abs_path base) File"
  shows "\<exists>ctx c' d'.
    file_context senv File (server_fs s) = Some ctx \<and> destination senv File = abs_path (base @ ms) \<and>
    getType File = FILE \<and> unat (getSize File) = length content \<and>
    new_file_time senv File = t - (t + clk_epoch (env_clock fenv) * clk_rate (env_clock fenv)) mod clk_rate (env_clock fenv) \<and>
    QSyncServerWorkerCallback senv (serialize (env_capnp fenv) File) s =
      Inr (s\<lparr>requested := requested s @ [(k, ctx\<lparr>RefCount := 1\<rparr>)]\<rparr>) \<and>
    QSyncClientDataStreamCallback denv (c, new_stream) (ClientReceive [enc_u64 k]) = Inr (c', Some d') \<and>
    unread d' = content \<and> work d' = 1 \<and> sent d' = []"
proof -
  note node = source(2)
  from source(1) node have proper: "proper (butlast r @ ms)" by (auto simp: plain_fs_def dest: fs_wf_node)
  have sel: "getType File = FILE" "getId File = k" "unat (getSize File) = length content"
    using location_info_sel [OF node, of "butlast r" k] size
    by (simp_all add: File unat_of_nat take_bit_nat_eq_self)
  have dest: "destination senv File = abs_path (base @ ms)"
    using reported_path_place [OF proper server(3) source(5) node, of k] server(2)
    by (simp add: destination_def File)
  have time: "new_file_time senv File = t - (t + clk_epoch (env_clock fenv) * clk_rate (env_clock fenv)) mod clk_rate (env_clock fenv)"
    using reported_time [OF node source(1), of "butlast r" k] from_to_utc_seconds [OF clock(1,2)] clock(3,4)
    by (simp add: new_file_time_def same File)
  from target(3) have D: "base @ ms \<noteq> []" "proper (base @ ms)" "is_dir (server_fs s) (butlast (base @ ms))"
    by (simp_all add: file_place_def leaf_place_def)
  from file_context_plain [OF target(1) D dest] obtain ctx where ctx: "file_context senv File (server_fs s) = Some ctx" by blast
  have "QSyncServerWorkerCallback senv (serialize (env_capnp fenv) File) s =
      Inr (s\<lparr>requested := requested s @ [(k, ctx\<lparr>RefCount := 1\<rparr>)]\<rparr>)"
    using server(1,2) needed ctx sel unpack_serialize [OF capnp, of File]
    by (simp add: QSyncServerWorkerCallback_def request_file_def server_ok_def same Let_def)
  moreover
  have "source_path denv File = abs_path (butlast r @ ms)"
    unfolding File by (rule source_path_reported [OF source(3,4) proper source(6,5) node])
  then have "fs_read_file (data_fs denv) (source_path denv File) = Some content"
    using plain_stat [OF source(1) node] source(1) by (simp add: same fs_read_file_def plain_fs_def)
  with request_opens_file [of denv c k] known unpack_serialize [OF capnp, of File] obtain c' d' where
    "QSyncClientDataStreamCallback denv (c, new_stream) (ClientReceive [enc_u64 k]) = Inr (c', Some d')"
    "unread d' = content" "work d' = 1" "sent d' = []" by (auto simp: same)
  moreover note ctx dest sel(1,3) time
  ultimately show ?thesis by blast
qed

text \<open>
  The whole way of one file: an info the client has reported and that asks for an update makes the
  server request its id; the client then opens the reported file; and when the transfer has come to rest
  and the server has received what was sent, the destination holds the client's contents with the
  client's time cut to whole seconds, the temporary file is gone, nothing else has changed, and the info
  asks for no further update.
\<close>

theorem file_synchronised:
  assumes File: "File = location_info fenv (butlast r) (butlast r @ ms) k"
    and source: "plain_fs (env_fs fenv)" "node_at (env_fs fenv) (butlast r @ ms) = Some (Regular content t)"
      "path_of (SyncPath denv) = abs_path r" "r \<noteq> []" "ms \<noteq> []" "proper r"
    and same: "data_fs denv = env_fs fenv" "data_capnp denv = env_capnp fenv" "server_capnp senv = env_capnp fenv"
      "server_clock senv = env_clock fenv"
    and capnp: "capnp_ok (env_capnp fenv)"
    and clock: "clock_ok (env_clock fenv)" "0 \<le> t + clk_epoch (env_clock fenv) * clk_rate (env_clock fenv)"
      "to_utc_seconds (env_clock fenv) t < 2 ^ 63" "- (2 ^ 63) \<le> to_utc_seconds (env_clock fenv) t"
    and size: "length content < 2 ^ 64"
    and known: "FileInfos c k = Some (serialize (env_capnp fenv) File)"
    and server: "server_ok senv" "BasePath senv = abs_path base" "proper base"
    and target: "plain_fs (server_fs s)" "no_write_faults (server_fs s)" "file_place (server_fs s) (base @ ms)"
      "file_place (server_fs s) (temp_loc (base @ ms))"
    and needed: "DoesFileNeedUpdate (env_clock fenv) (server_fs s) (abs_path base) File"
    and transfer: "transfers content m" "strm m = Some d" "worker_at m = WorkerIdle" "callback_at m = CallbackIdle"
      "queued m = 0" "in_flight d = 0"
    and pieces: "\<forall>b \<in> set (bs @ [b]). length b \<le> 2" "concat (concat (bs @ [b])) = concat (map fst (sent d))"
  shows "\<exists>ctx c' d' fs' ctx'.
    QSyncServerWorkerCallback senv (serialize (env_capnp fenv) File) s = Inr (s\<lparr>requested := requested s @ [(k, ctx)]\<rparr>) \<and>
    QSyncClientDataStreamCallback denv (c, new_stream) (ClientReceive [enc_u64 k]) = Inr (c', Some d') \<and>
    unread d' = content \<and> work d' = 1 \<and> sent d' = [] \<and>
    receive_file (server_fs s) ctx (map (\<lambda>b. (b, False)) bs @ [(b, True)]) = Inr (fs', Some ctx') \<and>
    (\<forall>l'. node_at fs' l' =
       (if l' = base @ ms
        then Some (Regular content (t - (t + clk_epoch (env_clock fenv) * clk_rate (env_clock fenv)) mod clk_rate (env_clock fenv)))
        else if l' = temp_loc (base @ ms) then None else node_at (server_fs s) l')) \<and>
    \<not> DoesFileNeedUpdate (env_clock fenv) fs' (abs_path base) File"
proof -
  from file_requested [OF File source same capnp clock size known server target needed] obtain ctx c' d' where
    req: "file_context senv File (server_fs s) = Some ctx" "destination senv File = abs_path (base @ ms)"
      "getType File = FILE" "unat (getSize File) = length content"
      "new_file_time senv File = t - (t + clk_epoch (env_clock fenv) * clk_rate (env_clock fenv)) mod clk_rate (env_clock fenv)"
      "QSyncServerWorkerCallback senv (serialize (env_capnp fenv) File) s =
        Inr (s\<lparr>requested := requested s @ [(k, ctx\<lparr>RefCount := 1\<rparr>)]\<rparr>)"
      "QSyncClientDataStreamCallback denv (c, new_stream) (ClientReceive [enc_u64 k]) = Inr (c', Some d')"
      "unread d' = content" "work d' = 1" "sent d' = []" by blast
  have "concat (concat (bs @ [b])) = content"
    using transfer_complete [OF transfer] pieces(2) by simp
  with file_received [OF req(1-3) target pieces(1)] req(4) obtain fs' ctx' where
    "receive_file (server_fs s) (ctx\<lparr>RefCount := 1\<rparr>) (map (\<lambda>b. (b, False)) bs @ [(b, True)]) = Inr (fs', Some ctx')"
    "\<forall>l'. node_at fs' l' = (if l' = base @ ms then Some (Regular content (new_file_time senv File))
       else if l' = temp_loc (base @ ms) then None else node_at (server_fs s) l')"
    "\<not> DoesFileNeedUpdate (env_clock fenv) fs' (abs_path base) File"
    by (auto simp: same server(2) simp del: receive_file.simps)
  with req(6-10) show ?thesis unfolding req(5) by blast
qed


definition client_side :: files_env where
  "client_side = \<lparr>env_fs = put_node [''s'', ''a''] (Regular [7, 8] 3) example_fs, env_clock = example_clock,
     env_capnp = toy_capnp\<rparr>"

definition client_data_side :: data_env where
  "client_data_side = \<lparr>data_fs = env_fs client_side, data_capnp = toy_capnp, SyncPath = ''/s''\<rparr>"

lemma client_side_plain: "plain_fs (env_fs client_side)"
  by (simp add: client_side_def plain_fs_def fs_wf_def is_dir_def node_at_def put_node_def example_fs_def proper_name_def
      dot_def dotdot_def slash_def)

abbreviation synced_info :: FileInfo where
  "synced_info \<equiv> location_info client_side [] [''s'', ''a''] 7"

definition synced_client :: client where
  "synced_client = init_client\<lparr>FileInfos := [7 \<mapsto> serialize toy_capnp synced_info]\<rparr>"

lemma synced_node: "node_at (env_fs client_side) [''s'', ''a''] = Some (Regular [7, 8] 3)"
  by (simp add: client_side_def)

lemma synced_clock: "0 \<le> 3 + clk_epoch example_clock * clk_rate example_clock" "to_utc_seconds example_clock 3 = 3"
  "clk_rate example_clock = 1"
  by (simp_all add: example_clock_def to_utc_seconds_def leaps_until_def)

lemma synced_needed: "DoesFileNeedUpdate example_clock example_fs (abs_path []) synced_info"
proof -
  have "message_time synced_info = 3"
    using reported_time [OF synced_node client_side_plain]
    by (simp add: client_side_def example_clock_def to_utc_seconds_def leaps_until_def)
  moreover have "path_append (abs_path []) (path_of (c_str (getPath synced_info))) = abs_path ([] @ [''s'', ''a''])"
    using reported_path_place [of "[]" "[''s'', ''a'']" "[]" client_side "Regular [7, 8] 3" 7] synced_node
    by (simp add: proper_name_def slash_def dot_def dotdot_def)
  ultimately show ?thesis
    using plain_update [OF example_fs(1), of "[''s'', ''a'']" "abs_path []" synced_info example_clock] location_info_sel(2) [OF synced_node, of "[]" 7]
    by (simp add: example_fs_def node_at_def example_clock_def from_utc_def utc_to_sys_def proper_name_def slash_def dot_def dotdot_def)
qed

text \<open>The hypotheses of the theorems on one file, for the file \<open>/s/a\<close> under the id 7.\<close>

lemma synced_setup:
  "synced_info = location_info client_side (butlast [''s'']) (butlast [''s''] @ [''s'', ''a'']) 7"
  "plain_fs (env_fs client_side)" "node_at (env_fs client_side) (butlast [''s''] @ [''s'', ''a'']) = Some (Regular [7, 8] 3)"
  "path_of (SyncPath client_data_side) = abs_path [''s'']" "[''s''] \<noteq> []" "[''s'', ''a''] \<noteq> []" "proper [''s'']"
  "data_fs client_data_side = env_fs client_side" "data_capnp client_data_side = env_capnp client_side"
  "server_capnp server_side = env_capnp client_side" "server_clock server_side = env_clock client_side"
  "capnp_ok (env_capnp client_side)" "clock_ok (env_clock client_side)"
  "0 \<le> 3 + clk_epoch (env_clock client_side) * clk_rate (env_clock client_side)"
  "to_utc_seconds (env_clock client_side) 3 < 2 ^ 63" "- (2 ^ 63) \<le> to_utc_seconds (env_clock client_side) 3"
  "length [7, 8 :: u8] < 2 ^ 64" "FileInfos synced_client 7 = Some (serialize (env_capnp client_side) synced_info)"
  "server_ok server_side" "BasePath server_side = abs_path []" "proper []"
  "plain_fs (server_fs example_state)" "no_write_faults (server_fs example_state)"
  "file_place (server_fs example_state) ([] @ [''s'', ''a''])"
  "file_place (server_fs example_state) (temp_loc ([] @ [''s'', ''a'']))"
  "DoesFileNeedUpdate (env_clock client_side) (server_fs example_state) (abs_path []) synced_info"
proof -
  have env: "env_clock client_side = example_clock" "env_capnp client_side = toy_capnp" "server_fs example_state = example_fs"
    by (simp_all add: client_side_def example_state_def)
  show "DoesFileNeedUpdate (env_clock client_side) (server_fs example_state) (abs_path []) synced_info"
    using synced_needed by (simp only: env)
  show "clock_ok (env_clock client_side)" "0 \<le> 3 + clk_epoch (env_clock client_side) * clk_rate (env_clock client_side)"
    "to_utc_seconds (env_clock client_side) 3 < 2 ^ 63" "- (2 ^ 63) \<le> to_utc_seconds (env_clock client_side) 3"
    using synced_clock by (simp_all add: env clock_ok_def) (simp_all add: example_clock_def)
qed (use client_side_plain synced_node toy_capnp_ok example_fs(1,3) example_file in
    \<open>simp_all add: client_data_side_def client_side_def server_side_def server_ok_def example_state_def synced_client_def
      proper_name_def slash_def dot_def dotdot_def\<close>)

theorem file_synchronised_witness:
  "\<exists>ctx c' d' fs' ctx'.
    QSyncClientDataStreamCallback client_data_side (synced_client, new_stream) (ClientReceive [enc_u64 7]) = Inr (c', Some d') \<and>
    unread d' = [7, 8] \<and>
    receive_file example_fs ctx [([[7], [8]], True)] = Inr (fs', Some ctx') \<and>
    node_at fs' [''s'', ''a''] = Some (Regular [7, 8] 3)"
proof -
  let ?d = "new_stream\<lparr>unread := [], EndOfFile := True, sent := [([7, 8], True)]\<rparr>"
  let ?m = "opened [7, 8]\<lparr>strm := Some ?d, queued := 0\<rparr>"
  have run: "strm ?m = Some ?d" "worker_at ?m = WorkerIdle" "callback_at ?m = CallbackIdle" "queued ?m = 0" "in_flight ?d = 0"
    by (simp_all add: opened_def new_stream_def)
  have pieces: "\<forall>b \<in> set ([] @ [[[7 :: u8], [8]]]). length b \<le> 2"
    "concat (concat ([] @ [[[7], [8]]])) = concat (map fst (sent ?d))" by simp_all
  have env: "env_clock client_side = example_clock" "server_fs example_state = example_fs"
    by (simp_all add: client_side_def example_state_def)
  from file_synchronised [OF synced_setup short_run_reachable run pieces]
  obtain ctx c' d' fs' ctx' where
    "QSyncClientDataStreamCallback client_data_side (synced_client, new_stream) (ClientReceive [enc_u64 7]) = Inr (c', Some d')"
    "unread d' = [7, 8]"
    "receive_file (server_fs example_state) ctx (map (\<lambda>b. (b, False)) [] @ [([[7], [8]], True)]) = Inr (fs', Some ctx')"
    "\<forall>l'. node_at fs' l' = (if l' = [] @ [''s'', ''a'']
       then Some (Regular [7, 8] (3 - (3 + clk_epoch (env_clock client_side) * clk_rate (env_clock client_side)) mod clk_rate (env_clock client_side)))
       else if l' = temp_loc ([] @ [''s'', ''a'']) then None else node_at (server_fs example_state) l')"
    by blast
  then show ?thesis using synced_clock(3) unfolding env
    by (intro exI [of _ ctx] exI [of _ c'] exI [of _ d'] exI [of _ fs'] exI [of _ ctx'])
      (simp del: receive_file.simps QSyncClientDataStreamCallback.simps)
qed

lemma server_state_requested: "s\<lparr>requested := xs\<rparr> = s\<lparr>requested := ys\<rparr> \<longleftrightarrow> xs = ys"
  by (metis server_state.select_convs(3) server_state.surjective server_state.update_convs(3))


section \<open>The tree is recreated\<close>

text \<open>
  Serving the infos of a whole search on an empty base directory recreates the tree: every directory
  exists at its mirrored place, exactly the files are requested, each under its id and in the order of the
  search, and nothing is answered as up to date.
\<close>

theorem tree_mirrored:
  assumes fs: "plain_fs (env_fs fenv)" and Root: "path_of Root = abs_path r" "r \<noteq> []" and r: "is_dir (env_fs fenv) r"
    and env: "server_ok senv" "BasePath senv = abs_path base" "proper base" "server_capnp senv = env_capnp fenv"
      "capnp_ok (env_capnp fenv)"
    and dst: "plain_fs (server_fs s)" "is_dir (server_fs s) base"
    and empty: "\<forall>l. prefix base l \<and> l \<noteq> base \<longrightarrow> node_at (server_fs s) l = None"
  shows "\<exists>ls s'.
    set ls = {l. prefix r l \<and> (\<exists>n. node_at (env_fs fenv) l = Some n \<and> reported_type n \<noteq> None)} \<and>
    FindFiles fenv record_report Root (k, []) =
      Some (True, (k + of_nat (length ls), location_reports fenv (butlast r) k ls)) \<and>
    serve_infos senv (map snd (location_reports fenv (butlast r) k ls)) s = Inr s' \<and>
    answered s' = answered s \<and>
    (\<forall>l. prefix r l \<and> is_dir (env_fs fenv) l \<longrightarrow> is_dir (server_fs s') (mirrored base r l)) \<and>
    map fst (requested s') = map fst (requested s) @
      map fst (filter (\<lambda>(i, l). is_file (env_fs fenv) l) (zip (map fst (location_reports fenv (butlast r) k ls)) ls))"
proof -
  from search_reports_tree [OF fs Root r, of k] obtain ls where ls: "distinct ls"
    "set ls = {l. prefix r l \<and> (\<exists>n. node_at (env_fs fenv) l = Some n \<and> reported_type n \<noteq> None)}"
    "parents_first {butlast r} ls"
    "FindFiles fenv record_report Root (k, []) =
      Some (True, (k + of_nat (length ls), location_reports fenv (butlast r) k ls))" by blast
  from infos_mirrored [OF fs Root(2) ls(1-3) env dst empty, of k] ls(2,4) show ?thesis by blast
qed

theorem tree_mirrored_witness:
  "\<exists>ls s'. serve_infos empty_server (map snd (location_reports searched_side [] 0 ls)) empty_state = Inr s' \<and>
     is_dir (server_fs s') [''t'', ''s'', ''d''] \<and>
     map fst (requested s') = map fst (filter (\<lambda>(i, l). is_file example_fs l)
       (zip (map fst (location_reports searched_side [] 0 ls)) ls))"
proof -
  have server: "server_ok empty_server" "BasePath empty_server = abs_path [''t'']" "proper [''t'']"
    "server_capnp empty_server = env_capnp searched_side" "capnp_ok (env_capnp searched_side)"
    using toy_capnp_ok by (simp_all add: empty_server_def server_side_def server_ok_def searched_side_def proper_name_def
      slash_def dot_def dotdot_def)
  have source: "plain_fs (env_fs searched_side)" "is_dir (env_fs searched_side) [''s'']"
    "is_dir (env_fs searched_side) [''s'', ''d'']"
    using example_fs by (simp_all add: searched_side_def is_dir_def node_at_def example_fs_def)
  from tree_mirrored [OF source(1) example_fs(3) _ source(2) server empty_target, of 0] obtain ls s' where
    "serve_infos empty_server (map snd (location_reports searched_side [] 0 ls)) empty_state = Inr s'"
    "\<forall>l. prefix [''s''] l \<and> is_dir (env_fs searched_side) l \<longrightarrow> is_dir (server_fs s') (mirrored [''t''] [''s''] l)"
    "map fst (requested s') = map fst (requested empty_state) @
      map fst (filter (\<lambda>(i, l). is_file (env_fs searched_side) l) (zip (map fst (location_reports searched_side [] 0 ls)) ls))"
    by auto
  moreover have "requested empty_state = []" "env_fs searched_side = example_fs"
    "mirrored [''t''] [''s''] [''s'', ''d''] = [''t'', ''s'', ''d'']" "prefix [''s''] [''s'', ''d'']"
    by (simp_all add: empty_state_def searched_side_def mirrored_def)
  moreover note source(3)
  ultimately show ?thesis by (intro exI [of _ ls] exI [of _ s'] conjI) (simp, metis, simp)
qed

section \<open>A second synchronisation does nothing\<close>



end
